(* ===== verification/Miosix_Prelude.thy ===== *)
theory Miosix_Prelude
  imports Main "HOL-Library.Word"
begin

text \<open>
  Shared vocabulary of the development: the result type of the kernel operations,
  the build-time configuration switches, and the generic lemmas on results and lists
  that the component theories use.

  An operation of the kernel that can end in \<^verbatim>\<open>errorHandler\<close> (which is
  \<^verbatim>\<open>[[noreturn]]\<close> and reboots the board) or in undefined behaviour (a null or
  out-of-range access) returns \<open>Inl\<close> of the error; a normal return is \<open>Inr\<close>.
\<close>

section \<open>Errors and results\<close>

text \<open>The error codes of \<^verbatim>\<open>enum class Error\<close>, plus the three kinds of
  undefined behaviour the models make visible: a null access, an access outside an array, and
  an intrusive list operation on an item of a different list.\<close>

datatype kerror =
    UNEXPECTED
  | OUT_OF_MEMORY
  | STACK_OVERFLOW
  | MUTEX_ERROR
  | INTERRUPTS_ENABLED_AT_BOOT
  | KERNEL_ALREADY_STARTED_AT_BOOT
  | INTERRUPT_REGISTRATION_ERROR
  | NullDereference
  | OutOfBounds
  | ListCorruption

type_synonym 'a result = "kerror + 'a"

definition rbind :: "'a result \<Rightarrow> ('a \<Rightarrow> 'b result) \<Rightarrow> 'b result" where
  "rbind r f = (case r of Inl e \<Rightarrow> Inl e | Inr x \<Rightarrow> f x)"

lemma rbind_Inl [simp]: "rbind (Inl e) f = Inl e"
  by (simp add: rbind_def)

lemma rbind_Inr [simp]: "rbind (Inr x) f = f x"
  by (simp add: rbind_def)

lemma rbind_eq_Inr: "rbind r f = Inr y \<longleftrightarrow> (\<exists>x. r = Inr x \<and> f x = Inr y)"
  by (cases r) auto

lemma rbind_eq_Inl: "rbind r f = Inl e \<longleftrightarrow> r = Inl e \<or> (\<exists>x. r = Inr x \<and> f x = Inl e)"
  by (cases r) auto

lemma rbind_cong [fundef_cong]:
  "r = r' \<Longrightarrow> (\<And>x. r' = Inr x \<Longrightarrow> f x = g x) \<Longrightarrow> rbind r f = rbind r' g"
  by (cases r') auto

lemma rbind_assoc: "rbind (rbind r f) g = rbind r (\<lambda>x. rbind (f x) g)"
  by (cases r) auto

definition ensure :: "bool \<Rightarrow> kerror \<Rightarrow> 'a result \<Rightarrow> 'a result" where
  "ensure ok e r = (if ok then r else Inl e)"

lemma ensure_True [simp]: "ensure True e r = r"
  by (simp add: ensure_def)

lemma ensure_False [simp]: "ensure False e r = Inl e"
  by (simp add: ensure_def)

lemma ensure_eq_Inr: "ensure ok e r = Inr y \<longleftrightarrow> ok \<and> r = Inr y"
  by (simp add: ensure_def)

section \<open>Identifiers\<close>

text \<open>Threads and mutexes are pointers in the code; the models identify each by a number and keep
  the objects in maps. A null pointer is \<open>None\<close>.\<close>

type_synonym tid = nat
type_synonym mid = nat

text \<open>\<^verbatim>\<open>numeric_limits<long long>::max()\<close>, used by the timers for an event that never comes.\<close>

definition max_ll :: int where
  "max_ll = 2 ^ 63 - 1"

section \<open>Configuration\<close>

text \<open>\<^verbatim>\<open>extraChecks\<close> of the board settings selects how many consistency checks
  are compiled in.\<close>

datatype ExtraChecks = NoChecks | Application | Kernel

text \<open>The build options the modelled code depends on: \<^verbatim>\<open>WITH_SMP\<close>,
  \<^verbatim>\<open>WITH_THREAD_AFFINITY\<close>, \<^verbatim>\<open>WITH_PROCESSES\<close> and
  \<^verbatim>\<open>OS_TIMER_MODEL_UNIFIED\<close>.\<close>

record config =
  extraChecks :: ExtraChecks
  with_smp :: bool
  with_affinity :: bool
  with_processes :: bool
  unified_timer :: bool

section \<open>Lists\<close>

definition hd_opt :: "'a list \<Rightarrow> 'a option" where
  "hd_opt xs = (case xs of [] \<Rightarrow> None | x # _ \<Rightarrow> Some x)"

definition last_opt :: "'a list \<Rightarrow> 'a option" where
  "last_opt xs = (if xs = [] then None else Some (last xs))"

lemma hd_opt_simps [simp]: "hd_opt [] = None" "hd_opt (x # xs) = Some x"
  by (simp_all add: hd_opt_def)

lemma last_opt_simps [simp]:
  "last_opt [] = None" "last_opt (xs @ [x]) = Some x"
  by (simp_all add: last_opt_def)

lemma hd_opt_append: "hd_opt (xs @ ys) = (if xs = [] then hd_opt ys else hd_opt xs)"
  by (cases xs) auto

lemma last_opt_append: "last_opt (xs @ ys) = (if ys = [] then last_opt xs else last_opt ys)"
  by (simp add: last_opt_def)

lemma last_opt_Cons [simp]: "last_opt (x # xs) = (if xs = [] then Some x else last_opt xs)"
  by (simp add: last_opt_def)

lemma hd_opt_eq_None [simp]: "hd_opt xs = None \<longleftrightarrow> xs = []"
  by (cases xs) auto

lemma last_opt_eq_None [simp]: "last_opt xs = None \<longleftrightarrow> xs = []"
  by (simp add: last_opt_def)

lemma hd_opt_None_eq [simp]: "None = hd_opt xs \<longleftrightarrow> xs = []"
  by (cases xs) auto

lemma ex_hd_opt [simp]: "(\<exists>y. hd_opt xs = Some y) \<longleftrightarrow> xs \<noteq> []"
  by (cases xs) auto

lemma ex_last_opt [simp]: "(\<exists>y. last_opt xs = Some y) \<longleftrightarrow> xs \<noteq> []"
  by (simp add: last_opt_def)

lemma last_opt_Some_iff: "last_opt xs = Some x \<longleftrightarrow> (\<exists>ys. xs = ys @ [x])"
  by (cases xs rule: rev_cases) auto

lemma hd_opt_Some_iff: "hd_opt xs = Some x \<longleftrightarrow> (\<exists>ys. xs = x # ys)"
  by (cases xs) auto

lemma hd_opt_in_set: "hd_opt xs = Some x \<Longrightarrow> x \<in> set xs"
  by (cases xs) auto

lemma last_opt_in_set: "last_opt xs = Some x \<Longrightarrow> x \<in> set xs"
  by (auto simp: last_opt_def split: if_splits)

lemma remove1_split: "x \<notin> set as \<Longrightarrow> remove1 x (as @ x # bs) = as @ bs"
  by (induction as) auto

lemma distinct_split_unique:
  assumes "distinct xs" and "x \<in> set xs"
  obtains as bs where "xs = as @ x # bs" "x \<notin> set as" "x \<notin> set bs" "distinct (as @ bs)"
    "set as \<inter> set bs = {}"
  using assms by (metis distinct.simps(2) distinct_append not_distinct_conv_prefix
      disjoint_iff list.set_intros(2) split_list)

lemma in_concat_nth: "x \<in> set (concat q) \<longleftrightarrow> (\<exists>i < length q. x \<in> set (q ! i))"
  by (auto simp: set_conv_nth[of q])

lemma in_concat_take: "x \<in> set (concat (take m q)) \<longleftrightarrow> (\<exists>i < length q. i < m \<and> x \<in> set (q ! i))"
  unfolding in_concat_nth by auto

lemma in_concat_drop: "x \<in> set (concat (drop m q)) \<longleftrightarrow> (\<exists>i < length q. m \<le> i \<and> x \<in> set (q ! i))"
proof
  assume "\<exists>i < length q. m \<le> i \<and> x \<in> set (q ! i)"
  then obtain i where "i < length q" "m \<le> i" "x \<in> set (q ! i)" by blast
  then have "i - m < length (drop m q)" "x \<in> set (drop m q ! (i - m))" by auto
  then show "x \<in> set (concat (drop m q))" unfolding in_concat_nth by blast
next
  assume "x \<in> set (concat (drop m q))"
  then obtain i where "i < length (drop m q)" "x \<in> set (drop m q ! i)"
    unfolding in_concat_nth by blast
  then have "m + i < length q \<and> m \<le> m + i \<and> x \<in> set (q ! (m + i))" by auto
  then show "\<exists>i < length q. m \<le> i \<and> x \<in> set (q ! i)" by blast
qed

lemma set_concat_rev: "set (concat (rev q)) = set (concat q)"
  by simp

lemma filter_prefix:
  assumes "\<And>y. y \<in> set as \<Longrightarrow> P y" and "\<And>y. y \<in> set bs \<Longrightarrow> \<not> P y"
  shows "filter P (as @ bs) = as"
  using assms by simp

lemma filter_suffix:
  assumes "\<And>y. y \<in> set as \<Longrightarrow> \<not> P y" and "\<And>y. y \<in> set bs \<Longrightarrow> P y"
  shows "filter P (as @ bs) = bs"
  using assms by simp

end
