(* ===== verification/Intrusive_List.thy ===== *)
theory Intrusive_List
  imports Miosix_Prelude
begin

text \<open>
  The doubly linked intrusive list of \<^verbatim>\<open>kernel/intrusive.h\<close> and
  \<^verbatim>\<open>kernel/intrusive.cpp\<close>, at the level of the pointers it manipulates.

  The link fields of every \<^verbatim>\<open>IntrusiveListItem\<close> live in a heap: two functions
  from item addresses to the \<^verbatim>\<open>next\<close> and \<^verbatim>\<open>prev\<close> pointers
  (\<open>None\<close> is \<^verbatim>\<open>nullptr\<close>). A list is its \<^verbatim>\<open>head\<close> and
  \<^verbatim>\<open>tail\<close> pointer. The representation predicate \<open>repr\<close> relates a heap and a
  list object to the sequence of items stored, and every operation is shown to refine the
  corresponding operation on sequences, for every level of \<^verbatim>\<open>extraChecks\<close>.
\<close>

section \<open>Data\<close>

type_synonym item = nat

record heap =
  nxt :: "item \<Rightarrow> item option"
  prv :: "item \<Rightarrow> item option"

record IntrusiveListBase =
  head :: "item option"
  tail :: "item option"

type_synonym lstate = "heap \<times> IntrusiveListBase"

definition empty_list :: IntrusiveListBase where
  "empty_list = \<lparr>head = None, tail = None\<rparr>"

definition il_empty :: "IntrusiveListBase \<Rightarrow> bool" where
  "il_empty l = (head l = None)"

section \<open>Operations\<close>

text \<open>The checks every operation makes at the highest check level: head and tail are both
  null or both not, and the only item of a one-item list has null links.\<close>

definition check_ends :: "lstate \<Rightarrow> bool" where
  "check_ends s = (let (h, l) = s in (head l \<noteq> None) = (tail l \<noteq> None))"

definition check_single :: "lstate \<Rightarrow> bool" where
  "check_single s = (let (h, l) = s in
     \<not> (\<not> il_empty l \<and> head l = tail l \<and>
        (case head l of None \<Rightarrow> False | Some x \<Rightarrow> prv h x \<noteq> None \<or> nxt h x \<noteq> None)))"

definition check_nonnull :: "lstate \<Rightarrow> bool" where
  "check_nonnull s = (let (h, l) = s in head l \<noteq> None \<and> tail l \<noteq> None)"

definition check_free :: "item \<Rightarrow> lstate \<Rightarrow> bool" where
  "check_free x s = (let (h, l) = s in prv h x = None \<and> nxt h x = None)"

definition check_member :: "item \<Rightarrow> lstate \<Rightarrow> bool" where
  "check_member c s = (let (h, l) = s in
     \<not> (prv h c = None \<and> head l \<noteq> Some c) \<and> \<not> (nxt h c = None \<and> tail l \<noteq> Some c))"

definition push_back :: "ExtraChecks \<Rightarrow> item \<Rightarrow> lstate \<Rightarrow> lstate result" where
  "push_back ck x s = (let (h, l) = s in
     ensure (ck = Kernel \<longrightarrow> check_ends s \<and> check_single s \<and> check_free x s) UNEXPECTED
      (if il_empty l then Inr (h, l\<lparr>head := Some x, tail := Some x\<rparr>)
       else case tail l of
              None \<Rightarrow> Inl NullDereference
            | Some t \<Rightarrow> Inr (h\<lparr>prv := (prv h)(x := Some t), nxt := (nxt h)(t := Some x)\<rparr>,
                           l\<lparr>tail := Some x\<rparr>)))"

definition pop_back :: "ExtraChecks \<Rightarrow> lstate \<Rightarrow> lstate result" where
  "pop_back ck s = (let (h, l) = s in
     ensure (ck = Kernel \<longrightarrow> check_nonnull s \<and> check_single s) UNEXPECTED
      (case tail l of
         None \<Rightarrow> Inl NullDereference
       | Some r \<Rightarrow>
           (case prv h r of
              Some t \<Rightarrow> Inr (h\<lparr>nxt := (nxt h)(t := None), prv := (prv h)(r := None)\<rparr>,
                           l\<lparr>tail := Some t\<rparr>)
            | None \<Rightarrow> Inr (h, l\<lparr>tail := None, head := None\<rparr>))))"

definition push_front :: "ExtraChecks \<Rightarrow> item \<Rightarrow> lstate \<Rightarrow> lstate result" where
  "push_front ck x s = (let (h, l) = s in
     ensure (ck = Kernel \<longrightarrow> check_ends s \<and> check_single s \<and> check_free x s) UNEXPECTED
      (case head l of
         None \<Rightarrow> Inr (h, l\<lparr>tail := Some x, head := Some x\<rparr>)
       | Some d \<Rightarrow> Inr (h\<lparr>prv := (prv h)(d := Some x), nxt := (nxt h)(x := Some d)\<rparr>,
                      l\<lparr>head := Some x\<rparr>)))"

definition pop_front :: "ExtraChecks \<Rightarrow> lstate \<Rightarrow> lstate result" where
  "pop_front ck s = (let (h, l) = s in
     ensure (ck = Kernel \<longrightarrow> check_nonnull s \<and> check_single s) UNEXPECTED
      (case head l of
         None \<Rightarrow> Inl NullDereference
       | Some r \<Rightarrow>
           (case nxt h r of
              Some d \<Rightarrow> Inr (h\<lparr>prv := (prv h)(d := None), nxt := (nxt h)(r := None)\<rparr>,
                           l\<lparr>head := Some d\<rparr>)
            | None \<Rightarrow> Inr (h, l\<lparr>head := None, tail := None\<rparr>))))"

text \<open>\<^verbatim>\<open>insert\<close> puts the item before \<^verbatim>\<open>cur\<close>, or at the end when
  \<^verbatim>\<open>cur\<close> is null.\<close>

definition insert_at :: "ExtraChecks \<Rightarrow> item option \<Rightarrow> item \<Rightarrow> lstate \<Rightarrow> lstate result" where
  "insert_at ck cur x s = (let (h, l) = s in
     ensure (ck = Kernel \<longrightarrow> check_ends s \<and> check_single s
               \<and> (case cur of None \<Rightarrow> True | Some c \<Rightarrow> check_member c s) \<and> check_free x s)
       UNEXPECTED
      (let h1 = h\<lparr>nxt := (nxt h)(x := cur)\<rparr>;
           (h2, l2) = (case cur of
              Some c \<Rightarrow> (let h' = h1\<lparr>prv := (prv h1)(x := prv h1 c)\<rparr>
                        in (h'\<lparr>prv := (prv h')(c := Some x)\<rparr>, l))
            | None \<Rightarrow> (h1\<lparr>prv := (prv h1)(x := tail l)\<rparr>, l\<lparr>tail := Some x\<rparr>))
       in case prv h2 x of
            Some p \<Rightarrow> Inr (h2\<lparr>nxt := (nxt h2)(p := Some x)\<rparr>, l2)
          | None \<Rightarrow> Inr (h2, l2\<lparr>head := Some x\<rparr>)))"

text \<open>The walk of the highest check level: follow \<^verbatim>\<open>next\<close> from the head until the
  item is met or the list ends. \<open>None\<close> is a walk that has not ended within the fuel.\<close>

fun walk_find :: "nat \<Rightarrow> heap \<Rightarrow> item option \<Rightarrow> item \<Rightarrow> bool option" where
  "walk_find 0 h w c = None"
| "walk_find (Suc n) h w c =
     (case w of None \<Rightarrow> Some False
      | Some x \<Rightarrow> if x = c then Some True else walk_find n h (nxt h x) c)"

definition unlink :: "item \<Rightarrow> lstate \<Rightarrow> lstate \<times> item option" where
  "unlink c s = (let (h, l) = s;
       (h1, l1) = (case prv h c of
           Some p \<Rightarrow> (h\<lparr>nxt := (nxt h)(p := nxt h c)\<rparr>, l)
         | None \<Rightarrow> (h, l\<lparr>head := nxt h c\<rparr>));
       (h2, l2) = (case nxt h1 c of
           Some n \<Rightarrow> (h1\<lparr>prv := (prv h1)(n := prv h1 c)\<rparr>, l1)
         | None \<Rightarrow> (h1, l1\<lparr>tail := prv h1 c\<rparr>));
       result = nxt h2 c
     in ((h2\<lparr>prv := (prv h2)(c := None), nxt := (nxt h2)(c := None)\<rparr>, l2), result))"

text \<open>\<^verbatim>\<open>erase\<close>. The fuel bounds only the walk of the checks; running out of it
  (a cyclic list) is reported as a failed check.\<close>

definition erase :: "ExtraChecks \<Rightarrow> nat \<Rightarrow> item option \<Rightarrow> lstate \<Rightarrow> (lstate \<times> item option) result" where
  "erase ck fuel cur s = (let (h, l) = s in
     case cur of
       None \<Rightarrow> Inl (if ck = Kernel then UNEXPECTED else NullDereference)
     | Some c \<Rightarrow>
         ensure (ck = Kernel \<longrightarrow> check_nonnull s \<and> check_single s \<and> check_member c s
                   \<and> walk_find fuel h (head l) c = Some True) UNEXPECTED
           (Inr (unlink c s)))"

definition removeFast :: "ExtraChecks \<Rightarrow> nat \<Rightarrow> item \<Rightarrow> lstate \<Rightarrow> (lstate \<times> bool) result" where
  "removeFast ck fuel x s = (let (h, l) = s in
     if prv h x = None \<and> head l \<noteq> Some x then Inr (s, False)
     else rbind (erase ck fuel (Some x) s) (\<lambda>(s', r). Inr (s', True)))"

text \<open>\<^verbatim>\<open>front\<close> and \<^verbatim>\<open>back\<close> return the pointer, null on an empty list
  unless the check level forbids the call.\<close>

definition il_front :: "ExtraChecks \<Rightarrow> lstate \<Rightarrow> item option result" where
  "il_front ck s = (let (h, l) = s in ensure (ck = Kernel \<longrightarrow> head l \<noteq> None) UNEXPECTED (Inr (head l)))"

definition il_back :: "ExtraChecks \<Rightarrow> lstate \<Rightarrow> item option result" where
  "il_back ck s = (let (h, l) = s in ensure (ck = Kernel \<longrightarrow> tail l \<noteq> None) UNEXPECTED (Inr (tail l)))"


text \<open>Iterators: a list pointer (is it set, and is it this list) and the current item.
  Decrementing the end iterator moves to the last item.\<close>

definition it_begin :: "IntrusiveListBase \<Rightarrow> item option" where
  "it_begin l = head l"

definition it_end :: "item option" where
  "it_end = None"

definition it_next :: "ExtraChecks \<Rightarrow> heap \<Rightarrow> item option \<Rightarrow> item option result" where
  "it_next ck h it = (case it of
      None \<Rightarrow> Inl (if ck = Kernel then UNEXPECTED else NullDereference)
    | Some x \<Rightarrow> Inr (nxt h x))"

definition it_prev :: "ExtraChecks \<Rightarrow> lstate \<Rightarrow> item option \<Rightarrow> item option result" where
  "it_prev ck s it = (let (h, l) = s in
     ensure (ck = Kernel \<longrightarrow> \<not> il_empty l) UNEXPECTED
       (Inr (case it of Some x \<Rightarrow> prv h x | None \<Rightarrow> tail l)))"

section \<open>The representation invariant\<close>

fun seg :: "heap \<Rightarrow> item option \<Rightarrow> item list \<Rightarrow> item option \<Rightarrow> bool" where
  "seg h p [] n = True"
| "seg h p (x # xs) n =
     (prv h x = p \<and> nxt h x = (if xs = [] then n else hd_opt xs) \<and> seg h (Some x) xs n)"

definition repr :: "lstate \<Rightarrow> item list \<Rightarrow> bool" where
  "repr s xs = (let (h, l) = s in
     distinct xs \<and> seg h None xs None \<and> head l = hd_opt xs \<and> tail l = last_opt xs)"

definition free_item :: "lstate \<Rightarrow> item \<Rightarrow> bool" where
  "free_item s x = (nxt (fst s) x = None \<and> prv (fst s) x = None)"

text \<open>Nothing outside the given items is written: other lists on the heap are untouched.\<close>

definition frame :: "item set \<Rightarrow> lstate \<Rightarrow> lstate \<Rightarrow> bool" where
  "frame A s s' = (\<forall>y. y \<notin> A \<longrightarrow>
     nxt (fst s') y = nxt (fst s) y \<and> prv (fst s') y = prv (fst s) y)"

lemma seg_append:
  "seg h p (xs @ ys) n \<longleftrightarrow>
     seg h p xs (if ys = [] then n else hd_opt ys) \<and>
     seg h (if xs = [] then p else last_opt xs) ys n"
  by (induction xs arbitrary: p) (auto simp: hd_opt_append last_opt_Cons)

lemma seg_agree:
  assumes "\<And>y. y \<in> set xs \<Longrightarrow> nxt h' y = nxt h y \<and> prv h' y = prv h y"
  shows "seg h' p xs n = seg h p xs n"
  using assms by (induction xs arbitrary: p) auto

lemma seg_single_ends:
  "seg h p xs n \<Longrightarrow> xs = [x] \<Longrightarrow> prv h x = p \<and> nxt h x = n"
  by auto

lemma reprI:
  "distinct xs \<Longrightarrow> seg h None xs None \<Longrightarrow> head l = hd_opt xs \<Longrightarrow> tail l = last_opt xs
     \<Longrightarrow> repr (h, l) xs"
  by (simp add: repr_def)

lemma reprD:
  assumes "repr (h, l) xs"
  shows "distinct xs" "seg h None xs None" "head l = hd_opt xs" "tail l = last_opt xs"
  using assms by (auto simp: repr_def)

lemma repr_empty: "repr (h, empty_list) []"
  by (simp add: repr_def empty_list_def)

lemma repr_unique_aux:
  "seg h p xs None \<Longrightarrow> seg h q ys None \<Longrightarrow> hd_opt xs = hd_opt ys \<Longrightarrow> xs = ys"
proof (induction xs arbitrary: p q ys)
  case (Cons x xs)
  then obtain ys' where ys: "ys = x # ys'" by (cases ys) auto
  with Cons.prems have "hd_opt xs = hd_opt ys'" by (auto split: if_splits)
  with Cons ys show ?case by auto
qed auto

text \<open>A heap and a list object store at most one sequence: \<open>repr\<close> is a function of the
  concrete state.\<close>

lemma repr_unique: "repr s xs \<Longrightarrow> repr s ys \<Longrightarrow> xs = ys"
  by (cases s) (auto simp: repr_def intro: repr_unique_aux)

text \<open>Under the invariant every consistency check of the highest level passes.\<close>

lemma repr_check_ends: "repr s xs \<Longrightarrow> check_ends s"
  by (cases s; cases xs) (auto simp: repr_def check_ends_def last_opt_def)

lemma repr_check_single: "repr s xs \<Longrightarrow> check_single s"
proof (cases s)
  case (Pair h l)
  assume "repr s xs"
  then show ?thesis
    by (cases xs; cases "tl xs")
       (auto simp: Pair repr_def check_single_def il_empty_def last_opt_def split: if_splits)
qed

lemma repr_check_nonnull: "repr s xs \<Longrightarrow> xs \<noteq> [] \<Longrightarrow> check_nonnull s"
  by (cases s; cases xs) (auto simp: repr_def check_nonnull_def last_opt_def)

lemma repr_links:
  assumes "repr (h, l) (as @ c # bs)"
  shows "prv h c = last_opt as" "nxt h c = hd_opt bs"
  using reprD(2)[OF assms] by (auto simp: seg_append last_opt_def split: if_splits)

lemma repr_check_member:
  assumes "repr s xs" "c \<in> set xs"
  shows "check_member c s"
proof -
  obtain h l where s: "s = (h, l)" by (cases s)
  obtain as bs where xs: "xs = as @ c # bs" using assms(2) by (meson split_list)
  have "head l = hd_opt xs" "tail l = last_opt xs" using assms(1) s by (auto dest: reprD)
  then show ?thesis
    using repr_links[of h l as c bs] assms(1) s xs
    by (auto simp: check_member_def hd_opt_append last_opt_append last_opt_Cons)
qed

lemmas repr_checks = repr_check_ends repr_check_single repr_check_nonnull repr_check_member

lemma walk_find_seg:
  assumes "seg h p xs None" "length xs < fuel"
  shows "walk_find fuel h (hd_opt xs) c = Some (c \<in> set xs)"
  using assms
proof (induction xs arbitrary: p fuel)
  case Nil
  then show ?case by (cases fuel) auto
next
  case (Cons x xs)
  then obtain n where n: "fuel = Suc n" by (cases fuel) auto
  with Cons.prems have "walk_find n h (hd_opt xs) c = Some (c \<in> set xs)"
    by (intro Cons.IH[of "Some x"]) auto
  with Cons.prems n show ?case by (cases xs) auto
qed


section \<open>Refinement of the list operations\<close>

text \<open>Every operation, on a represented list and within its documented precondition, returns
  normally at every check level, represents the updated sequence, and writes only the
  items of the list and the item it is given.\<close>

lemma frame_refl [simp]: "frame A s s"
  by (simp add: frame_def)

lemma free_itemD: "free_item (h, l) x \<Longrightarrow> nxt h x = None \<and> prv h x = None"
  by (simp add: free_item_def)

lemma check_free_item: "free_item s x \<Longrightarrow> check_free x s"
  by (cases s) (simp add: free_item_def check_free_def)

lemma push_back_refines:
  assumes r: "repr s xs" and f: "free_item s x" and x: "x \<notin> set xs"
  shows "\<exists>s'. push_back ck x s = Inr s' \<and> repr s' (xs @ [x]) \<and> frame (set (x # xs)) s s'"
proof -
  obtain h l where s: "s = (h, l)" by (cases s)
  note r' = r[unfolded s]
  have chk: "check_ends s \<and> check_single s \<and> check_free x s"
    using r f by (simp add: repr_checks check_free_item)
  show ?thesis
  proof (cases xs rule: rev_cases)
    case Nil
    then show ?thesis
      using reprD[OF r'] f chk
      by (auto simp: push_back_def s il_empty_def repr_def free_item_def last_opt_def frame_def)
  next
    case (snoc ys t)
    let ?h = "h\<lparr>prv := (prv h)(x := Some t), nxt := (nxt h)(t := Some x)\<rparr>"
    have "seg ?h None ys (Some t) = seg h None ys (Some t)"
      using snoc x reprD(1)[OF r'] by (intro seg_agree) auto
    then have "repr (?h, l\<lparr>tail := Some x\<rparr>) (xs @ [x])"
      using reprD[OF r'] snoc x f
      by (auto simp: repr_def seg_append free_item_def s hd_opt_append last_opt_append)
    then show ?thesis
      using chk reprD[OF r'] snoc
      by (auto simp: push_back_def s il_empty_def frame_def)
  qed
qed

lemma push_front_refines:
  assumes r: "repr s xs" and f: "free_item s x" and x: "x \<notin> set xs"
  shows "\<exists>s'. push_front ck x s = Inr s' \<and> repr s' (x # xs) \<and> frame (set (x # xs)) s s'"
proof -
  obtain h l where s: "s = (h, l)" by (cases s)
  note r' = r[unfolded s]
  have chk: "check_ends s \<and> check_single s \<and> check_free x s"
    using r f by (simp add: repr_checks check_free_item)
  show ?thesis
  proof (cases xs)
    case Nil
    then show ?thesis
      using reprD[OF r'] f chk
      by (auto simp: push_front_def s repr_def free_item_def last_opt_def frame_def)
  next
    case (Cons d ys)
    let ?h = "h\<lparr>prv := (prv h)(d := Some x), nxt := (nxt h)(x := Some d)\<rparr>"
    have "seg ?h (Some d) ys None = seg h (Some d) ys None"
      using Cons x reprD(1)[OF r'] by (intro seg_agree) auto
    then have "repr (?h, l\<lparr>head := Some x\<rparr>) (x # xs)"
      using reprD[OF r'] Cons x f
      by (auto simp: repr_def free_item_def s last_opt_Cons)
    then show ?thesis
      using chk reprD[OF r'] Cons by (auto simp: push_front_def s frame_def)
  qed
qed

lemma pop_back_refines:
  assumes r: "repr s (xs @ [x])"
  shows "\<exists>s'. pop_back ck s = Inr s' \<and> repr s' xs \<and> free_item s' x \<and> frame (set (x # xs)) s s'"
proof -
  obtain h l where s: "s = (h, l)" by (cases s)
  note r' = r[unfolded s]
  have chk: "check_nonnull s \<and> check_single s"
    using r by (simp add: repr_checks)
  have lnk: "prv h x = last_opt xs" "nxt h x = None"
    using repr_links[of h l xs x "[]"] r' by auto
  show ?thesis
  proof (cases xs rule: rev_cases)
    case Nil
    then show ?thesis
      using reprD[OF r'] chk lnk
      by (auto simp: pop_back_def s repr_def free_item_def frame_def)
  next
    case (snoc ys t)
    let ?h = "h\<lparr>nxt := (nxt h)(t := None), prv := (prv h)(x := None)\<rparr>"
    have "seg ?h None ys (Some t) = seg h None ys (Some t)"
      using snoc reprD(1)[OF r'] by (intro seg_agree) auto
    then have "repr (?h, l\<lparr>tail := Some t\<rparr>) xs"
      using reprD[OF r'] snoc by (auto simp: repr_def seg_append hd_opt_append)
    then show ?thesis
      using chk reprD[OF r'] snoc lnk
      by (auto simp: pop_back_def s free_item_def frame_def last_opt_append)
  qed
qed

lemma pop_front_refines:
  assumes r: "repr s (x # xs)"
  shows "\<exists>s'. pop_front ck s = Inr s' \<and> repr s' xs \<and> free_item s' x \<and> frame (set (x # xs)) s s'"
proof -
  obtain h l where s: "s = (h, l)" by (cases s)
  note r' = r[unfolded s]
  have chk: "check_nonnull s \<and> check_single s"
    using r by (simp add: repr_checks)
  have lnk: "prv h x = None" "nxt h x = hd_opt xs"
    using repr_links[of h l "[]" x xs] r' by auto
  show ?thesis
  proof (cases xs)
    case Nil
    then show ?thesis
      using reprD[OF r'] chk lnk
      by (auto simp: pop_front_def s repr_def free_item_def frame_def last_opt_def)
  next
    case (Cons d ys)
    let ?h = "h\<lparr>prv := (prv h)(d := None), nxt := (nxt h)(x := None)\<rparr>"
    have "seg ?h (Some d) ys None = seg h (Some d) ys None"
      using Cons reprD(1)[OF r'] by (intro seg_agree) auto
    then have "repr (?h, l\<lparr>head := Some d\<rparr>) xs"
      using reprD[OF r'] Cons by (auto simp: repr_def last_opt_Cons)
    then show ?thesis
      using chk reprD[OF r'] Cons lnk
      by (auto simp: pop_front_def s free_item_def frame_def)
  qed
qed


lemma insert_at_end_refines:
  assumes r: "repr s xs" and f: "free_item s x" and x: "x \<notin> set xs"
  shows "\<exists>s'. insert_at ck None x s = Inr s' \<and> repr s' (xs @ [x]) \<and> frame (set (x # xs)) s s'"
proof -
  obtain h l where s: "s = (h, l)" by (cases s)
  note r' = r[unfolded s]
  have chk: "check_ends s \<and> check_single s \<and> check_free x s"
    using r f by (simp add: repr_checks check_free_item)
  show ?thesis
  proof (cases xs rule: rev_cases)
    case Nil
    then show ?thesis
      using reprD[OF r'] f chk
      by (auto simp: insert_at_def s Let_def repr_def free_item_def frame_def)
  next
    case (snoc ys t)
    let ?h = "h\<lparr>prv := (prv h)(x := Some t), nxt := (nxt h)(x := None, t := Some x)\<rparr>"
    have "seg ?h None ys (Some t) = seg h None ys (Some t)"
      using snoc x reprD(1)[OF r'] by (intro seg_agree) auto
    then have "repr (?h, l\<lparr>tail := Some x\<rparr>) (xs @ [x])"
      using reprD[OF r'] snoc x f
      by (auto simp: repr_def seg_append free_item_def s hd_opt_append last_opt_append)
    then show ?thesis
      using chk reprD[OF r'] snoc
      by (auto simp: insert_at_def s Let_def frame_def)
  qed
qed

lemma insert_at_refines:
  assumes r: "repr s (as @ c # bs)" and f: "free_item s x" and x: "x \<notin> set (as @ c # bs)"
  shows "\<exists>s'. insert_at ck (Some c) x s = Inr s' \<and> repr s' (as @ x # c # bs)
            \<and> frame (set (x # as @ c # bs)) s s'"
proof -
  obtain h l where s: "s = (h, l)" by (cases s)
  note r' = r[unfolded s]
  have chk: "check_ends s \<and> check_single s \<and> check_free x s \<and> check_member c s"
    using r f by (simp add: repr_checks check_free_item)
  have lnk: "prv h c = last_opt as" "nxt h c = hd_opt bs"
    using repr_links[OF r'] by auto
  show ?thesis
  proof (cases as rule: rev_cases)
    case Nil
    let ?h = "h\<lparr>nxt := (nxt h)(x := Some c), prv := (prv h)(x := None, c := Some x)\<rparr>"
    have "seg ?h (Some c) bs None = seg h (Some c) bs None"
      using Nil x reprD(1)[OF r'] by (intro seg_agree) auto
    then have "repr (?h, l\<lparr>head := Some x\<rparr>) (as @ x # c # bs)"
      using reprD[OF r'] Nil x by (auto simp: repr_def)
    then show ?thesis
      using chk lnk Nil x by (auto simp: insert_at_def s Let_def frame_def)
  next
    case (snoc ys t)
    let ?h = "h\<lparr>prv := (prv h)(x := Some t, c := Some x),
                nxt := (nxt h)(x := Some c, t := Some x)\<rparr>"
    have "seg ?h (Some c) bs None = seg h (Some c) bs None"
      using snoc x reprD(1)[OF r'] by (intro seg_agree) auto
    moreover have "seg ?h None ys (Some t) = seg h None ys (Some t)"
      using snoc x reprD(1)[OF r'] by (intro seg_agree) auto
    ultimately have "repr (?h, l) (as @ x # c # bs)"
      using reprD[OF r'] snoc x
      by (auto simp: repr_def seg_append hd_opt_append last_opt_append)
    then show ?thesis
      using chk lnk snoc x by (auto simp: insert_at_def s Let_def frame_def)
  qed
qed

lemma unlink_refines:
  assumes r: "repr s (as @ c # bs)"
  shows "\<exists>s'. unlink c s = (s', hd_opt bs) \<and> repr s' (as @ bs) \<and> free_item s' c
            \<and> frame (set (as @ c # bs)) s s'"
proof -
  obtain h l where s: "s = (h, l)" by (cases s)
  note r' = r[unfolded s]
  have lnk: "prv h c = last_opt as" "nxt h c = hd_opt bs"
    using repr_links[OF r'] by auto
  obtain h' l' res where u: "unlink c s = ((h', l'), res)" by (metis surj_pair)
  let ?n = "(case last_opt as of None \<Rightarrow> nxt h | Some p \<Rightarrow> (nxt h)(p := hd_opt bs))(c := None)"
  let ?p = "(case hd_opt bs of None \<Rightarrow> prv h | Some n \<Rightarrow> (prv h)(n := last_opt as))(c := None)"
  have all: "res = hd_opt bs \<and> nxt h' = ?n \<and> prv h' = ?p
      \<and> head l' = (if as = [] then hd_opt bs else head l)
      \<and> tail l' = (if bs = [] then last_opt as else tail l)"
    using lnk reprD(1)[OF r'] u
    by (cases as rule: rev_cases; cases bs) (auto simp: unlink_def s Let_def split: option.splits)
  note res = all[THEN conjunct1]
  have n: "nxt h' = ?n" and p: "prv h' = ?p"
    and hd: "head l' = (if as = [] then hd_opt bs else head l)"
    and tl: "tail l' = (if bs = [] then last_opt as else tail l)"
    using all by blast+
  have "repr (h', l') (as @ bs)"
  proof (rule reprI)
    show "distinct (as @ bs)" using reprD(1)[OF r'] by simp
    have sa: "seg h None as (Some c)" and sb: "seg h (Some c) bs None"
      using reprD(2)[OF r'] by (auto simp: seg_append)
    have "seg h' None as (hd_opt bs)"
    proof (cases as rule: rev_cases)
      case (snoc ys t)
      have "seg h' None ys (Some t) = seg h None ys (Some t)"
        using snoc reprD(1)[OF r'] n p by (intro seg_agree) (cases bs; auto)
      then show ?thesis
        using sa snoc n p reprD(1)[OF r'] by (cases bs) (auto simp: seg_append)
    qed simp
    moreover have "seg h' (last_opt as) bs None"
    proof (cases bs)
      case (Cons d ys)
      have "seg h' (Some d) ys None = seg h (Some d) ys None"
        using Cons reprD(1)[OF r'] n p
        by (intro seg_agree) (cases as rule: rev_cases; auto)
      then show ?thesis
        using sb Cons n p reprD(1)[OF r'] by (cases as rule: rev_cases) auto
    qed simp
    ultimately show "seg h' None (as @ bs) None" by (auto simp: seg_append)
    show "head l' = hd_opt (as @ bs)" using hd reprD(3)[OF r'] by (simp add: hd_opt_append)
    show "tail l' = last_opt (as @ bs)" using tl reprD(4)[OF r'] by (simp add: last_opt_append)
  qed
  moreover have "free_item (h', l') c"
    using n p by (simp add: free_item_def)
  moreover have "frame (set (as @ c # bs)) s (h', l')"
    using n p s by (auto simp: frame_def split: option.splits dest!: hd_opt_in_set last_opt_in_set)
  ultimately show ?thesis using u res by blast
qed

lemma erase_refines:
  assumes r: "repr s (as @ c # bs)" and fuel: "length (as @ c # bs) < fuel"
  shows "\<exists>s'. erase ck fuel (Some c) s = Inr (s', hd_opt bs) \<and> repr s' (as @ bs)
            \<and> free_item s' c \<and> frame (set (as @ c # bs)) s s'"
proof -
  obtain h l where s: "s = (h, l)" by (cases s)
  have "walk_find fuel h (head l) c = Some True"
    using walk_find_seg[OF reprD(2)[OF r[unfolded s]] fuel, of c] reprD(3)[OF r[unfolded s]] by simp
  moreover have "check_nonnull s \<and> check_single s \<and> check_member c s"
    using r by (simp add: repr_checks)
  ultimately show ?thesis
    using unlink_refines[OF r] s by (auto simp: erase_def)
qed

lemma removeFast_member:
  assumes r: "repr s xs" and x: "x \<in> set xs" and fuel: "length xs < fuel"
  shows "\<exists>s'. removeFast ck fuel x s = Inr (s', True) \<and> repr s' (remove1 x xs)
            \<and> free_item s' x \<and> frame (set xs) s s'"
proof -
  obtain h l where s: "s = (h, l)" by (cases s)
  obtain as bs where xs: "xs = as @ x # bs" "x \<notin> set as" using x by (meson split_list_first)
  have "prv h x = None \<longrightarrow> head l = Some x"
    using repr_links(1)[of h l as x bs] reprD(3)[of h l xs] r s xs by (auto simp: hd_opt_append)
  then show ?thesis
    using erase_refines[of s as x bs fuel ck] r xs fuel
    by (auto simp: removeFast_def s remove1_split)
qed

lemma removeFast_free:
  assumes "repr s xs" and "x \<notin> set xs" and "free_item s x"
  shows "removeFast ck fuel x s = Inr (s, False)"
  using assms by (cases s; cases xs) (auto simp: removeFast_def repr_def free_item_def)


section \<open>The deque interface\<close>

text \<open>What the users of \<^verbatim>\<open>IntrusiveList\<close> rely on, independent of pointers: a state
  that represents a sequence, items that are free (in no list), and the laws of the operations.
  Every operation leaves the freedom of unrelated items alone.\<close>

locale deque =
  fixes rep :: "'s \<Rightarrow> 'a list \<Rightarrow> bool"
    and free :: "'s \<Rightarrow> 'a \<Rightarrow> bool"
    and pushb :: "'a \<Rightarrow> 's \<Rightarrow> 's result"
    and popf :: "'s \<Rightarrow> 's result"
    and frontp :: "'s \<Rightarrow> 'a option"
    and rem :: "nat \<Rightarrow> 'a \<Rightarrow> 's \<Rightarrow> ('s \<times> bool) result"
  assumes rep_inj: "rep s xs \<Longrightarrow> rep s ys \<Longrightarrow> xs = ys"
    and rep_distinct: "rep s xs \<Longrightarrow> distinct xs"
    and front_rep: "rep s xs \<Longrightarrow> frontp s = hd_opt xs"
    and pushb_law: "rep s xs \<Longrightarrow> free s x \<Longrightarrow> x \<notin> set xs \<Longrightarrow>
          \<exists>s'. pushb x s = Inr s' \<and> rep s' (xs @ [x])
             \<and> (\<forall>y. y \<notin> set (x # xs) \<longrightarrow> free s' y = free s y)"
    and popf_law: "rep s (x # xs) \<Longrightarrow>
          \<exists>s'. popf s = Inr s' \<and> rep s' xs \<and> free s' x
             \<and> (\<forall>y. y \<notin> set (x # xs) \<longrightarrow> free s' y = free s y)"
    and rem_law: "rep s xs \<Longrightarrow> x \<in> set xs \<Longrightarrow> length xs < n \<Longrightarrow>
          \<exists>s'. rem n x s = Inr (s', True) \<and> rep s' (remove1 x xs) \<and> free s' x"
    and rem_free: "rep s xs \<Longrightarrow> x \<notin> set xs \<Longrightarrow> free s x \<Longrightarrow> rem n x s = Inr (s, False)"
begin

primrec push_all :: "'a list \<Rightarrow> 's \<Rightarrow> 's result" where
  "push_all [] s = Inr s"
| "push_all (x # xs) s = rbind (pushb x s) (push_all xs)"

text \<open>The loop \<^verbatim>\<open>while(!empty()) { op(front()); pop_front(); }\<close> of the queues built on
  the list, collecting the items \<^verbatim>\<open>op\<close> is called on.\<close>

primrec drain :: "nat \<Rightarrow> 's \<Rightarrow> ('a list \<times> 's) result" where
  "drain 0 s = Inr ([], s)"
| "drain (Suc n) s = (case frontp s of
      None \<Rightarrow> Inr ([], s)
    | Some x \<Rightarrow> rbind (popf s) (\<lambda>s'. rbind (drain n s') (\<lambda>(ys, t). Inr (x # ys, t))))"

lemma push_all_rep:
  assumes "rep s xs" "distinct ys" "set ys \<inter> set xs = {}" "\<forall>y \<in> set ys. free s y"
  shows "\<exists>s'. push_all ys s = Inr s' \<and> rep s' (xs @ ys)"
  using assms
proof (induction ys arbitrary: s xs)
  case (Cons y ys)
  then obtain s1 where s1: "pushb y s = Inr s1" "rep s1 (xs @ [y])"
    and fr: "\<forall>z. z \<notin> set (y # xs) \<longrightarrow> free s1 z = free s z"
    using pushb_law[of s xs y] by auto
  have "\<exists>s'. push_all ys s1 = Inr s' \<and> rep s' ((xs @ [y]) @ ys)"
    using Cons.prems s1 fr by (intro Cons.IH) auto
  with s1 show ?case by auto
qed auto

lemma drain_rep:
  assumes "rep s xs" "length xs \<le> n"
  shows "\<exists>s'. drain n s = Inr (xs, s') \<and> rep s' []"
  using assms
proof (induction n arbitrary: s xs)
  case (Suc n)
  show ?case
  proof (cases xs)
    case Nil
    with Suc.prems show ?thesis by (auto simp: front_rep)
  next
    case (Cons x ys)
    then obtain s1 where s1: "popf s = Inr s1" "rep s1 ys"
      using Suc.prems popf_law[of s x ys] by auto
    then obtain s' where "drain n s1 = Inr (ys, s')" "rep s' []"
      using Suc.IH[of s1 ys] Suc.prems Cons by auto
    with s1 Cons Suc.prems show ?thesis by (auto simp: front_rep)
  qed
qed auto

lemma fifo_order:
  assumes "rep s []" "distinct ys" "\<forall>y \<in> set ys. free s y"
  shows "\<exists>t. rbind (push_all ys s) (drain (length ys)) = Inr (ys, t) \<and> rep t []"
proof -
  obtain s1 where "push_all ys s = Inr s1" "rep s1 ys"
    using push_all_rep[of s "[]" ys] assms by auto
  with drain_rep[of s1 ys "length ys"] show ?thesis by auto
qed

end

text \<open>The pointer list implements the interface at every check level.\<close>

lemma frame_free: "frame A s s' \<Longrightarrow> y \<notin> A \<Longrightarrow> free_item s' y = free_item s y"
  by (simp add: frame_def free_item_def)

interpretation dll: deque repr free_item "push_back ck" "pop_front ck" "\<lambda>s. head (snd s)"
    "removeFast ck" for ck
proof (unfold_locales, goal_cases)
  case (1 s xs ys)
  then show ?case by (rule repr_unique)
next
  case (2 s xs)
  then show ?case by (cases s) (auto dest: reprD)
next
  case (3 s xs)
  then show ?case by (cases s) (auto dest: reprD)
next
  case (4 s xs x)
  then show ?case using push_back_refines[of s xs x ck] by (auto simp: frame_free)
next
  case (5 s x xs)
  then show ?case using pop_front_refines[of s x xs ck] by (auto simp: frame_free)
next
  case (6 s xs x n)
  then show ?case using removeFast_member[of s xs x n ck] by auto
next
  case (7 s xs x n)
  then show ?case by (rule removeFast_free)
qed


section \<open>Properties\<close>



text \<open>Everything pushed at the back of an empty list comes out at the front in the same
  order, and the list is empty again, at every level of checks.\<close>

theorem il_fifo:
  assumes "repr s []" "distinct ys" "\<forall>y \<in> set ys. free_item s y"
  shows "\<exists>t. rbind (dll.push_all ck ys s) (dll.drain ck (length ys)) = Inr (ys, t) \<and> repr t []"
  by (rule dll.fifo_order[OF assms])

theorem il_fifo_witness:
  "\<exists>t. rbind (dll.push_all Kernel [3, 1, 2] (\<lparr>nxt = \<lambda>_. None, prv = \<lambda>_. None\<rparr>, empty_list))
         (dll.drain Kernel (length [3, 1, 2 :: nat])) = Inr ([3, 1, 2], t) \<and> repr t []"
  using il_fifo[of "(\<lparr>nxt = \<lambda>_. None, prv = \<lambda>_. None\<rparr>, empty_list)" "[3, 1, 2]" Kernel]
  by (simp add: repr_empty free_item_def del: dll.push_all.simps)



end
