(* ===== verification/Sched_Queues.thy ===== *)
theory Sched_Queues
  imports Intrusive_List "HOL-Library.Multiset"
begin

text \<open>
  The queues of \<^verbatim>\<open>kernel/sched_data_structures.h\<close>: \<^verbatim>\<open>PriorityQueue\<close>,
  \<^verbatim>\<open>TimeSortedQueue\<close> and \<^verbatim>\<open>FifoQueue\<close>. Their intrusive lists are the
  sequences that \<^const>\<open>repr\<close> attaches to them (theory Intrusive_List shows that every list
  operation they call is the sequence operation used here); for the insertion loop of
  \<^verbatim>\<open>TimeSortedQueue::enqueue\<close>, which walks the list with iterators, the pointer
  program itself is given and shown to refine the insertion on sequences.

  The interface \<open>wait_queue\<close> collects what the synchronization primitives need of a queue:
  nothing is lost or duplicated, and no item is dequeued before a more urgent one.
\<close>

section \<open>PriorityQueue\<close>

type_synonym 'a PriorityQueue = "'a list list"

text \<open>The scan \<^verbatim>\<open>for(int i=numPriorities-1;i>=0;i--)\<close> for a list that is not empty,
  from the priority below \<open>n\<close> downwards.\<close>

fun scan_down :: "'a PriorityQueue \<Rightarrow> nat \<Rightarrow> nat option" where
  "scan_down q 0 = None"
| "scan_down q (Suc i) = (if q ! i = [] then scan_down q i else Some i)"

definition pq_new :: "nat \<Rightarrow> 'a PriorityQueue" where
  "pq_new numPriorities = replicate numPriorities []"

definition pq_empty :: "'a PriorityQueue \<Rightarrow> bool" where
  "pq_empty q = (scan_down q (length q) = None)"

definition pq_front :: "'a PriorityQueue \<Rightarrow> 'a option" where
  "pq_front q = (case scan_down q (length q) of None \<Rightarrow> None | Some i \<Rightarrow> hd_opt (q ! i))"

definition pq_enqueue :: "'a \<Rightarrow> int \<Rightarrow> 'a PriorityQueue \<Rightarrow> 'a PriorityQueue result" where
  "pq_enqueue x p q =
     ensure (0 \<le> p \<and> p < int (length q)) OutOfBounds (Inr (q[nat p := q ! nat p @ [x]]))"

definition pq_dequeueOne :: "'a PriorityQueue \<Rightarrow> 'a option \<times> 'a PriorityQueue" where
  "pq_dequeueOne q = (case scan_down q (length q) of
      None \<Rightarrow> (None, q)
    | Some i \<Rightarrow> (hd_opt (q ! i), q[i := tl (q ! i)]))"

text \<open>\<^verbatim>\<open>dequeueAll\<close> calls the operation on the front item and then pops it, level by
  level; the operation is a state transformer that may fail.\<close>

primrec drain_level :: "('a \<Rightarrow> 's \<Rightarrow> 's result) \<Rightarrow> 'a list \<Rightarrow> 's \<Rightarrow> 's result" where
  "drain_level oper [] s = Inr s"
| "drain_level oper (x # xs) s = rbind (oper x s) (drain_level oper xs)"

fun pq_drain_from :: "('a \<Rightarrow> 's \<Rightarrow> 's result) \<Rightarrow> 'a PriorityQueue \<Rightarrow> nat \<Rightarrow> 's \<Rightarrow> ('a PriorityQueue \<times> 's) result" where
  "pq_drain_from oper q 0 s = Inr (q, s)"
| "pq_drain_from oper q (Suc i) s =
     rbind (drain_level oper (q ! i) s) (pq_drain_from oper (q[i := []]) i)"

definition pq_dequeueAll :: "('a \<Rightarrow> 's \<Rightarrow> 's result) \<Rightarrow> 'a PriorityQueue \<Rightarrow> 's \<Rightarrow> ('a PriorityQueue \<times> 's) result" where
  "pq_dequeueAll oper q s = pq_drain_from oper q (length q) s"

text \<open>\<^verbatim>\<open>remove\<close> on the list of the given priority. An item that is in no list is
  ignored; an item that sits in the list of another priority is the documented misuse of
  \<^verbatim>\<open>removeFast\<close>.\<close>

definition pq_remove :: "'a \<Rightarrow> int \<Rightarrow> 'a PriorityQueue \<Rightarrow> 'a PriorityQueue result" where
  "pq_remove x p q =
     ensure (0 \<le> p \<and> p < int (length q)) OutOfBounds
      (if x \<in> set (q ! nat p) then Inr (q[nat p := remove1 x (q ! nat p)])
       else ensure (x \<notin> set (concat q)) ListCorruption (Inr q))"

section \<open>TimeSortedQueue\<close>

fun ts_enqueue :: "('a \<Rightarrow> int) \<Rightarrow> 'a \<Rightarrow> 'a list \<Rightarrow> 'a list" where
  "ts_enqueue getTime x [] = [x]"
| "ts_enqueue getTime x (y # ys) =
     (if getTime y < getTime x then y # ts_enqueue getTime x ys else x # y # ys)"

definition ts_dequeueOne :: "'a list \<Rightarrow> 'a option \<times> 'a list" where
  "ts_dequeueOne q = (case q of [] \<Rightarrow> (None, []) | x # xs \<Rightarrow> (Some x, xs))"

definition ts_dequeueTime :: "('a \<Rightarrow> int) \<Rightarrow> int \<Rightarrow> 'a list \<Rightarrow> 'a option \<times> 'a list" where
  "ts_dequeueTime getTime time q = (case q of
      [] \<Rightarrow> (None, [])
    | x # xs \<Rightarrow> if time < getTime x then (None, q) else (Some x, xs))"

definition ts_dequeueAll :: "('a \<Rightarrow> 's \<Rightarrow> 's result) \<Rightarrow> 'a list \<Rightarrow> 's \<Rightarrow> ('a list \<times> 's) result" where
  "ts_dequeueAll oper q s = rbind (drain_level oper q s) (\<lambda>s'. Inr ([], s'))"

definition ts_remove :: "'a \<Rightarrow> 'a list \<Rightarrow> bool \<times> 'a list" where
  "ts_remove x q = (x \<in> set q, remove1 x q)"

definition ts_contains :: "'a \<Rightarrow> 'a list \<Rightarrow> bool" where
  "ts_contains x q = list_ex (\<lambda>y. y = x) q"

text \<open>The loop \<^verbatim>\<open>while(it!=queued.end() && getTime(*it)<t) ++it;\<close> over the pointers,
  and the insertion at the iterator it stops at. \<open>None\<close> is a walk longer than the fuel.\<close>

fun ts_find :: "nat \<Rightarrow> heap \<Rightarrow> (item \<Rightarrow> int) \<Rightarrow> int \<Rightarrow> item option \<Rightarrow> item option option" where
  "ts_find 0 h getTime t it = None"
| "ts_find (Suc n) h getTime t it = (case it of
      None \<Rightarrow> Some None
    | Some y \<Rightarrow> if getTime y < t then ts_find n h getTime t (nxt h y) else Some (Some y))"

definition ts_enqueue_ptr :: "ExtraChecks \<Rightarrow> nat \<Rightarrow> (item \<Rightarrow> int) \<Rightarrow> item \<Rightarrow> lstate \<Rightarrow> lstate result" where
  "ts_enqueue_ptr ck fuel getTime x s = (let (h, l) = s in
     case ts_find fuel h getTime (getTime x) (it_begin l) of
       None \<Rightarrow> Inl UNEXPECTED
     | Some it \<Rightarrow> insert_at ck it x s)"

section \<open>FifoQueue\<close>

definition fq_enqueue :: "'a \<Rightarrow> 'a list \<Rightarrow> 'a list" where
  "fq_enqueue x q = q @ [x]"

definition fq_dequeueOne :: "'a list \<Rightarrow> 'a option \<times> 'a list" where
  "fq_dequeueOne q = (case q of [] \<Rightarrow> (None, []) | x # xs \<Rightarrow> (Some x, xs))"

definition fq_dequeueAll :: "('a \<Rightarrow> 's \<Rightarrow> 's result) \<Rightarrow> 'a list \<Rightarrow> 's \<Rightarrow> ('a list \<times> 's) result" where
  "fq_dequeueAll oper q s = rbind (drain_level oper q s) (\<lambda>s'. Inr ([], s'))"

definition fq_remove :: "'a \<Rightarrow> 'a list \<Rightarrow> 'a list" where
  "fq_remove x q = remove1 x q"

definition fq_contains :: "'a \<Rightarrow> 'a list \<Rightarrow> bool" where
  "fq_contains x q = list_ex (\<lambda>y. y = x) q"


section \<open>The wait queue interface\<close>

locale wait_queue =
  fixes inv :: "'q \<Rightarrow> bool"
    and items :: "'q \<Rightarrow> 'a list"
    and valid :: "'a \<Rightarrow> bool"
    and less :: "'a \<Rightarrow> 'a \<Rightarrow> bool"
    and qempty :: "'q \<Rightarrow> bool"
    and qfront :: "'q \<Rightarrow> 'a option"
    and enq :: "'a \<Rightarrow> 'q \<Rightarrow> 'q result"
    and deq :: "'q \<Rightarrow> 'a option \<times> 'q"
    and rem :: "'a \<Rightarrow> 'q \<Rightarrow> 'q result"
  assumes empty_law: "inv q \<Longrightarrow> qempty q \<longleftrightarrow> items q = []"
    and front_law: "inv q \<Longrightarrow> qfront q = hd_opt (items q)"
    and enq_law: "inv q \<Longrightarrow> valid x \<Longrightarrow> x \<notin> set (items q) \<Longrightarrow>
          \<exists>q'. enq x q = Inr q' \<and> inv q' \<and> mset (items q') = add_mset x (mset (items q))"
    and deq_law: "inv q \<Longrightarrow>
          fst (deq q) = hd_opt (items q) \<and> items (snd (deq q)) = tl (items q) \<and> inv (snd (deq q))"
    and rem_law: "inv q \<Longrightarrow> valid x \<Longrightarrow>
          \<exists>q'. rem x q = Inr q' \<and> inv q' \<and> items q' = remove1 x (items q)"
    and inv_order: "inv q \<Longrightarrow> sorted_wrt (\<lambda>x y. \<not> less x y) (items q) \<and> distinct (items q)"
begin

text \<open>Dequeuing until the queue is empty, at most \<open>n\<close> times.\<close>

primrec deq_all :: "nat \<Rightarrow> 'q \<Rightarrow> 'a list" where
  "deq_all 0 q = []"
| "deq_all (Suc n) q = (case deq q of (None, q') \<Rightarrow> [] | (Some x, q') \<Rightarrow> x # deq_all n q')"

lemma front_most_urgent:
  assumes "inv q" "qfront q = Some x" "y \<in> set (items q)" "y \<noteq> x"
  shows "\<not> less x y"
proof -
  obtain zs where "items q = x # zs"
    using assms by (auto simp: front_law hd_opt_Some_iff)
  with assms inv_order[of q] show ?thesis by auto
qed

lemma deq_all_items: "inv q \<Longrightarrow> length (items q) \<le> n \<Longrightarrow> deq_all n q = items q"
proof (induction n arbitrary: q)
  case (Suc n)
  obtain o1 q' where d: "deq q = (o1, q')" by (cases "deq q")
  with deq_law[OF Suc.prems(1)] have o1: "o1 = hd_opt (items q)" "items q' = tl (items q)" "inv q'"
    by auto
  show ?case
    using Suc.IH[OF o1(3)] o1 d Suc.prems(2) by (cases "items q") auto
qed simp

text \<open>Waking everybody by repeated dequeues wakes each waiting item once, most urgent first.\<close>

lemma deq_all_order:
  assumes "inv q" "length (items q) \<le> n"
  shows "mset (deq_all n q) = mset (items q)"
    and "sorted_wrt (\<lambda>x y. \<not> less x y) (deq_all n q)"
  using assms by (simp_all add: deq_all_items inv_order)

lemma enq_deq_nonempty:
  assumes "inv q" "valid x" "x \<notin> set (items q)" "enq x q = Inr q'"
  shows "\<exists>y. fst (deq q') = Some y \<and> (y = x \<or> y \<in> set (items q))
           \<and> (\<forall>z \<in> set (items q) \<union> {x}. z \<noteq> y \<longrightarrow> \<not> less y z)"
proof -
  have q': "inv q'" and m: "mset (items q') = add_mset x (mset (items q))"
    using enq_law[OF assms(1-3)] assms(4) by auto
  then obtain y ys where ys: "items q' = y # ys" by (cases "items q'") auto
  have set: "set (items q') = set (items q) \<union> {x}"
    using m by (metis set_mset_add_mset_insert set_mset_mset Un_insert_right sup_bot.right_neutral)
  have "\<forall>z \<in> set (items q'). z \<noteq> y \<longrightarrow> \<not> less y z"
    using front_most_urgent[OF q'] front_law[OF q'] ys by auto
  then show ?thesis using deq_law[OF q'] ys set by auto
qed

end

section \<open>PriorityQueue implements the interface\<close>

definition pq_items :: "'a PriorityQueue \<Rightarrow> 'a list" where
  "pq_items q = concat (rev q)"

definition pq_inv :: "nat \<Rightarrow> ('a \<Rightarrow> int) \<Rightarrow> 'a PriorityQueue \<Rightarrow> bool" where
  "pq_inv n key q = (length q = n \<and> distinct (concat q)
     \<and> (\<forall>i < n. \<forall>x \<in> set (q ! i). key x = int i))"

lemma scan_down_None: "scan_down q n = None \<longleftrightarrow> (\<forall>i < n. q ! i = [])"
  by (induction n) (auto simp: less_Suc_eq)

lemma scan_down_Some:
  "scan_down q n = Some i \<longleftrightarrow> i < n \<and> q ! i \<noteq> [] \<and> (\<forall>j. i < j \<and> j < n \<longrightarrow> q ! j = [])"
proof (induction n)
  case (Suc n)
  show ?case
  proof (cases "q ! n = []")
    case True
    then show ?thesis using Suc by (auto simp: less_Suc_eq)
  next
    case False
    then show ?thesis by (auto simp: less_Suc_eq)
  qed
qed simp

lemma pq_items_split:
  assumes "i < length q"
  shows "pq_items q = concat (rev (drop (Suc i) q)) @ q ! i @ concat (rev (take i q))"
    and "pq_items (q[i := v]) = concat (rev (drop (Suc i) q)) @ v @ concat (rev (take i q))"
  using assms
  by (simp_all add: pq_items_def upd_conv_take_nth_drop)
     (metis append.assoc append_Cons append_Nil concat.simps(2) concat_append id_take_nth_drop
        rev.simps(2) rev_append concat_append self_append_conv concat.simps(1))

lemma pq_items_scan:
  assumes "scan_down q (length q) = Some i"
  shows "pq_items q = q ! i @ concat (rev (take i q))"
    and "pq_items (q[i := v]) = v @ concat (rev (take i q))"
proof -
  have i: "i < length q" and e: "\<forall>j. i < j \<and> j < length q \<longrightarrow> q ! j = []"
    using assms by (auto simp: scan_down_Some)
  have "\<forall>ys \<in> set (drop (Suc i) q). ys = []"
    using e by (auto simp: in_set_conv_nth)
  then have "concat (rev (drop (Suc i) q)) = []" by simp
  with pq_items_split[OF i] show "pq_items q = q ! i @ concat (rev (take i q))"
    and "pq_items (q[i := v]) = v @ concat (rev (take i q))" by auto
qed

lemma set_pq_items [simp]: "set (pq_items q) = set (concat q)"
  by (simp add: pq_items_def)

lemma mset_pq_items: "mset (pq_items q) = mset (concat q)"
  by (induction q) (simp_all add: pq_items_def)

lemma pq_empty_items: "pq_empty q \<longleftrightarrow> pq_items q = []"
  by (force simp: pq_empty_def scan_down_None pq_items_def in_set_conv_nth)

lemma pq_front_items: "pq_front q = hd_opt (pq_items q)"
proof (cases "scan_down q (length q)")
  case None
  then have "pq_items q = []" using pq_empty_items pq_empty_def by blast
  with None show ?thesis by (simp add: pq_front_def)
next
  case (Some i)
  then have "q ! i \<noteq> []" by (simp add: scan_down_Some)
  then show ?thesis
    by (simp add: pq_front_def Some pq_items_scan(1)[OF Some] hd_opt_append)
qed

lemma pq_dequeueOne_items:
  "fst (pq_dequeueOne q) = hd_opt (pq_items q)" "pq_items (snd (pq_dequeueOne q)) = tl (pq_items q)"
proof -
  have "fst (pq_dequeueOne q) = hd_opt (pq_items q) \<and> pq_items (snd (pq_dequeueOne q)) = tl (pq_items q)"
  proof (cases "scan_down q (length q)")
    case None
    then have "pq_items q = []" using pq_empty_items pq_empty_def by blast
    with None show ?thesis by (simp add: pq_dequeueOne_def)
  next
    case (Some i)
    then have "q ! i \<noteq> []" by (simp add: scan_down_Some)
    then show ?thesis
      by (simp add: pq_dequeueOne_def Some pq_items_scan[OF Some] hd_opt_append)
  qed
  then show "fst (pq_dequeueOne q) = hd_opt (pq_items q)"
    "pq_items (snd (pq_dequeueOne q)) = tl (pq_items q)" by auto
qed


lemma pq_inv_update:
  assumes inv: "pq_inv n key q" and i: "i < n"
    and k: "\<forall>x \<in> set v. key x = int i" and d: "distinct v"
    and new: "\<forall>x \<in> set v. x \<in> set (q ! i) \<or> x \<notin> set (concat q)"
  shows "pq_inv n key (q[i := v])"
proof -
  have len: "length q = n" and dist: "distinct (concat q)"
    and keys: "\<forall>i < n. \<forall>x \<in> set (q ! i). key x = int i"
    using inv by (auto simp: pq_inv_def)
  have sp: "q = take i q @ q ! i # drop (Suc i) q" using i len by (simp add: id_take_nth_drop)
  have dsp: "distinct (concat (take i q @ q ! i # drop (Suc i) q))" using dist sp by simp
  have out: "x \<notin> set (concat (take i q)) \<and> x \<notin> set (concat (drop (Suc i) q))" if "x \<in> set v" for x
  proof (cases "x \<in> set (q ! i)")
    case True
    then show ?thesis using dsp by auto
  next
    case False
    then have "x \<notin> set (concat q)" using new that by blast
    then show ?thesis by (auto dest: in_set_takeD in_set_dropD)
  qed
  have "distinct (concat (q[i := v]))"
    using dsp d out i len by (auto simp: upd_conv_take_nth_drop)
  moreover have "\<forall>j < n. \<forall>x \<in> set (q[i := v] ! j). key x = int j"
    using keys k i len by (auto simp: nth_list_update)
  ultimately show ?thesis using len by (simp add: pq_inv_def)
qed

lemma pq_inv_nth_distinct: "pq_inv n key q \<Longrightarrow> i < n \<Longrightarrow> distinct (q ! i)"
  by (auto simp: pq_inv_def distinct_concat_iff)

lemma pq_inv_member:
  assumes "pq_inv n key q" "x \<in> set (concat q)"
  shows "0 \<le> key x \<and> key x < int n \<and> x \<in> set (q ! nat (key x))"
proof -
  obtain i where "i < n" "x \<in> set (q ! i)"
    using assms unfolding in_concat_nth by (auto simp: pq_inv_def)
  moreover from this have "key x = int i" using assms(1) by (simp add: pq_inv_def)
  ultimately show ?thesis by simp
qed

lemma pq_inv_key: "pq_inv n key q \<Longrightarrow> i < n \<Longrightarrow> x \<in> set (q ! i) \<Longrightarrow> key x = int i"
  by (simp add: pq_inv_def)

lemma pq_inv_length: "pq_inv n key q \<Longrightarrow> length q = n"
  by (simp add: pq_inv_def)

lemma pq_inv_sorted:
  assumes "pq_inv n key q"
  shows "sorted_wrt (\<lambda>x y. key x \<ge> key y) (pq_items q)"
proof -
  have "sorted_wrt (\<lambda>x y. key x \<ge> key y) (concat (rev (take m q)))" if "m \<le> n" for m
    using that
  proof (induction m)
    case (Suc m)
    then have m: "m < length q" using assms by (simp add: pq_inv_def)
    have t: "rev (take (Suc m) q) = q ! m # rev (take m q)"
      using m by (simp add: take_Suc_conv_app_nth)
    have km: "\<forall>x \<in> set (q ! m). key x = int m"
      using assms Suc.prems by (auto simp: pq_inv_def)
    have lo: "key y < int m" if "y \<in> set (concat (rev (take m q)))" for y
      using that m unfolding set_concat_rev in_concat_take
      by (auto dest!: pq_inv_key[OF assms, rotated] simp: pq_inv_length[OF assms])
    have "sorted_wrt (\<lambda>x y. key x \<ge> key y) (q ! m)"
      using km by (auto simp: sorted_wrt_iff_nth_less)
    then show ?case
      unfolding t using Suc km lo by (fastforce simp: sorted_wrt_append)
  qed simp
  from this[of n] show ?thesis using assms by (simp add: pq_items_def pq_inv_def)
qed

text \<open>The exact effect of \<^verbatim>\<open>enqueue\<close> on the wake order: behind every item of the same or a
  higher priority, in front of every item of a lower one.\<close>

lemma pq_enqueue_items:
  assumes inv: "pq_inv n key q" and k: "0 \<le> p" "p < int n"
  shows "\<exists>q'. pq_enqueue x p q = Inr q' \<and> length q' = n \<and>
           pq_items q' = filter (\<lambda>y. p \<le> key y) (pq_items q) @ x # filter (\<lambda>y. key y < p) (pq_items q)"
proof -
  let ?i = "nat p"
  have len: "length q = n" and i: "?i < length q" using inv k by (auto simp: pq_inv_def)
  let ?A = "concat (rev (drop (Suc ?i) q))" and ?B = "concat (rev (take ?i q))"
  have A: "p < key y" if "y \<in> set ?A" for y
    using that k len unfolding set_concat_rev in_concat_drop
    by (auto dest!: pq_inv_key[OF inv, rotated])
  have M: "p = key y" if "y \<in> set (q ! ?i)" for y
    using pq_inv_key[OF inv _ that] k len i by auto
  have B: "key y < p" if "y \<in> set ?B" for y
    using that k len unfolding set_concat_rev in_concat_take
    by (auto dest!: pq_inv_key[OF inv, rotated])
  have AM: "p \<le> key y" if "y \<in> set (?A @ q ! ?i)" for y
    using that A[of y] M[of y] unfolding set_append by fastforce
  have "filter (\<lambda>y. p \<le> key y) ((?A @ q ! ?i) @ ?B) = ?A @ q ! ?i"
    using AM B by (intro filter_prefix) (auto simp del: set_concat simp: not_le)
  moreover have "filter (\<lambda>y. key y < p) ((?A @ q ! ?i) @ ?B) = ?B"
    using AM B by (intro filter_suffix) (auto simp del: set_concat simp: not_less)
  moreover have "pq_items q = (?A @ q ! ?i) @ ?B"
    using pq_items_split(1)[OF i] by simp
  ultimately show ?thesis
    using k len pq_items_split(2)[OF i, of "q ! ?i @ [x]"]
    by (auto simp: pq_enqueue_def)
qed

lemma pq_enqueue_inv:
  assumes inv: "pq_inv n key q" and k: "0 \<le> key x" "key x < int n" and x: "x \<notin> set (concat q)"
  shows "\<exists>q'. pq_enqueue x (key x) q = Inr q' \<and> pq_inv n key q'
            \<and> q' = q[nat (key x) := q ! nat (key x) @ [x]]"
proof -
  obtain i where i: "key x = int i" using k(1) by (metis nonneg_int_cases)
  have len: "length q = n" and il: "i < length q" using inv k i by (auto simp: pq_inv_def)
  have "pq_inv n key (q[i := q ! i @ [x]])"
  proof (rule pq_inv_update[OF inv])
    show "i < n" using il len by simp
    show "\<forall>y \<in> set (q ! i @ [x]). key y = int i"
      using pq_inv_key[OF inv, of i] il len i by auto
    show "distinct (q ! i @ [x])"
      using pq_inv_nth_distinct[OF inv, of i] il len x unfolding in_concat_nth by auto
    show "\<forall>y \<in> set (q ! i @ [x]). y \<in> set (q ! i) \<or> y \<notin> set (concat q)"
      using x by auto
  qed
  then show ?thesis using i il by (simp add: pq_enqueue_def)
qed

lemma pq_remove_inv:
  assumes inv: "pq_inv n key q" and k: "0 \<le> key x" "key x < int n"
  shows "\<exists>q'. pq_remove x (key x) q = Inr q' \<and> pq_inv n key q' \<and> pq_items q' = remove1 x (pq_items q)"
proof -
  let ?i = "nat (key x)"
  have len: "length q = n" and i: "?i < length q" using inv k by (auto simp: pq_inv_def)
  show ?thesis
  proof (cases "x \<in> set (q ! ?i)")
    case True
    have sub: "set (remove1 x (q ! ?i)) \<subseteq> set (q ! ?i)" by (rule set_remove1_subset)
    have "pq_inv n key (q[?i := remove1 x (q ! ?i)])"
    proof (rule pq_inv_update[OF inv])
      show "\<forall>y \<in> set (remove1 x (q ! ?i)). key y = int ?i"
        using sub pq_inv_key[OF inv, of ?i] i len by blast
      show "distinct (remove1 x (q ! ?i))"
        using pq_inv_nth_distinct[OF inv, of ?i] i len by (simp add: distinct_remove1)
      show "?i < n" using i len by simp
      show "\<forall>y \<in> set (remove1 x (q ! ?i)). y \<in> set (q ! ?i) \<or> y \<notin> set (concat q)"
        using sub by blast
    qed
    moreover have "x \<notin> set (concat (rev (drop (Suc ?i) q)))"
    proof
      assume "x \<in> set (concat (rev (drop (Suc ?i) q)))"
      then obtain j where "j < length q" "Suc ?i \<le> j" "x \<in> set (q ! j)"
        unfolding set_concat_rev in_concat_drop by blast
      with pq_inv_key[OF inv, of j x] len show False by simp
    qed
    then have "pq_items (q[?i := remove1 x (q ! ?i)]) = remove1 x (pq_items q)"
      unfolding pq_items_split[OF i] using True
      by (simp only: remove1_append if_False if_True simp_thms)
    ultimately show ?thesis using True k len by (auto simp: pq_remove_def)
  next
    case False
    then have "x \<notin> set (concat q)" using pq_inv_member[OF inv, of x] by blast
    moreover from this have "remove1 x (pq_items q) = pq_items q"
      by (intro remove1_idem) (simp only: set_pq_items simp_thms)
    ultimately show ?thesis using False k len inv
      by (auto simp: pq_remove_def simp del: set_concat)
  qed
qed

lemma pq_inv_dequeueOne:
  assumes "pq_inv n key q"
  shows "pq_inv n key (snd (pq_dequeueOne q))"
proof (cases "scan_down q (length q)")
  case None
  with assms show ?thesis by (simp add: pq_dequeueOne_def)
next
  case (Some i)
  then have i: "i < n" using assms by (auto simp: scan_down_Some pq_inv_def)
  have "set (tl (q ! i)) \<subseteq> set (q ! i)" by (cases "q ! i") auto
  then have "pq_inv n key (q[i := tl (q ! i)])"
    using i pq_inv_key[OF assms, of i] pq_inv_nth_distinct[OF assms, of i]
    by (intro pq_inv_update[OF assms]) (auto simp: distinct_tl)
  with Some show ?thesis by (simp add: pq_dequeueOne_def)
qed

lemma pq_inv_new: "pq_inv n key (pq_new n)"
  by (simp add: pq_inv_def pq_new_def)

lemma pq_inv_distinct: "pq_inv n key q \<Longrightarrow> distinct (pq_items q)"
proof -
  have "mset (pq_items q) = mset (concat q)"
    by (simp add: pq_items_def mset_concat rev_map sum_list_rev flip: rev_map)
  then show "pq_inv n key q \<Longrightarrow> distinct (pq_items q)"
    by (auto simp: pq_inv_def dest: mset_eq_imp_distinct_iff)
qed

text \<open>The queue invariant only depends on the keys of the items that are queued.\<close>

lemma pq_inv_cong:
  assumes "\<And>x. x \<in> set (concat q) \<Longrightarrow> key' x = key x"
  shows "pq_inv n key' q = pq_inv n key q"
  using assms unfolding pq_inv_def in_concat_nth by metis

lemma mset_filter_compl:
  "mset (filter (\<lambda>y. c \<le> key y) xs) + mset (filter (\<lambda>y. key y < (c :: int)) xs) = mset xs"
  by (induction xs) (auto simp: not_le)

interpretation pq: wait_queue "pq_inv n key" pq_items "\<lambda>x. 0 \<le> key x \<and> key x < int n"
    "\<lambda>x y. key x < key y" pq_empty pq_front "\<lambda>x. pq_enqueue x (key x)" pq_dequeueOne
    "\<lambda>x. pq_remove x (key x)" for n :: nat and key :: "'a \<Rightarrow> int"
proof (unfold_locales, goal_cases)
  case (1 q)
  show ?case by (rule pq_empty_items)
next
  case (2 q)
  show ?case by (rule pq_front_items)
next
  case (3 q x)
  then have k: "0 \<le> key x" "key x < int n" and x: "x \<notin> set (concat q)"
    by (simp_all only: set_pq_items not_False_eq_True)
  obtain q' where q': "pq_enqueue x (key x) q = Inr q'" "pq_inv n key q'"
    using pq_enqueue_inv[OF 3(1) k x] by blast
  have "pq_items q' = filter (\<lambda>y. key x \<le> key y) (pq_items q) @ x # filter (\<lambda>y. key y < key x) (pq_items q)"
    using pq_enqueue_items[OF 3(1) k, of x] unfolding q'(1) by blast
  then have "mset (pq_items q') = add_mset x (mset (pq_items q))"
    using mset_filter_compl[of "key x" key "pq_items q"] by simp
  with q' show ?case by blast
next
  case (4 q)
  then show ?case by (simp add: pq_dequeueOne_items pq_inv_dequeueOne)
next
  case (5 q x)
  from pq_remove_inv[OF 5(1), of x] 5(2) show ?case by simp
next
  case (6 q)
  then show ?case using pq_inv_sorted[of n key q] pq_inv_distinct[of n key q]
    by (simp add: not_less)
qed

text \<open>\<^verbatim>\<open>dequeueAll\<close> applies the operation to the items in wake order and leaves the queue
  empty.\<close>

lemma drain_level_append:
  "drain_level oper (xs @ ys) s = rbind (drain_level oper xs s) (drain_level oper ys)"
proof (induction xs arbitrary: s)
  case (Cons x xs)
  then show ?case by (cases "oper x s") auto
qed simp

lemma pq_drain_from_eq:
  assumes "n \<le> length q"
  shows "pq_drain_from oper q n s =
     rbind (drain_level oper (concat (rev (take n q))) s)
       (\<lambda>s'. Inr (replicate n [] @ drop n q, s'))"
  using assms
proof (induction n arbitrary: q s)
  case (Suc n)
  then have n: "n < length q" by simp
  have "concat (rev (take (Suc n) q)) = q ! n @ concat (rev (take n q))"
    using n by (simp add: take_Suc_conv_app_nth)
  moreover have "replicate n [] @ drop n (q[n := []]) = replicate (Suc n) [] @ drop (Suc n) q"
    using n by (simp add: drop_update_swap upd_conv_take_nth_drop replicate_append_same)
  moreover have "pq_drain_from oper (q[n := []]) n =
      (\<lambda>s. rbind (drain_level oper (concat (rev (take n q))) s)
        (\<lambda>s'. Inr (replicate n [] @ drop n (q[n := []]), s')))"
    using Suc.IH[of "q[n := []]"] n by (simp add: fun_eq_iff)
  ultimately show ?case by (simp add: drain_level_append rbind_assoc)
qed simp

lemma pq_dequeueAll_eq:
  "pq_dequeueAll oper q s =
     rbind (drain_level oper (pq_items q) s) (\<lambda>s'. Inr (pq_new (length q), s'))"
  by (simp add: pq_dequeueAll_def pq_drain_from_eq pq_items_def pq_new_def)

section \<open>TimeSortedQueue implements the interface\<close>

definition ts_inv :: "('a \<Rightarrow> int) \<Rightarrow> 'a list \<Rightarrow> bool" where
  "ts_inv getTime q = (sorted (map getTime q) \<and> distinct q)"

lemma mset_ts_enqueue: "mset (ts_enqueue tm x q) = add_mset x (mset q)"
  by (induction q) auto

lemma set_ts_enqueue: "set (ts_enqueue tm x q) = insert x (set q)"
  by (induction q) auto

lemma ts_enqueue_inv: "ts_inv tm q \<Longrightarrow> x \<notin> set q \<Longrightarrow> ts_inv tm (ts_enqueue tm x q)"
  by (induction q) (auto simp: ts_inv_def set_ts_enqueue)

text \<open>The exact place of the new item: behind the items with an earlier time and in front of
  those with the same time.\<close>

lemma ts_enqueue_eq:
  "ts_inv tm q \<Longrightarrow> ts_enqueue tm x q = filter (\<lambda>y. tm y < tm x) q @ x # filter (\<lambda>y. tm x \<le> tm y) q"
proof (induction q)
  case (Cons y ys)
  have le: "\<forall>z \<in> set ys. tm y \<le> tm z" and ys: "ts_inv tm ys"
    using Cons.prems by (auto simp: ts_inv_def)
  show ?case
  proof (cases "tm y < tm x")
    case False
    with le have "filter (\<lambda>y. tm y < tm x) ys = []" "filter (\<lambda>y. tm x \<le> tm y) ys = ys"
      by (auto simp: filter_empty_conv filter_id_conv)
    with False show ?thesis by simp
  qed (use Cons ys in simp)
qed simp

lemma ts_inv_remove1: "ts_inv tm q \<Longrightarrow> ts_inv tm (remove1 x q)"
  by (induction q) (auto simp: ts_inv_def dest: set_remove1_subset[THEN subsetD])

lemma ts_inv_tl: "ts_inv tm q \<Longrightarrow> ts_inv tm (tl q)"
  by (cases q) (auto simp: ts_inv_def)

lemma ts_inv_cong:
  assumes "\<And>x. x \<in> set q \<Longrightarrow> tm' x = tm x"
  shows "ts_inv tm' q = ts_inv tm q"
  using assms by (simp add: ts_inv_def cong: map_cong)

interpretation ts: wait_queue "ts_inv tm" "\<lambda>q. q" "\<lambda>_. True" "\<lambda>x y. tm x > tm y" "\<lambda>q. q = []"
    hd_opt "\<lambda>x q. Inr (ts_enqueue tm x q)" ts_dequeueOne "\<lambda>x q. Inr (snd (ts_remove x q))"
    for tm :: "'a \<Rightarrow> int"
proof (unfold_locales, goal_cases)
  case (3 q x)
  then show ?case by (simp add: mset_ts_enqueue ts_enqueue_inv)
next
  case (4 q)
  then show ?case using ts_inv_tl[of tm q] by (cases q) (auto simp: ts_dequeueOne_def)
next
  case (5 q x)
  then show ?case by (simp add: ts_remove_def ts_inv_remove1)
next
  case (6 q)
  then show ?case by (simp add: ts_inv_def sorted_wrt_map not_less)
qed simp_all

interpretation fq: wait_queue distinct "\<lambda>q. q" "\<lambda>_. True" "\<lambda>x y. False" "\<lambda>q. q = []"
    hd_opt "\<lambda>x q. Inr (fq_enqueue x q)" fq_dequeueOne "\<lambda>x q. Inr (fq_remove x q)"
proof (unfold_locales, goal_cases)
  case (4 q)
  then show ?case by (cases q) (auto simp: fq_dequeueOne_def)
next
  case (6 q)
  then show ?case by (induction q) auto
qed (simp_all add: fq_enqueue_def fq_remove_def)

text \<open>The pointer program of \<^verbatim>\<open>enqueue\<close> finds the place \<^const>\<open>ts_enqueue\<close> inserts at.\<close>

lemma ts_find_seg:
  assumes "seg h p xs None" "length xs < fuel"
  shows "ts_find fuel h tm t (hd_opt xs) = Some (hd_opt (dropWhile (\<lambda>y. tm y < t) xs))"
  using assms
proof (induction xs arbitrary: p fuel)
  case Nil
  then show ?case by (cases fuel) auto
next
  case (Cons x xs)
  then obtain n where n: "fuel = Suc n" by (cases fuel) auto
  have "nxt h x = hd_opt xs" using Cons.prems by (cases xs) auto
  with Cons n show ?case by auto
qed

lemma ts_enqueue_dropWhile:
  "ts_enqueue tm x xs = takeWhile (\<lambda>y. tm y < tm x) xs @ x # dropWhile (\<lambda>y. tm y < tm x) xs"
  by (induction xs) auto

lemma ts_enqueue_ptr_refines:
  assumes r: "repr s xs" and f: "free_item s x" and x: "x \<notin> set xs" and fuel: "length xs < fuel"
  shows "\<exists>s'. ts_enqueue_ptr ck fuel tm x s = Inr s' \<and> repr s' (ts_enqueue tm x xs)
            \<and> frame (set (x # xs)) s s'"
proof -
  obtain h l where s: "s = (h, l)" by (cases s)
  let ?P = "\<lambda>y. tm y < tm x"
  have find: "ts_find fuel h tm (tm x) (it_begin l) = Some (hd_opt (dropWhile ?P xs))"
    using reprD[OF r[unfolded s]] fuel by (simp add: it_begin_def ts_find_seg)
  show ?thesis
  proof (cases "dropWhile ?P xs")
    case Nil
    then have "ts_enqueue tm x xs = xs @ [x]"
      using takeWhile_dropWhile_id[of ?P xs] by (simp add: ts_enqueue_dropWhile)
    moreover have "ts_enqueue_ptr ck fuel tm x s = insert_at ck None x s"
      using find by (simp only: Nil ts_enqueue_ptr_def s) simp
    ultimately show ?thesis using insert_at_end_refines[OF r f x, of ck] by simp
  next
    case (Cons c bs)
    then have xs: "takeWhile ?P xs @ c # bs = xs" by (metis takeWhile_dropWhile_id)
    with Cons have "ts_enqueue tm x xs = takeWhile ?P xs @ x # c # bs"
      by (simp add: ts_enqueue_dropWhile)
    moreover have "ts_enqueue_ptr ck fuel tm x s = insert_at ck (Some c) x s"
      using find by (simp only: Cons ts_enqueue_ptr_def s) simp
    ultimately show ?thesis
      using insert_at_refines[of s "takeWhile ?P xs" c bs x ck] r f x xs by simp
  qed
qed


section \<open>Properties\<close>


lemma pq_inv_example: "pq_inv 4 (\<lambda>x. x div 10) [[], [10], [20, 21], [] :: int list]"
  by (simp add: pq_inv_def numeral_eq_Suc All_less_Suc)


text \<open>C24. \<^verbatim>\<open>TimeSortedQueue\<close>, the list of sleeping threads and the EDF ready list: the
  pointer-level enqueue always finds its place within the list, leaves the links representing the
  sequence with the new item after all earlier times and before all others, and keeps it sorted; a
  dequeue at a given time returns the earliest item, and only if its time has come.\<close>

theorem time_queue_order:
  assumes "repr s xs" "ts_inv tm xs" "free_item s x" "x \<notin> set xs" "length xs < fuel"
  shows "(\<exists>s'. ts_enqueue_ptr ck fuel tm x s = Inr s'
            \<and> repr s' (filter (\<lambda>y. tm y < tm x) xs @ x # filter (\<lambda>y. tm x \<le> tm y) xs)
            \<and> ts_inv tm (filter (\<lambda>y. tm y < tm x) xs @ x # filter (\<lambda>y. tm x \<le> tm y) xs)
            \<and> frame (set (x # xs)) s s')
       \<and> (case ts_dequeueTime tm now xs of
            (None, xs') \<Rightarrow> xs' = xs \<and> (\<forall>y \<in> set xs. now < tm y)
          | (Some y, xs') \<Rightarrow> xs = y # xs' \<and> tm y \<le> now \<and> (\<forall>z \<in> set xs'. tm y \<le> tm z) \<and> ts_inv tm xs')"
proof -
  have "ts_inv tm (ts_enqueue tm x xs)" by (rule ts_enqueue_inv[OF assms(2,4)])
  moreover have "case ts_dequeueTime tm now xs of
            (None, xs') \<Rightarrow> xs' = xs \<and> (\<forall>y \<in> set xs. now < tm y)
          | (Some y, xs') \<Rightarrow> xs = y # xs' \<and> tm y \<le> now \<and> (\<forall>z \<in> set xs'. tm y \<le> tm z) \<and> ts_inv tm xs'"
  proof (cases xs)
    case (Cons y ys)
    then have "\<forall>z \<in> set ys. tm y \<le> tm z" "ts_inv tm ys" using assms(2) by (simp_all add: ts_inv_def)
    with Cons show ?thesis by (cases "tm y \<le> now") (auto simp: ts_dequeueTime_def)
  qed (simp add: ts_dequeueTime_def)
  moreover obtain s' where "ts_enqueue_ptr ck fuel tm x s = Inr s'" "repr s' (ts_enqueue tm x xs)"
      "frame (set (x # xs)) s s'"
    using ts_enqueue_ptr_refines[OF assms(1,3,4,5)] by blast
  ultimately show ?thesis
    unfolding ts_enqueue_eq[OF assms(2)] by (intro conjI exI[of _ s'])
qed

theorem time_queue_order_witness:
  "\<exists>s'. ts_enqueue_ptr Kernel 2 int 4
      (\<lparr>nxt = \<lambda>_. None, prv = \<lambda>_. None\<rparr>, \<lparr>head = Some 7, tail = Some 7\<rparr>) = Inr s' \<and> repr s' [4, 7]"
proof -
  let ?s = "(\<lparr>nxt = \<lambda>_. None, prv = \<lambda>_. None\<rparr>, \<lparr>head = Some 7, tail = Some 7\<rparr>)"
  have "repr ?s [7]" "ts_inv int [7]" "free_item ?s 4" "4 \<notin> set [7::nat]" "length [7::nat] < 2"
    by (simp_all add: repr_def free_item_def ts_inv_def)
  from time_queue_order[OF this, of Kernel 0, THEN conjunct1] show ?thesis by (elim exE conjE) simp
qed

end
