(* ===== verification/Ring_Queues.thy ===== *)
theory Ring_Queues
  imports Miosix_Prelude
begin

text \<open>
  The ring buffers of \<^verbatim>\<open>kernel/queue.h\<close>: the blocking \<^verbatim>\<open>QueueBase\<close>
  (instantiated by \<^verbatim>\<open>Queue\<close> and \<^verbatim>\<open>DynQueue\<close>), the unsynchronized
  \<^verbatim>\<open>DynUnsyncQueue\<close>, and the N-buffering \<^verbatim>\<open>BufferQueue\<close>. Each is shown
  to implement the interface \<open>bounded_fifo\<close>, whose client lemma is the FIFO law over any
  sequence of operations; the blocking operations of \<^verbatim>\<open>QueueBase\<close> are a step
  relation between two threads, with the absence of lost wakeups as its invariant.

  Positions and counts are \<open>nat\<close>: the invariants keep them at most the capacity, which is an
  \<^verbatim>\<open>unsigned int\<close> (or, in \<^verbatim>\<open>BufferQueue\<close>, an \<^verbatim>\<open>unsigned char\<close>)
  itself, so no increment wraps.
\<close>

section \<open>Ring arithmetic\<close>

definition ring_advance :: "nat \<Rightarrow> nat \<Rightarrow> nat" where
  "ring_advance n p = (if Suc p = n then 0 else Suc p)"

text \<open>The items of a ring of \<open>n\<close> slots that holds \<open>k\<close> items from position \<open>g\<close> on.\<close>

definition ring_contents :: "'a list \<Rightarrow> nat \<Rightarrow> nat \<Rightarrow> 'a list" where
  "ring_contents buf g k = map (\<lambda>i. buf ! ((g + i) mod length buf)) [0..<k]"

lemma length_ring_contents [simp]: "length (ring_contents buf g k) = k"
  by (simp add: ring_contents_def)

lemma ring_advance_mod: "p < n \<Longrightarrow> ring_advance n p = Suc p mod n"
  by (auto simp: ring_advance_def)

lemma ring_contents_put:
  assumes "k < length buf" "g < length buf"
  shows "ring_contents (buf[(g + k) mod length buf := x]) g (Suc k) = ring_contents buf g k @ [x]"
proof -
  let ?n = "length buf"
  have "buf[(g + k) mod ?n := x] ! ((g + i) mod ?n) = buf ! ((g + i) mod ?n)" if "i < k" for i
  proof -
    have "(g + i) mod ?n \<noteq> (g + k) mod ?n"
    proof
      assume "(g + i) mod ?n = (g + k) mod ?n"
      then have "?n dvd k - i" using that
        by (metis add_diff_cancel_left mod_eq_dvd_iff_nat add_le_cancel_left less_imp_le)
      moreover have "0 < k - i" "k - i < ?n" using that assms by auto
      ultimately show False using dvd_imp_le by (metis not_less)
    qed
    then show ?thesis by simp
  qed
  moreover have "(g + k) mod ?n < ?n" using assms by (intro mod_less_divisor) auto
  ultimately show ?thesis
    by (simp add: ring_contents_def)
qed

lemma ring_contents_get:
  assumes "0 < k" "g < length buf"
  shows "ring_contents buf g k = buf ! g # ring_contents buf (ring_advance (length buf) g) (k - 1)"
proof -
  obtain m where k: "k = Suc m" using assms(1) by (cases k) auto
  have "(ring_advance (length buf) g + i) mod length buf = (g + Suc i) mod length buf" for i
    using assms(2) by (simp add: ring_advance_mod mod_add_left_eq flip: add_Suc)
  then show ?thesis
    using assms k by (simp add: ring_contents_def upt_conv_Cons map_Suc_upt[symmetric] del: upt_Suc)
qed

section \<open>The interface\<close>

datatype 'a qop = Put 'a | Get

locale bounded_fifo =
  fixes inv :: "'q \<Rightarrow> bool"
    and contents :: "'q \<Rightarrow> 'a list"
    and cap :: "'q \<Rightarrow> nat"
    and qput :: "'a \<Rightarrow> 'q \<Rightarrow> (bool \<times> 'q) result"
    and qget :: "'q \<Rightarrow> ('a option \<times> 'q) result"
  assumes inv_len: "inv q \<Longrightarrow> length (contents q) \<le> cap q"
    and put_ok: "inv q \<Longrightarrow> length (contents q) < cap q \<Longrightarrow>
          \<exists>q'. qput x q = Inr (True, q') \<and> inv q' \<and> contents q' = contents q @ [x] \<and> cap q' = cap q"
    and put_full: "inv q \<Longrightarrow> length (contents q) = cap q \<Longrightarrow> qput x q = Inr (False, q)"
    and get_ok: "inv q \<Longrightarrow> contents q = x # xs \<Longrightarrow>
          \<exists>q'. qget q = Inr (Some x, q') \<and> inv q' \<and> contents q' = xs \<and> cap q' = cap q"
    and get_empty: "inv q \<Longrightarrow> contents q = [] \<Longrightarrow> qget q = Inr (None, q)"
begin

text \<open>Running a sequence of operations: the items accepted and the items returned.\<close>

fun run :: "'a qop list \<Rightarrow> 'q \<Rightarrow> ('a list \<times> 'a list \<times> 'q) result" where
  "run [] q = Inr ([], [], q)"
| "run (Put x # ops) q = rbind (qput x q) (\<lambda>(ok, q').
     rbind (run ops q') (\<lambda>(is, os, q''). Inr (if ok then x # is else is, os, q'')))"
| "run (Get # ops) q = rbind (qget q) (\<lambda>(r, q').
     rbind (run ops q') (\<lambda>(is, os, q''). Inr (is, case r of None \<Rightarrow> os | Some x \<Rightarrow> x # os, q'')))"

text \<open>FIFO: what was inside followed by what was accepted is what came out followed by what
  is still inside. No operation fails, loses, duplicates or reorders an item.\<close>

lemma run_fifo:
  "inv q \<Longrightarrow> \<exists>is os q'. run ops q = Inr (is, os, q') \<and> inv q' \<and> cap q' = cap q
     \<and> contents q @ is = os @ contents q'"
proof (induction ops arbitrary: q)
  case (Cons a ops)
  show ?case
  proof (cases a)
    case (Put x)
    show ?thesis
    proof (cases "length (contents q) < cap q")
      case True
      then obtain q1 where q1: "qput x q = Inr (True, q1)" "inv q1"
          "contents q1 = contents q @ [x]" "cap q1 = cap q"
        using put_ok Cons.prems by blast
      with Cons.IH[OF q1(2)] Put show ?thesis by auto
    next
      case False
      then have "length (contents q) = cap q" using inv_len[OF Cons.prems] by simp
      with put_full Cons.IH[OF Cons.prems] Cons.prems Put show ?thesis by auto
    qed
  next
    case Get
    show ?thesis
    proof (cases "contents q")
      case Nil
      with get_empty Cons.IH[OF Cons.prems] Cons.prems Get show ?thesis by auto
    next
      case (Cons x xs)
      then obtain q1 where q1: "qget q = Inr (Some x, q1)" "inv q1" "contents q1 = xs" "cap q1 = cap q"
        using get_ok Cons.prems by blast
      with Cons.IH[OF q1(2)] Get Cons show ?thesis by auto
    qed
  qed
qed auto

end

section \<open>QueueBase\<close>

record 'a QueueBase =
  buffer :: "'a list"
  waiting :: "tid option"
  numElem :: nat
  putPos :: nat
  getPos :: nat

definition q_isEmpty :: "'a QueueBase \<Rightarrow> bool" where
  "q_isEmpty q = (numElem q = 0)"

definition q_isFull :: "'a QueueBase \<Rightarrow> bool" where
  "q_isFull q = (numElem q = length (buffer q))"

definition q_free :: "'a QueueBase \<Rightarrow> nat" where
  "q_free q = length (buffer q) - numElem q"

text \<open>The thread the call wakes, if any, is part of the result.\<close>

definition IRQwakeWaitingThread :: "'a QueueBase \<Rightarrow> 'a QueueBase \<times> tid option" where
  "IRQwakeWaitingThread q = (case waiting q of
      None \<Rightarrow> (q, None)
    | Some t \<Rightarrow> (q\<lparr>waiting := None\<rparr>, Some t))"

definition IRQput :: "'a \<Rightarrow> 'a QueueBase \<Rightarrow> (bool \<times> 'a QueueBase \<times> tid option) result" where
  "IRQput elem q =
     (if q_isFull q then Inr (False, q, None)
      else ensure (putPos q < length (buffer q)) OutOfBounds
        (let q1 = q\<lparr>numElem := numElem q + 1, buffer := (buffer q)[putPos q := elem],
                    putPos := ring_advance (length (buffer q)) (putPos q)\<rparr>
         in Inr (True, IRQwakeWaitingThread q1)))"

definition IRQget :: "'a QueueBase \<Rightarrow> ('a option \<times> 'a QueueBase \<times> tid option) result" where
  "IRQget q =
     (if q_isEmpty q then Inr (None, q, None)
      else ensure (getPos q < length (buffer q)) OutOfBounds
        (let elem = buffer q ! getPos q;
             q1 = q\<lparr>numElem := numElem q - 1, getPos := ring_advance (length (buffer q)) (getPos q)\<rparr>
         in Inr (Some elem, IRQwakeWaitingThread q1)))"

text \<open>The loop that calls the destructors of the remaining elements, run only for a type that
  is not trivially destructible; the calls themselves have no effect on the queue.\<close>

fun q_destroy_loop :: "nat \<Rightarrow> 'a QueueBase \<Rightarrow> 'a QueueBase" where
  "q_destroy_loop 0 q = q"
| "q_destroy_loop (Suc n) q = q_destroy_loop n
     (q\<lparr>numElem := n, getPos := ring_advance (length (buffer q)) (getPos q)\<rparr>)"

definition q_IRQreset :: "bool \<Rightarrow> 'a QueueBase \<Rightarrow> 'a QueueBase \<times> tid option" where
  "q_IRQreset trivially_destructible q =
     (let q1 = (if trivially_destructible then q else q_destroy_loop (numElem q) q)
      in IRQwakeWaitingThread (q1\<lparr>putPos := 0, getPos := 0, numElem := 0\<rparr>))"

definition q_new :: "'a list \<Rightarrow> 'a QueueBase" where
  "q_new buf = \<lparr>buffer = buf, waiting = None, numElem = 0, putPos = 0, getPos = 0\<rparr>"

definition q_inv :: "'a QueueBase \<Rightarrow> bool" where
  "q_inv q = (0 < length (buffer q) \<and> numElem q \<le> length (buffer q) \<and> getPos q < length (buffer q)
     \<and> putPos q = (getPos q + numElem q) mod length (buffer q))"

definition q_contents :: "'a QueueBase \<Rightarrow> 'a list" where
  "q_contents q = ring_contents (buffer q) (getPos q) (numElem q)"


subsection \<open>Every operation keeps the invariant\<close>

lemma q_inv_new: "buf \<noteq> [] \<Longrightarrow> q_inv (q_new buf)"
  by (simp add: q_inv_def q_new_def)

lemma wake_fields [simp]:
  "buffer (fst (IRQwakeWaitingThread q)) = buffer q"
  "numElem (fst (IRQwakeWaitingThread q)) = numElem q"
  "putPos (fst (IRQwakeWaitingThread q)) = putPos q"
  "getPos (fst (IRQwakeWaitingThread q)) = getPos q"
  "waiting (fst (IRQwakeWaitingThread q)) = None"
  "snd (IRQwakeWaitingThread q) = waiting q"
  by (auto simp: IRQwakeWaitingThread_def split: option.splits)

lemma q_inv_wake [simp]: "q_inv (fst (IRQwakeWaitingThread q)) = q_inv q"
  by (simp add: q_inv_def)

lemma q_contents_wake [simp]: "q_contents (fst (IRQwakeWaitingThread q)) = q_contents q"
  by (simp add: q_contents_def)

lemma length_q_contents [simp]: "length (q_contents q) = numElem q"
  by (simp add: q_contents_def)

lemma q_putPos_bound: "q_inv q \<Longrightarrow> putPos q < length (buffer q)"
  by (auto simp: q_inv_def)

lemma IRQput_room:
  assumes inv: "q_inv q" and room: "numElem q < length (buffer q)"
  shows "\<exists>q'. IRQput x q = Inr (True, q', waiting q) \<and> q_inv q' \<and> waiting q' = None
           \<and> q_contents q' = q_contents q @ [x] \<and> length (buffer q') = length (buffer q)"
proof -
  let ?n = "length (buffer q)"
  let ?q1 = "q\<lparr>numElem := numElem q + 1, buffer := (buffer q)[putPos q := x],
               putPos := ring_advance ?n (putPos q)\<rparr>"
  have "q_inv ?q1"
    using inv room q_putPos_bound[OF inv]
    by (simp add: q_inv_def ring_advance_mod mod_Suc_eq)
  moreover have "q_contents ?q1 = q_contents q @ [x]"
    using inv room ring_contents_put[of "numElem q" "buffer q" "getPos q" x]
    by (simp add: q_contents_def q_inv_def)
  moreover have "IRQput x q = Inr (True, IRQwakeWaitingThread ?q1)"
    using room q_putPos_bound[OF inv] by (simp add: IRQput_def q_isFull_def Let_def)
  ultimately show ?thesis
    by (intro exI[of _ "fst (IRQwakeWaitingThread ?q1)"]) (auto simp: prod_eq_iff)
qed

lemma IRQput_full: "numElem q = length (buffer q) \<Longrightarrow> IRQput x q = Inr (False, q, None)"
  by (simp add: IRQput_def q_isFull_def)

lemma IRQget_some:
  assumes inv: "q_inv q" and c: "q_contents q = x # xs"
  shows "\<exists>q'. IRQget q = Inr (Some x, q', waiting q) \<and> q_inv q' \<and> waiting q' = None
           \<and> q_contents q' = xs \<and> length (buffer q') = length (buffer q)"
proof -
  let ?n = "length (buffer q)"
  have pos: "0 < numElem q" and g: "getPos q < ?n"
    using c inv by (auto simp: q_inv_def dest: arg_cong[of _ _ length])
  let ?q1 = "q\<lparr>numElem := numElem q - 1, getPos := ring_advance ?n (getPos q)\<rparr>"
  have xx: "buffer q ! getPos q = x" "ring_contents (buffer q) (ring_advance ?n (getPos q)) (numElem q - 1) = xs"
    using c ring_contents_get[OF pos g] by (auto simp: q_contents_def)
  obtain m where m: "numElem q = Suc m" using pos by (cases "numElem q") auto
  have "putPos q = (ring_advance ?n (getPos q) + (numElem q - 1)) mod ?n"
    using inv m g by (simp add: q_inv_def ring_advance_mod mod_add_left_eq)
  then have "q_inv ?q1" using inv g by (auto simp: q_inv_def ring_advance_def)
  moreover have "q_contents ?q1 = xs" using xx by (simp add: q_contents_def)
  moreover have "IRQget q = Inr (Some x, IRQwakeWaitingThread ?q1)"
    using pos g xx by (simp add: IRQget_def q_isEmpty_def Let_def)
  ultimately show ?thesis
    by (intro exI[of _ "fst (IRQwakeWaitingThread ?q1)"]) (auto simp: prod_eq_iff)
qed

lemma IRQget_none: "q_contents q = [] \<Longrightarrow> IRQget q = Inr (None, q, None)"
  by (auto simp: IRQget_def q_isEmpty_def dest: arg_cong[of _ _ length])

lemma q_destroy_loop_fields [simp]:
  "buffer (q_destroy_loop n q) = buffer q" "waiting (q_destroy_loop n q) = waiting q"
  by (induction n arbitrary: q) auto

lemma q_IRQreset_spec:
  "q_inv q \<Longrightarrow> q_inv (fst (q_IRQreset td q)) \<and> q_contents (fst (q_IRQreset td q)) = []
     \<and> waiting (fst (q_IRQreset td q)) = None \<and> snd (q_IRQreset td q) = waiting q"
  by (simp add: q_IRQreset_def q_inv_def q_contents_def ring_contents_def)

text \<open>The woken thread does not matter to the data: forget it.\<close>

definition put_data :: "'a \<Rightarrow> 'a QueueBase \<Rightarrow> (bool \<times> 'a QueueBase) result" where
  "put_data x q = rbind (IRQput x q) (\<lambda>(ok, q', _). Inr (ok, q'))"

definition get_data :: "'a QueueBase \<Rightarrow> ('a option \<times> 'a QueueBase) result" where
  "get_data q = rbind (IRQget q) (\<lambda>(r, q', _). Inr (r, q'))"

interpretation qb: bounded_fifo q_inv q_contents "\<lambda>q. length (buffer q)" put_data get_data
proof (unfold_locales, goal_cases)
  case (1 q)
  then show ?case by (simp add: q_inv_def)
next
  case (2 q x)
  then show ?case using IRQput_room[of q x] by (auto simp: put_data_def)
next
  case (3 q x)
  then show ?case by (simp add: put_data_def IRQput_full)
next
  case (4 q x xs)
  then show ?case using IRQget_some[of q x xs] by (auto simp: get_data_def)
next
  case (5 q)
  then show ?case by (simp add: get_data_def IRQget_none)
qed


subsection \<open>Two threads on one queue\<close>

text \<open>The loop \<^verbatim>\<open>while(IRQput(elem)==false) { waiting=cur; wait; }\<close> of
  \<^verbatim>\<open>put\<close> and its mirror image in \<^verbatim>\<open>get\<close>, cut at the wait: a thread is
  outside the call, about to evaluate the loop condition with the global lock held, or blocked in
  \<^verbatim>\<open>IRQglobalIrqUnlockAndWait\<close>. A blocked thread resumes when it is woken, and may also
  resume spuriously. An interrupt may reset the queue at any time.\<close>

datatype 'a producer = PIdle | PTrying 'a | PBlocked 'a

datatype consumer = CIdle | CTrying | CBlocked

record 'a qsys =
  queue :: "'a QueueBase"
  prod :: "'a producer"
  cons :: consumer

abbreviation (input) producer_id :: tid where "producer_id \<equiv> 1"
abbreviation (input) consumer_id :: tid where "consumer_id \<equiv> 2"

definition wake_thread :: "tid option \<Rightarrow> 'a qsys \<Rightarrow> 'a qsys" where
  "wake_thread w s =
     (if w = Some producer_id then
        (case prod s of PBlocked x \<Rightarrow> s\<lparr>prod := PTrying x\<rparr> | _ \<Rightarrow> s)
      else if w = Some consumer_id then
        (case cons s of CBlocked \<Rightarrow> s\<lparr>cons := CTrying\<rparr> | _ \<Rightarrow> s)
      else s)"

definition put_step :: "'a \<Rightarrow> 'a qsys \<Rightarrow> 'a qsys result" where
  "put_step x s = rbind (IRQput x (queue s)) (\<lambda>(ok, q', w).
     if ok then Inr (wake_thread w (s\<lparr>queue := q', prod := PIdle\<rparr>))
     else Inr (s\<lparr>queue := q'\<lparr>waiting := Some producer_id\<rparr>, prod := PBlocked x\<rparr>))"

definition get_step :: "'a qsys \<Rightarrow> ('a option \<times> 'a qsys) result" where
  "get_step s = rbind (IRQget (queue s)) (\<lambda>(r, q', w).
     case r of
       Some x \<Rightarrow> Inr (Some x, wake_thread w (s\<lparr>queue := q', cons := CIdle\<rparr>))
     | None \<Rightarrow> Inr (None, s\<lparr>queue := q'\<lparr>waiting := Some consumer_id\<rparr>, cons := CBlocked\<rparr>))"

inductive qstep :: "'a qsys \<Rightarrow> 'a qsys \<Rightarrow> bool" where
  put_call: "prod s = PIdle \<Longrightarrow> qstep s (s\<lparr>prod := PTrying x\<rparr>)"
| put_try: "prod s = PTrying x \<Longrightarrow> put_step x s = Inr s' \<Longrightarrow> qstep s s'"
| put_spurious: "prod s = PBlocked x \<Longrightarrow> qstep s (s\<lparr>prod := PTrying x\<rparr>)"
| get_call: "cons s = CIdle \<Longrightarrow> qstep s (s\<lparr>cons := CTrying\<rparr>)"
| get_try: "cons s = CTrying \<Longrightarrow> get_step s = Inr (r, s') \<Longrightarrow> qstep s s'"
| get_spurious: "cons s = CBlocked \<Longrightarrow> qstep s (s\<lparr>cons := CTrying\<rparr>)"
| reset: "q_IRQreset td (queue s) = (q', w) \<Longrightarrow> qstep s (wake_thread w (s\<lparr>queue := q'\<rparr>))"

definition qsys_init :: "'a list \<Rightarrow> 'a qsys" where
  "qsys_init buf = \<lparr>queue = q_new buf, prod = PIdle, cons = CIdle\<rparr>"

inductive qreach :: "'a list \<Rightarrow> 'a qsys \<Rightarrow> bool" for buf :: "'a list" where
  start: "qreach buf (qsys_init buf)"
| step: "qreach buf s \<Longrightarrow> qstep s s' \<Longrightarrow> qreach buf s'"

definition is_PBlocked :: "'a producer \<Rightarrow> bool" where
  "is_PBlocked p = (case p of PBlocked _ \<Rightarrow> True | _ \<Rightarrow> False)"

text \<open>A blocked thread is the registered waiter, and the condition it waits for is false.\<close>

definition qsys_inv :: "'a qsys \<Rightarrow> bool" where
  "qsys_inv s = (q_inv (queue s)
     \<and> (is_PBlocked (prod s) \<longrightarrow> waiting (queue s) = Some producer_id \<and> q_isFull (queue s))
     \<and> (cons s = CBlocked \<longrightarrow> waiting (queue s) = Some consumer_id \<and> q_isEmpty (queue s)))"

lemma wake_thread_fields:
  "queue (wake_thread w s) = queue s"
  "is_PBlocked (prod (wake_thread w s)) = (is_PBlocked (prod s) \<and> w \<noteq> Some producer_id)"
  "cons (wake_thread w s) = CBlocked \<longleftrightarrow> cons s = CBlocked \<and> w \<noteq> Some consumer_id"
  by (auto simp: wake_thread_def is_PBlocked_def split: producer.splits consumer.splits)

lemma is_PBlocked_simps [simp]:
  "\<not> is_PBlocked PIdle" "\<not> is_PBlocked (PTrying x)" "is_PBlocked (PBlocked x)"
  by (simp_all add: is_PBlocked_def)

lemma q_inv_waiting [simp]: "q_inv (q\<lparr>waiting := w\<rparr>) = q_inv q"
  by (simp add: q_inv_def)

lemma not_full_and_empty: "q_inv q \<Longrightarrow> q_isFull q \<Longrightarrow> \<not> q_isEmpty q"
  by (auto simp: q_inv_def q_isFull_def q_isEmpty_def)

lemma put_step_inv:
  assumes inv: "qsys_inv s" and p: "prod s = PTrying x" and st: "put_step x s = Inr s'"
  shows "qsys_inv s'"
proof (cases "numElem (queue s) < length (buffer (queue s))")
  case True
  with inv obtain q' where "IRQput x (queue s) = Inr (True, q', waiting (queue s))" "q_inv q'"
    using IRQput_room[of "queue s" x] by (auto simp: qsys_inv_def)
  then have s': "s' = wake_thread (waiting (queue s)) (s\<lparr>queue := q', prod := PIdle\<rparr>)" "q_inv q'"
    using st by (auto simp: put_step_def)
  then show ?thesis using inv by (auto simp: qsys_inv_def wake_thread_fields)
next
  case False
  then have full: "q_isFull (queue s)" using inv by (auto simp: qsys_inv_def q_inv_def q_isFull_def)
  then have s': "s' = s\<lparr>queue := (queue s)\<lparr>waiting := Some producer_id\<rparr>, prod := PBlocked x\<rparr>"
    using st by (simp add: put_step_def IRQput_def)
  have "cons s \<noteq> CBlocked"
    using full inv not_full_and_empty by (auto simp: qsys_inv_def)
  then show ?thesis using s' inv full by (auto simp: qsys_inv_def q_isFull_def)
qed

lemma get_step_inv:
  assumes inv: "qsys_inv s" and c: "cons s = CTrying" and st: "get_step s = Inr (r, s')"
  shows "qsys_inv s'"
proof (cases "q_contents (queue s)")
  case (Cons x xs)
  with inv obtain q' where "IRQget (queue s) = Inr (Some x, q', waiting (queue s))" "q_inv q'"
    using IRQget_some[of "queue s" x xs] by (auto simp: qsys_inv_def)
  then have s': "s' = wake_thread (waiting (queue s)) (s\<lparr>queue := q', cons := CIdle\<rparr>)" "q_inv q'"
    using st by (auto simp: get_step_def)
  then show ?thesis using inv by (auto simp: qsys_inv_def wake_thread_fields)
next
  case Nil
  then have emp: "q_isEmpty (queue s)" by (auto simp: q_isEmpty_def dest: arg_cong[of _ _ length])
  then have s': "s' = s\<lparr>queue := (queue s)\<lparr>waiting := Some consumer_id\<rparr>, cons := CBlocked\<rparr>"
    using st by (auto simp: get_step_def IRQget_def)
  have "\<not> is_PBlocked (prod s)"
    using emp inv not_full_and_empty by (auto simp: qsys_inv_def)
  then show ?thesis using s' inv emp by (auto simp: qsys_inv_def q_isEmpty_def)
qed

lemma qstep_inv: "qstep s s' \<Longrightarrow> qsys_inv s \<Longrightarrow> qsys_inv s'"
proof (induction rule: qstep.induct)
  case (put_try s x s')
  then show ?case by (blast intro: put_step_inv)
next
  case (get_try s r s')
  then show ?case by (blast intro: get_step_inv)
next
  case (reset td s q' w)
  then have "q_inv q'" "w = waiting (queue s)"
    using q_IRQreset_spec[of "queue s" td] by (auto simp: qsys_inv_def)
  with reset show ?case by (auto simp: qsys_inv_def wake_thread_fields)
qed (auto simp: qsys_inv_def)

lemma qreach_inv: "qreach buf s \<Longrightarrow> buf \<noteq> [] \<Longrightarrow> qsys_inv s"
proof (induction rule: qreach.induct)
  case start
  then show ?case by (simp add: qsys_inv_def qsys_init_def q_inv_new)
next
  case (step s s')
  then show ?case using qstep_inv by blast
qed

text \<open>Progress: the step of a thread that is not blocked never fails.\<close>

lemma put_step_total:
  assumes "qsys_inv s"
  shows "\<exists>s'. put_step x s = Inr s'"
proof -
  have q: "q_inv (queue s)" using assms by (simp add: qsys_inv_def)
  show ?thesis
    using q IRQput_room[OF q, of x]
    by (cases "numElem (queue s) < length (buffer (queue s))")
       (auto simp: put_step_def q_inv_def IRQput_full le_neq_implies_less)
qed

lemma get_step_total:
  assumes "qsys_inv s"
  shows "\<exists>r s'. get_step s = Inr (r, s')"
proof -
  have q: "q_inv (queue s)" using assms by (simp add: qsys_inv_def)
  show ?thesis
    using IRQget_some[OF q]
    by (cases "q_contents (queue s)") (fastforce simp: get_step_def IRQget_none)+
qed

section \<open>DynUnsyncQueue\<close>

record 'a DynUnsyncQueue =
  data :: "'a list"
  uputPos :: nat
  ugetPos :: nat
  queueSize :: nat

definition uq_new :: "'a list \<Rightarrow> 'a DynUnsyncQueue" where
  "uq_new storage = \<lparr>data = storage, uputPos = 0, ugetPos = 0, queueSize = 0\<rparr>"

definition uq_isEmpty :: "'a DynUnsyncQueue \<Rightarrow> bool" where
  "uq_isEmpty q = (queueSize q = 0)"

definition uq_isFull :: "'a DynUnsyncQueue \<Rightarrow> bool" where
  "uq_isFull q = (queueSize q = length (data q))"

definition tryPut :: "'a \<Rightarrow> 'a DynUnsyncQueue \<Rightarrow> (bool \<times> 'a DynUnsyncQueue) result" where
  "tryPut elem q =
     (if uq_isFull q then Inr (False, q)
      else ensure (uputPos q < length (data q)) OutOfBounds
        (Inr (True, q\<lparr>queueSize := queueSize q + 1, data := (data q)[uputPos q := elem],
           uputPos := (if uputPos q + 1 \<ge> length (data q) then 0 else uputPos q + 1)\<rparr>)))"

definition tryGet :: "'a DynUnsyncQueue \<Rightarrow> ('a option \<times> 'a DynUnsyncQueue) result" where
  "tryGet q =
     (if uq_isEmpty q then Inr (None, q)
      else ensure (ugetPos q < length (data q)) OutOfBounds
        (Inr (Some (data q ! ugetPos q), q\<lparr>queueSize := queueSize q - 1,
           ugetPos := (if ugetPos q + 1 \<ge> length (data q) then 0 else ugetPos q + 1)\<rparr>)))"

definition uq_reset :: "'a DynUnsyncQueue \<Rightarrow> 'a DynUnsyncQueue" where
  "uq_reset q = q\<lparr>queueSize := 0, ugetPos := 0, uputPos := 0\<rparr>"

text \<open>Unlike \<^verbatim>\<open>QueueBase\<close>, a capacity of zero is allowed: the queue is then always
  full and always empty.\<close>

definition uq_inv :: "'a DynUnsyncQueue \<Rightarrow> bool" where
  "uq_inv q = (queueSize q \<le> length (data q)
     \<and> (data q = [] \<longrightarrow> uputPos q = 0 \<and> ugetPos q = 0)
     \<and> (data q \<noteq> [] \<longrightarrow> ugetPos q < length (data q)
          \<and> uputPos q = (ugetPos q + queueSize q) mod length (data q)))"

definition uq_contents :: "'a DynUnsyncQueue \<Rightarrow> 'a list" where
  "uq_contents q = ring_contents (data q) (ugetPos q) (queueSize q)"

lemma uq_inv_new: "uq_inv (uq_new storage)"
  by (simp add: uq_inv_def uq_new_def)

lemma uq_inv_reset: "uq_inv q \<Longrightarrow> uq_inv (uq_reset q) \<and> uq_contents (uq_reset q) = []"
  by (simp add: uq_inv_def uq_reset_def uq_contents_def ring_contents_def)

lemma length_uq_contents [simp]: "length (uq_contents q) = queueSize q"
  by (simp add: uq_contents_def)

interpretation uq: bounded_fifo uq_inv uq_contents "\<lambda>q. length (data q)" tryPut tryGet
proof (unfold_locales, goal_cases)
  case (1 q)
  then show ?case by (simp add: uq_inv_def)
next
  case (2 q x)
  then have room: "queueSize q < length (data q)" and ne: "data q \<noteq> []"
    and g: "ugetPos q < length (data q)"
    and p: "uputPos q = (ugetPos q + queueSize q) mod length (data q)"
    by (auto simp: uq_inv_def)
  then have pb: "uputPos q < length (data q)" by simp
  let ?q = "q\<lparr>queueSize := queueSize q + 1, data := (data q)[uputPos q := x],
              uputPos := ring_advance (length (data q)) (uputPos q)\<rparr>"
  have "tryPut x q = Inr (True, ?q)"
    using room pb by (simp add: tryPut_def uq_isFull_def ring_advance_def)
  moreover have "uq_inv ?q"
    using room ne g p by (simp add: uq_inv_def ring_advance_mod mod_Suc_eq)
  moreover have "uq_contents ?q = uq_contents q @ [x]"
    using ring_contents_put[OF room g, of x] p by (simp add: uq_contents_def)
  ultimately show ?case by simp
next
  case (3 q x)
  then show ?case by (simp add: tryPut_def uq_isFull_def)
next
  case (4 q x xs)
  then obtain m where m: "queueSize q = Suc m"
    by (cases "queueSize q") (auto simp: uq_contents_def ring_contents_def)
  then have ne: "data q \<noteq> []" and g: "ugetPos q < length (data q)"
    and p: "uputPos q = (ugetPos q + queueSize q) mod length (data q)"
    using 4(1) by (auto simp: uq_inv_def)
  let ?q = "q\<lparr>queueSize := queueSize q - 1, ugetPos := ring_advance (length (data q)) (ugetPos q)\<rparr>"
  have x: "data q ! ugetPos q = x" and xs: "uq_contents ?q = xs"
    using ring_contents_get[of "queueSize q" "ugetPos q" "data q"] m g 4(2)
    by (auto simp: uq_contents_def)
  have "tryGet q = Inr (Some x, ?q)"
    using m g x by (simp add: tryGet_def uq_isEmpty_def ring_advance_def)
  moreover have "uq_inv ?q"
    using 4(1) m g ne p by (simp add: uq_inv_def ring_advance_mod mod_add_left_eq)
  ultimately show ?case using xs by simp
next
  case (5 q)
  then show ?case by (auto simp: tryGet_def uq_isEmpty_def dest: arg_cong[of _ _ length])
qed

section \<open>BufferQueue\<close>

text \<open>The reader and the writer work on the buffers in place: the model keeps the data of each
  buffer as one value, and \<open>fill_buffer\<close> is what the writer does with the pointer it was
  given.\<close>

record 'a BufferQueue =
  buf :: "'a list"
  bufSize :: "nat list"
  bput :: nat
  bget :: nat
  cnt :: nat

definition bq_isEmpty :: "'a BufferQueue \<Rightarrow> bool" where
  "bq_isEmpty q = (cnt q = 0)"

definition bq_isFull :: "'a BufferQueue \<Rightarrow> bool" where
  "bq_isFull q = (cnt q = length (buf q))"

definition tryGetWritableBuffer :: "'a BufferQueue \<Rightarrow> nat option" where
  "tryGetWritableBuffer q = (if bq_isFull q then None else Some (bput q))"

definition fill_buffer :: "nat \<Rightarrow> 'a \<Rightarrow> 'a BufferQueue \<Rightarrow> 'a BufferQueue" where
  "fill_buffer i x q = q\<lparr>buf := (buf q)[i := x]\<rparr>"

definition bufferFilled :: "nat \<Rightarrow> 'a BufferQueue \<Rightarrow> 'a BufferQueue result" where
  "bufferFilled actualSize q =
     ensure (\<not> bq_isFull q) UNEXPECTED
      (ensure (bput q < length (bufSize q)) OutOfBounds
        (Inr (q\<lparr>cnt := cnt q + 1, bufSize := (bufSize q)[bput q := actualSize],
                bput := (if bput q + 1 \<ge> length (buf q) then 0 else bput q + 1)\<rparr>)))"

definition availableForWriting :: "'a BufferQueue \<Rightarrow> nat" where
  "availableForWriting q = length (buf q) - cnt q"

definition tryGetReadableBuffer :: "'a BufferQueue \<Rightarrow> ('a \<times> nat) option result" where
  "tryGetReadableBuffer q =
     (if bq_isEmpty q then Inr None
      else ensure (bget q < length (buf q) \<and> bget q < length (bufSize q)) OutOfBounds
        (Inr (Some (buf q ! bget q, bufSize q ! bget q))))"

definition bufferEmptied :: "'a BufferQueue \<Rightarrow> 'a BufferQueue result" where
  "bufferEmptied q =
     ensure (\<not> bq_isEmpty q) UNEXPECTED
       (Inr (q\<lparr>cnt := cnt q - 1, bget := (if bget q + 1 \<ge> length (buf q) then 0 else bget q + 1)\<rparr>))"

definition bq_reset :: "'a BufferQueue \<Rightarrow> 'a BufferQueue" where
  "bq_reset q = q\<lparr>bput := 0, bget := 0, cnt := 0\<rparr>"

text \<open>The two halves of the protocol, as the drivers use them.\<close>

definition bq_produce :: "'a \<times> nat \<Rightarrow> 'a BufferQueue \<Rightarrow> (bool \<times> 'a BufferQueue) result" where
  "bq_produce xn q = (case tryGetWritableBuffer q of
      None \<Rightarrow> Inr (False, q)
    | Some i \<Rightarrow> rbind (bufferFilled (snd xn) (fill_buffer i (fst xn) q)) (\<lambda>q'. Inr (True, q')))"

definition bq_consume :: "'a BufferQueue \<Rightarrow> (('a \<times> nat) option \<times> 'a BufferQueue) result" where
  "bq_consume q = rbind (tryGetReadableBuffer q) (\<lambda>r. case r of
      None \<Rightarrow> Inr (None, q)
    | Some xn \<Rightarrow> rbind (bufferEmptied q) (\<lambda>q'. Inr (Some xn, q')))"

definition bq_inv :: "'a BufferQueue \<Rightarrow> bool" where
  "bq_inv q = (2 \<le> length (buf q) \<and> length (bufSize q) = length (buf q) \<and> cnt q \<le> length (buf q)
     \<and> bget q < length (buf q) \<and> bput q = (bget q + cnt q) mod length (buf q))"

definition bq_contents :: "'a BufferQueue \<Rightarrow> ('a \<times> nat) list" where
  "bq_contents q = ring_contents (zip (buf q) (bufSize q)) (bget q) (cnt q)"

lemma length_bq_contents [simp]: "length (bq_contents q) = cnt q"
  by (simp add: bq_contents_def)

interpretation bq: bounded_fifo bq_inv bq_contents "\<lambda>q. length (buf q)" bq_produce bq_consume
proof (unfold_locales, goal_cases)
  case (1 q)
  then show ?case by (simp add: bq_inv_def)
next
  case (2 q xn)
  obtain x n where xn: "xn = (x, n)" by (cases xn)
  let ?k = "length (buf q)"
  from 2 have room: "cnt q < ?k" and g: "bget q < ?k" and len: "length (bufSize q) = ?k"
    and p: "bput q = (bget q + cnt q) mod ?k" and two: "2 \<le> ?k"
    by (auto simp: bq_inv_def)
  then have pb: "bput q < ?k" by (metis mod_less_divisor not_less_zero gr0I)
  let ?q = "q\<lparr>buf := (buf q)[bput q := x], cnt := cnt q + 1, bufSize := (bufSize q)[bput q := n],
              bput := ring_advance ?k (bput q)\<rparr>"
  have "bq_produce xn q = Inr (True, ?q)"
    using room pb len xn
    by (simp add: bq_produce_def tryGetWritableBuffer_def bufferFilled_def fill_buffer_def
        bq_isFull_def ring_advance_def)
  moreover have "bq_inv ?q"
    using room g p len two pb by (simp add: bq_inv_def ring_advance_mod mod_Suc_eq)
  moreover have "bq_contents ?q = bq_contents q @ [xn]"
    using ring_contents_put[of "cnt q" "zip (buf q) (bufSize q)" "bget q" xn] room g len p xn
    by (simp add: bq_contents_def zip_update)
  ultimately show ?case by simp
next
  case (3 q xn)
  then show ?case by (simp add: bq_produce_def tryGetWritableBuffer_def bq_isFull_def)
next
  case (4 q xn xs)
  let ?k = "length (buf q)"
  obtain m where m: "cnt q = Suc m"
    using 4(2) by (cases "cnt q") (auto simp: bq_contents_def ring_contents_def)
  from 4 have g: "bget q < ?k" and len: "length (bufSize q) = ?k"
    and p: "bput q = (bget q + cnt q) mod ?k"
    by (auto simp: bq_inv_def)
  let ?q = "q\<lparr>cnt := cnt q - 1, bget := ring_advance ?k (bget q)\<rparr>"
  have x: "(buf q ! bget q, bufSize q ! bget q) = xn" and xs: "bq_contents ?q = xs"
    using ring_contents_get[of "cnt q" "bget q" "zip (buf q) (bufSize q)"] m g len 4(2)
    by (auto simp: bq_contents_def)
  have "bq_consume q = Inr (Some xn, ?q)"
    using m g len x
    by (auto simp: bq_consume_def tryGetReadableBuffer_def bufferEmptied_def bq_isEmpty_def ring_advance_def)
  moreover have "bq_inv ?q"
    using 4(1) m g p less_le_trans[OF zero_less_Suc g[THEN Suc_leI]]
    by (simp add: bq_inv_def ring_advance_mod mod_add_left_eq)
  ultimately show ?case using xs by simp
next
  case (5 q)
  then show ?case
    by (auto simp: bq_consume_def tryGetReadableBuffer_def bq_isEmpty_def dest: arg_cong[of _ _ length])
qed


section \<open>Properties\<close>

text \<open>C4. No lost wakeup on a \<^verbatim>\<open>Queue\<close> shared by a producer and a consumer, with spurious
  wakeups and resets from interrupts: in every reachable state a producer blocked in
  \<^verbatim>\<open>put\<close> is the registered waiter of a full queue, a consumer blocked in
  \<^verbatim>\<open>get\<close> is the registered waiter of an empty queue, the two are never blocked at once,
  and the retry of a thread that is not blocked always goes through.\<close>

theorem queue_no_lost_wakeup:
  assumes "qreach storage s" "storage \<noteq> []"
  shows "(prod s = PBlocked x \<longrightarrow> waiting (queue s) = Some 1 \<and> q_isFull (queue s))
       \<and> (cons s = CBlocked \<longrightarrow> waiting (queue s) = Some 2 \<and> q_isEmpty (queue s))
       \<and> \<not> (prod s = PBlocked x \<and> cons s = CBlocked)
       \<and> (\<exists>s'. put_step x s = Inr s') \<and> (\<exists>r s'. get_step s = Inr (r, s'))"
proof -
  note inv = qreach_inv[OF assms]
  have "\<exists>s'. put_step x s = Inr s'" "\<exists>r s'. get_step s = Inr (r, s')"
    by (rule put_step_total[OF inv], rule get_step_total[OF inv])
  with inv show ?thesis by (auto simp: qsys_inv_def)
qed

lemma qreach_blocked_consumer:
  "qreach [0::nat] \<lparr>queue = \<lparr>buffer = [0], waiting = Some 2, numElem = 0, putPos = 0, getPos = 0\<rparr>,
                     prod = PIdle, cons = CBlocked\<rparr>" (is "qreach _ ?s")
proof -
  let ?i = "qsys_init [0::nat]"
  have "qstep ?i (?i\<lparr>cons := CTrying\<rparr>)"
    by (rule qstep.get_call) (simp add: qsys_init_def)
  moreover have "qstep (?i\<lparr>cons := CTrying\<rparr>) ?s"
    by (rule qstep.get_try[where r = None])
       (simp_all add: get_step_def qsys_init_def q_new_def IRQget_def q_isEmpty_def)
  ultimately show ?thesis using qreach.intros by metis
qed

theorem queue_no_lost_wakeup_witness:
  "q_isEmpty (queue \<lparr>queue = \<lparr>buffer = [0::nat], waiting = Some 2, numElem = 0, putPos = 0, getPos = 0\<rparr>,
                     prod = PIdle, cons = CBlocked\<rparr>)"
  using queue_no_lost_wakeup[OF qreach_blocked_consumer] by simp



text \<open>\<^verbatim>\<open>DynUnsyncQueue\<close>, capacity zero included, and \<^verbatim>\<open>BufferQueue\<close>, used
  with its fill and drain protocol, are bounded FIFOs too: no sequence of operations reaches an
  \<^verbatim>\<open>errorHandler\<close> call or an access out of range, and the data of a buffer comes out with
  the size it was filled with.\<close>

theorem unsync_and_buffer_queue_fifo:
  assumes "uq_inv u" "bq_inv b"
  shows "(\<exists>is os u'. uq.run ops u = Inr (is, os, u') \<and> uq_inv u'
           \<and> length (data u') = length (data u) \<and> uq_contents u @ is = os @ uq_contents u')
       \<and> (\<exists>is os b'. bq.run bops b = Inr (is, os, b') \<and> bq_inv b'
           \<and> length (buf b') = length (buf b) \<and> bq_contents b @ is = os @ bq_contents b')"
  using uq.run_fifo[OF assms(1)] bq.run_fifo[OF assms(2)] by blast

theorem unsync_and_buffer_queue_fifo_witness:
  "\<exists>is os b'. bq.run [Put (1::nat, 4), Put (2, 5), Put (3, 6), Get]
       \<lparr>buf = [0, 0], bufSize = [0, 0], bput = 1, bget = 1, cnt = 0\<rparr> = Inr (is, os, b')
     \<and> is = os @ bq_contents b'"
proof -
  let ?b = "\<lparr>buf = [0, 0], bufSize = [0, 0], bput = 1, bget = 1, cnt = 0\<rparr> :: nat BufferQueue"
  have "bq_inv ?b" "bq_contents ?b = []"
    by (simp_all add: bq_inv_def bq_contents_def ring_contents_def)
  with unsync_and_buffer_queue_fifo[of "uq_new [] :: nat DynUnsyncQueue" ?b "[]"
      "[Put (1, 4), Put (2, 5), Put (3, 6), Get]"] uq_inv_new
  show ?thesis by fastforce
qed

end
