(* ===== verification/Kernel_State.thy ===== *)
theory Kernel_State
  imports Sched_Queues
begin

text \<open>
  The state the scheduler, the thread operations and the synchronisation primitives share: the
  fields of \<^verbatim>\<open>class Thread\<close> they use with the \<^verbatim>\<open>ThreadFlags\<close> bits
  (\<^verbatim>\<open>kernel/thread.h\<close>), the fields of \<^verbatim>\<open>class Mutex\<close>, and the global
  variables of \<^verbatim>\<open>thread.cpp\<close>, \<^verbatim>\<open>lock.cpp\<close> and the scheduler.

  The number of cores is the length of \<open>runningThreads\<close>, the number of priorities the length of
  \<open>readyThreads\<close>. Setting the scheduler interrupt pending on a core appends the core to
  \<open>schedRequests\<close>; what the two timer functions of the board were last given is kept in
  \<open>osTimer\<close> and \<open>osPreemption\<close>.
\<close>

unbundle bit_operations_syntax

section \<open>Thread flags\<close>

definition WAIT :: "8 word" where "WAIT = 1"
definition SLEEP :: "8 word" where "SLEEP = 2"
definition DELETED :: "8 word" where "DELETED = 4"
definition DELETING :: "8 word" where "DELETING = 8"
definition DETACHED :: "8 word" where "DETACHED = 16"
definition WAIT_JOIN :: "8 word" where "WAIT_JOIN = 32"
definition USERSPACE :: "8 word" where "USERSPACE = 64"

lemmas flag_defs = WAIT_def SLEEP_def DELETED_def DELETING_def DETACHED_def WAIT_JOIN_def USERSPACE_def

definition isWaiting :: "8 word \<Rightarrow> bool" where "isWaiting f = (f AND WAIT \<noteq> 0)"
definition isSleeping :: "8 word \<Rightarrow> bool" where "isSleeping f = (f AND SLEEP \<noteq> 0)"
definition isDeleted :: "8 word \<Rightarrow> bool" where "isDeleted f = (f AND 0x14 = 0x14)"
definition isZombie :: "8 word \<Rightarrow> bool" where "isZombie f = (f AND DELETED \<noteq> 0)"
definition isDeleting :: "8 word \<Rightarrow> bool" where "isDeleting f = (f AND DELETING \<noteq> 0)"
definition isReady :: "8 word \<Rightarrow> bool" where "isReady f = (f AND 0x27 = 0)"
definition isDetached :: "8 word \<Rightarrow> bool" where "isDetached f = (f AND DETACHED \<noteq> 0)"
definition isWaitingJoin :: "8 word \<Rightarrow> bool" where "isWaitingJoin f = (f AND WAIT_JOIN \<noteq> 0)"
definition isInUserspace :: "8 word \<Rightarrow> bool" where "isInUserspace f = (f AND USERSPACE \<noteq> 0)"

section \<open>Threads, mutexes and the kernel variables\<close>

text \<open>\<^verbatim>\<open>joinData\<close> is a union.\<close>

datatype joinData = WaitingForJoin "tid option" | JoinResult nat

text \<open>\<open>stackOk\<close> is what the comparison of the saved stack pointer and of the watermark in
  \<^verbatim>\<open>IRQstackOverflowCheck\<close> finds.\<close>

record thread =
  priority :: int
  savedPriority :: int
  affinity :: "8 word"
  tflags :: "8 word"
  mutexLocked :: "mid option"
  mutexWaiting :: "mid option"
  joinData :: joinData
  stackOk :: bool

text \<open>A wait queue of the priority scheduler: null until the first use for statically
  initialised objects, then an array of lists.\<close>

type_synonym waitQueue = "tid PriorityQueue option"

record mutex =
  mowner :: "tid option"
  mdepth :: int
  mqueue :: waitQueue
  mnext :: "mid option"

datatype ctxptr = KernelCtx tid | UserCtx tid

type_synonym sleepToken = "tid \<times> int"

record kstate =
  threads :: "tid \<Rightarrow> thread"
  runningThreads :: "tid list"
  idle :: "tid list"
  readyThreads :: "tid PriorityQueue"
  notReadyThreads :: "tid list"
  sleepingList :: "sleepToken list"
  existDeleted :: bool
  freed :: "tid list"
  holdingCore :: "nat option"
  pendingWakeup :: bool
  ctxsave :: "nat \<Rightarrow> ctxptr"
  schedRequests :: "nat list"
  osTimer :: int
  osPreemption :: "nat \<Rightarrow> nat option"
  nextPreemption :: int
  mutexes :: "mid \<Rightarrow> mutex"

definition CPU_NUM_CORES :: "kstate \<Rightarrow> nat" where
  "CPU_NUM_CORES s = length (runningThreads s)"

definition NUM_PRIORITIES :: "kstate \<Rightarrow> nat" where
  "NUM_PRIORITIES s = length (readyThreads s)"

abbreviation prio :: "kstate \<Rightarrow> tid \<Rightarrow> int" where
  "prio s t \<equiv> priority (threads s t)"

abbreviation flagsOf :: "kstate \<Rightarrow> tid \<Rightarrow> 8 word" where
  "flagsOf s t \<equiv> tflags (threads s t)"

definition upd_thread :: "tid \<Rightarrow> (thread \<Rightarrow> thread) \<Rightarrow> kstate \<Rightarrow> kstate" where
  "upd_thread t f s = s\<lparr>threads := (threads s)(t := f (threads s t))\<rparr>"

definition upd_mutex :: "mid \<Rightarrow> (mutex \<Rightarrow> mutex) \<Rightarrow> kstate \<Rightarrow> kstate" where
  "upd_mutex m f s = s\<lparr>mutexes := (mutexes s)(m := f (mutexes s m))\<rparr>"

definition validate_priority :: "kstate \<Rightarrow> int \<Rightarrow> bool" where
  "validate_priority s p = (0 \<le> p \<and> p < int (NUM_PRIORITIES s))"

section \<open>Interrupts, locks and timers\<close>

definition IRQinvokeSchedulerOnCore :: "nat \<Rightarrow> kstate \<Rightarrow> kstate" where
  "IRQinvokeSchedulerOnCore c s = s\<lparr>schedRequests := schedRequests s @ [c]\<rparr>"

text \<open>\<^verbatim>\<open>IRQinvokeScheduler\<close> is the same for the core it is called on.\<close>

definition IRQinvokeScheduler :: "nat \<Rightarrow> kstate \<Rightarrow> kstate" where
  "IRQinvokeScheduler core s = IRQinvokeSchedulerOnCore core s"

definition IRQstackOverflowCheck :: "nat \<Rightarrow> kstate \<Rightarrow> kstate result" where
  "IRQstackOverflowCheck core s =
     ensure (stackOk (threads s (runningThreads s ! core))) STACK_OVERFLOW (Inr s)"

definition isKernelPaused :: "nat \<Rightarrow> kstate \<Rightarrow> bool" where
  "isKernelPaused core s = (holdingCore s = Some core)"

text \<open>Taking the lock that disables preemption. In an SMP kernel the hardware lock serialises the
  cores, so the lock is free when the function returns from the acquisition.\<close>

definition FastPauseKernelLock_lock :: "config \<Rightarrow> nat \<Rightarrow> kstate \<Rightarrow> kstate result" where
  "FastPauseKernelLock_lock cfg core s =
     ensure (extraChecks cfg = Kernel \<longrightarrow> \<not> isKernelPaused core s) UNEXPECTED
       (Inr (s\<lparr>holdingCore := Some (if with_smp cfg then core else 0)\<rparr>))"

definition FastPauseKernelLock_unlock :: "nat \<Rightarrow> kstate \<Rightarrow> kstate" where
  "FastPauseKernelLock_unlock core s =
     (let s1 = s\<lparr>holdingCore := None\<rparr>
      in if pendingWakeup s1 then IRQinvokeScheduler core (s1\<lparr>pendingWakeup := False\<rparr>) else s1)"

text \<open>\<^verbatim>\<open>basic_scheduler::IRQcomputePreemption\<close>. A time slice of zero is unbounded.\<close>

definition firstWakeup :: "kstate \<Rightarrow> int" where
  "firstWakeup s = (case sleepingList s of [] \<Rightarrow> max_ll | (t, w) # _ \<Rightarrow> w)"

definition WAKEUP_HANDLING_CORE :: "kstate \<Rightarrow> nat" where
  "WAKEUP_HANDLING_CORE s = CPU_NUM_CORES s - 1"

definition setPreemption :: "nat \<Rightarrow> nat \<Rightarrow> kstate \<Rightarrow> kstate" where
  "setPreemption core timeSlice s =
     (if timeSlice > 0 then s\<lparr>osPreemption := (osPreemption s)(core := Some timeSlice)\<rparr> else s)"

definition IRQcomputePreemption :: "config \<Rightarrow> int \<Rightarrow> nat \<Rightarrow> nat \<Rightarrow> kstate \<Rightarrow> kstate" where
  "IRQcomputePreemption cfg now core timeSlice s =
     (if unified_timer cfg \<and> (with_smp cfg \<longrightarrow> core = WAKEUP_HANDLING_CORE s) then
        (let nextPreempt = (if timeSlice > 0 then now + int timeSlice else max_ll)
         in s\<lparr>nextPreemption := nextPreempt, osTimer := min (firstWakeup s) nextPreempt\<rparr>)
      else setPreemption core timeSlice s)"

definition MAX_TIME_SLICE :: nat where
  "MAX_TIME_SLICE = 1000000"

section \<open>Lemmas on the flags\<close>

text \<open>Every predicate on the flags in terms of single bits.\<close>

lemma All_less_8: "(\<forall>n < 8. P n) \<longleftrightarrow> P 0 \<and> P 1 \<and> P 2 \<and> P 3 \<and> P 4 \<and> P 5 \<and> P 6 \<and> P (7::nat)"
  by (simp add: numeral_eq_Suc All_less_Suc) blast

lemma byte_eq_iff: "f = g \<longleftrightarrow> (\<forall>n < 8. bit f n = bit g n)" for f g :: "8 word"
  by (auto simp: bit_eq_iff dest: bit_imp_le_length)

lemma flag_bits:
  "isWaiting f \<longleftrightarrow> bit f 0" "isSleeping f \<longleftrightarrow> bit f 1" "isZombie f \<longleftrightarrow> bit f 2"
  "isDeleting f \<longleftrightarrow> bit f 3" "isDetached f \<longleftrightarrow> bit f 4" "isWaitingJoin f \<longleftrightarrow> bit f 5"
  "isInUserspace f \<longleftrightarrow> bit f 6"
  "isReady f \<longleftrightarrow> \<not> bit f 0 \<and> \<not> bit f 1 \<and> \<not> bit f 2 \<and> \<not> bit f 5"
  "isDeleted f \<longleftrightarrow> bit f 2 \<and> bit f 4"
  by (simp_all add: isWaiting_def isSleeping_def isZombie_def isDeleting_def isDetached_def
      isWaitingJoin_def isInUserspace_def isReady_def isDeleted_def flag_defs
      byte_eq_iff All_less_8 bit_and_iff bit_numeral_rec bit_1_iff)

lemma flag_update_bits:
  "n < 8 \<Longrightarrow> bit (f OR WAIT) n \<longleftrightarrow> bit f n \<or> n = 0"
  "n < 8 \<Longrightarrow> bit (f OR SLEEP) n \<longleftrightarrow> bit f n \<or> n = 1"
  "n < 8 \<Longrightarrow> bit (f OR DELETED) n \<longleftrightarrow> bit f n \<or> n = 2"
  "n < 8 \<Longrightarrow> bit (f OR DELETING) n \<longleftrightarrow> bit f n \<or> n = 3"
  "n < 8 \<Longrightarrow> bit (f OR DETACHED) n \<longleftrightarrow> bit f n \<or> n = 4"
  "n < 8 \<Longrightarrow> bit (f OR WAIT_JOIN) n \<longleftrightarrow> bit f n \<or> n = 5"
  "n < 8 \<Longrightarrow> bit (f OR USERSPACE) n \<longleftrightarrow> bit f n \<or> n = 6"
  "n < 8 \<Longrightarrow> bit (f AND NOT WAIT) n \<longleftrightarrow> bit f n \<and> n \<noteq> 0"
  "n < 8 \<Longrightarrow> bit (f AND NOT (WAIT OR SLEEP)) n \<longleftrightarrow> bit f n \<and> n \<noteq> 0 \<and> n \<noteq> 1"
  "n < 8 \<Longrightarrow> bit (f AND NOT WAIT_JOIN) n \<longleftrightarrow> bit f n \<and> n \<noteq> 5"
  "n < 8 \<Longrightarrow> bit (f AND NOT USERSPACE) n \<longleftrightarrow> bit f n \<and> n \<noteq> 6"
  by (auto simp: flag_defs bit_or_iff bit_and_iff bit_not_iff numeral_eq_Suc less_Suc_eq bit_Suc bit_0)

end
