(* ===== verification/Scheduler_Interface.thy ===== *)
theory Scheduler_Interface
  imports Kernel_State
begin

text \<open>
  The interface \<^verbatim>\<open>basic_scheduler\<close> of \<^verbatim>\<open>kernel/scheduler/scheduler.h\<close>, behind which the kernel selects
  one of the schedulers at compile time. The locale states what the rest of the kernel relies on when
  it runs the scheduler on a core and when it wakes a thread, and shows that any interleaving of the
  two on any cores goes on without error and without losing a thread.
\<close>

text \<open>What makes the scheduler act: an interrupt or a yield on a core at some time, and the wakeup of a
  thread, with the flags it has afterwards.\<close>

datatype sched_event = Run int nat | Wakeup tid "8 word"

fun sched_events :: "(int \<Rightarrow> nat \<Rightarrow> 's \<Rightarrow> 's result) \<Rightarrow> (tid \<Rightarrow> 8 word \<Rightarrow> 's \<Rightarrow> 's result) \<Rightarrow> ('s \<Rightarrow> tid list)
    \<Rightarrow> sched_event list \<Rightarrow> 's \<Rightarrow> 's result" where
  "sched_events run wake blocked [] s = Inr s"
| "sched_events run wake blocked (Run now core # es) s =
     rbind (run now core s) (sched_events run wake blocked es)"
| "sched_events run wake blocked (Wakeup t f # es) s =
     (if t \<in> set (blocked s) \<and> isReady f then rbind (wake t f s) (sched_events run wake blocked es)
      else sched_events run wake blocked es s)"

fun event_core_ok :: "nat \<Rightarrow> sched_event \<Rightarrow> bool" where
  "event_core_ok cores (Run now core) = (core < cores)"
| "event_core_ok cores (Wakeup t f) = True"

locale basic_scheduler =
  fixes inv :: "'s \<Rightarrow> bool" and members :: "'s \<Rightarrow> tid multiset" and cores :: "'s \<Rightarrow> nat"
    and run :: "int \<Rightarrow> nat \<Rightarrow> 's \<Rightarrow> 's result"
    and wake :: "tid \<Rightarrow> 8 word \<Rightarrow> 's \<Rightarrow> 's result" and blocked :: "'s \<Rightarrow> tid list"
  assumes run_ok: "inv s \<Longrightarrow> core < cores s \<Longrightarrow>
      \<exists>s'. run now core s = Inr s' \<and> inv s' \<and> members s' = members s \<and> cores s' = cores s"
    and wake_ok: "inv s \<Longrightarrow> t \<in> set (blocked s) \<Longrightarrow> isReady f \<Longrightarrow>
      \<exists>s'. wake t f s = Inr s' \<and> inv s' \<and> members s' = members s \<and> cores s' = cores s"
begin

lemma events_ok:
  assumes "inv s" "list_all (event_core_ok (cores s)) es"
  shows "\<exists>s'. sched_events run wake blocked es s = Inr s' \<and> inv s' \<and> members s' = members s \<and> cores s' = cores s"
  using assms
proof (induction es arbitrary: s)
  case (Cons e es)
  show ?case
  proof (cases e)
    case (Run now core)
    then obtain s1 where "run now core s = Inr s1" "inv s1" "members s1 = members s" "cores s1 = cores s"
      using run_ok[of s core now] Cons.prems by auto
    then show ?thesis using Cons.IH[of s1] Cons.prems(2) Run by auto
  next
    case (Wakeup t f)
    show ?thesis
    proof (cases "t \<in> set (blocked s) \<and> isReady f")
      case True
      then obtain s1 where "wake t f s = Inr s1" "inv s1" "members s1 = members s" "cores s1 = cores s"
        using wake_ok[of s t f] Cons.prems(1) by auto
      then show ?thesis using Cons.IH[of s1] Cons.prems(2) Wakeup True by auto
    next
      case False
      then show ?thesis using Cons.IH[of s] Cons.prems Wakeup by auto
    qed
  qed
qed simp

end

end
