(* ===== verification/Priority_Scheduler.thy ===== *)
theory Priority_Scheduler
  imports Scheduler_Interface
begin

text \<open>
  The fixed priority round-robin scheduler, \<^verbatim>\<open>kernel/scheduler/priority\<close>: adding a
  thread, changing a priority, the transition to ready, the reclaiming of terminated threads, and
  \<^verbatim>\<open>IRQrunScheduler\<close> in its three compile-time variants (single core, SMP, SMP with
  thread affinity).

  The lists of the scheduler are intrusive lists of threads. A thread is in at most one of them, so
  removing a thread from a list it is not in while it is linked in another one corrupts both: the
  model returns \<open>ListCorruption\<close> for it.
\<close>

section \<open>Operations\<close>

definition ready_push :: "tid \<Rightarrow> kstate \<Rightarrow> kstate result" where
  "ready_push t s = rbind (pq_enqueue t (prio s t) (readyThreads s))
     (\<lambda>q. Inr (s\<lparr>readyThreads := q\<rparr>))"

definition IRQaddThread :: "config \<Rightarrow> tid \<Rightarrow> int \<Rightarrow> kstate \<Rightarrow> (bool \<times> kstate) result" where
  "IRQaddThread cfg t p s =
     (let s1 = upd_thread t (\<lambda>th. th\<lparr>priority := p, savedPriority := p\<rparr>) s
      in if with_processes cfg \<and> \<not> isReady (flagsOf s1 t)
         then Inr (True, s1\<lparr>notReadyThreads := t # notReadyThreads s1\<rparr>)
         else rbind (ready_push t s1) (\<lambda>s2. Inr (True, s2)))"

definition IRQexists :: "tid \<Rightarrow> kstate \<Rightarrow> bool" where
  "IRQexists t s =
     (if t \<in> set (runningThreads s) then \<not> isDeleted (flagsOf s t)
      else if t \<in> set (concat (readyThreads s)) then True
      else if t \<in> set (notReadyThreads s) then \<not> isDeleted (flagsOf s t)
      else False)"

text \<open>The loop takes the last thread of the list until it is not a deleted one.\<close>

function removeDeadThreads :: "kstate \<Rightarrow> kstate" where
  "removeDeadThreads s =
     (if notReadyThreads s = [] then s
      else let t = last (notReadyThreads s)
           in if \<not> isDeleted (flagsOf s t) then s
              else removeDeadThreads
                (s\<lparr>notReadyThreads := butlast (notReadyThreads s), freed := freed s @ [t]\<rparr>))"
  by pat_completeness auto
termination
  by (relation "measure (\<lambda>s. length (notReadyThreads s))") auto

declare removeDeadThreads.simps [simp del]

definition IRQsetPriority :: "ExtraChecks \<Rightarrow> tid \<Rightarrow> int \<Rightarrow> kstate \<Rightarrow> kstate result" where
  "IRQsetPriority ck t newPriority s =
     ensure (ck = Kernel \<longrightarrow> \<not> isZombie (flagsOf s t)) UNEXPECTED
      (if t \<in> set (runningThreads s) \<or> \<not> isReady (flagsOf s t)
       then Inr (upd_thread t (\<lambda>th. th\<lparr>priority := newPriority\<rparr>) s)
       else rbind (pq_remove t (prio s t) (readyThreads s)) (\<lambda>q.
            rbind (pq_enqueue t newPriority q) (\<lambda>q'.
            Inr (upd_thread t (\<lambda>th. th\<lparr>priority := newPriority\<rparr>) (s\<lparr>readyThreads := q'\<rparr>)))))"

definition IRQsetIdleThread :: "nat \<Rightarrow> tid \<Rightarrow> kstate \<Rightarrow> kstate" where
  "IRQsetIdleThread whichCore t s =
     (let s1 = upd_thread t (\<lambda>th. th\<lparr>priority := -1, savedPriority := -1\<rparr>) s
      in s1\<lparr>idle := (idle s1)[whichCore := t]\<rparr>)"

definition IRQwokenThread :: "tid \<Rightarrow> kstate \<Rightarrow> kstate result" where
  "IRQwokenThread t s =
     (if t \<in> set (runningThreads s) then Inr s
      else rbind (if t \<in> set (notReadyThreads s)
                  then Inr (s\<lparr>notReadyThreads := remove1 t (notReadyThreads s)\<rparr>)
                  else ensure (t \<notin> set (concat (readyThreads s))) ListCorruption (Inr s))
             (ready_push t))"

section \<open>IRQrunScheduler\<close>

text \<open>The previously running thread goes back to a list, unless it is the idle thread.\<close>

definition put_prev :: "nat \<Rightarrow> kstate \<Rightarrow> kstate result" where
  "put_prev core s =
     (let prev = runningThreads s ! core in
      if prev = idle s ! core then Inr s
      else if isZombie (flagsOf s prev) then Inr (s\<lparr>notReadyThreads := notReadyThreads s @ [prev]\<rparr>)
      else if \<not> isReady (flagsOf s prev) then Inr (s\<lparr>notReadyThreads := prev # notReadyThreads s\<rparr>)
      else ready_push prev s)"

text \<open>The priorities of the running threads, with that of the current core set to the maximum so
  as to exclude it.\<close>

definition runningPrio :: "nat \<Rightarrow> kstate \<Rightarrow> int list" where
  "runningPrio core s = (map (prio s) (runningThreads s))[core := int (NUM_PRIORITIES s) - 1]"

text \<open>Making a thread the running one: the saved context, the memory protection unit follows the
  context, and the preemption timer.\<close>

definition run_thread :: "config \<Rightarrow> int \<Rightarrow> nat \<Rightarrow> tid \<Rightarrow> kstate \<Rightarrow> kstate" where
  "run_thread cfg now core t s =
     IRQcomputePreemption cfg now core MAX_TIME_SLICE
      (s\<lparr>runningThreads := (runningThreads s)[core := t],
         ctxsave := (ctxsave s)(core :=
           (if with_processes cfg \<and> isInUserspace (flagsOf s t) then UserCtx t else KernelCtx t))\<rparr>)"

definition run_idle :: "config \<Rightarrow> int \<Rightarrow> nat \<Rightarrow> kstate \<Rightarrow> kstate" where
  "run_idle cfg now core s =
     IRQcomputePreemption cfg now core 0
      (s\<lparr>runningThreads := (runningThreads s)[core := idle s ! core],
         ctxsave := (ctxsave s)(core := KernelCtx (idle s ! core))\<rparr>)"

text \<open>The first core with the lowest running priority: the loop from core 1 with the values
  found so far.\<close>

fun min_running :: "int list \<Rightarrow> nat \<Rightarrow> int \<Rightarrow> nat \<Rightarrow> int \<times> nat" where
  "min_running [] c m k = (m, k)"
| "min_running (p # ps) c m k =
     (if p < m then min_running ps (Suc c) p c else min_running ps (Suc c) m k)"

text \<open>The inner loop \<^verbatim>\<open>for(;prio>minRunningPriority;prio--)\<close>, from the priority below
  \<open>n\<close>, for a list that is not empty.\<close>

fun higher_ready :: "'a PriorityQueue \<Rightarrow> nat \<Rightarrow> int \<Rightarrow> bool" where
  "higher_ready q 0 m = False"
| "higher_ready q (Suc p) m = (m < int p \<and> (q ! p \<noteq> [] \<or> higher_ready q p m))"

definition smp_followup :: "int list \<Rightarrow> nat \<Rightarrow> kstate \<Rightarrow> kstate" where
  "smp_followup rp p s =
     (let (m, c) = min_running (tl rp) 1 (hd rp) 0
      in if higher_ready (readyThreads s) (Suc p) m then IRQinvokeSchedulerOnCore c s else s)"

text \<open>With affinity: the first core the thread may run on whose running priority is not higher
  than \<open>p\<close>.\<close>

definition affine :: "8 word \<Rightarrow> nat \<Rightarrow> bool" where
  "affine a c = (a AND push_bit c 1 \<noteq> 0)"

fun other_core :: "8 word \<Rightarrow> nat \<Rightarrow> int list \<Rightarrow> nat \<Rightarrow> nat option" where
  "other_core a p [] c = None"
| "other_core a p (r # rs) c =
     (if \<not> affine a c then other_core a p rs (Suc c)
      else if int p < r then other_core a p rs (Suc c)
      else Some c)"

text \<open>One ready list: the first thread that may run on this core and the list without it, and
  the core found so far for a thread that may not (\<^verbatim>\<open>scheduleOnOtherCore\<close>).\<close>

fun scan_affine :: "(tid \<Rightarrow> 8 word) \<Rightarrow> nat \<Rightarrow> int list \<Rightarrow> nat \<Rightarrow> tid list \<Rightarrow> nat option \<Rightarrow> tid option \<times> tid list \<times> nat option" where
  "scan_affine aff core rp p [] oc = (None, [], oc)"
| "scan_affine aff core rp p (x # xs) oc =
     (if affine (aff x) core then (Some x, xs, oc)
      else let oc' = (case oc of Some c \<Rightarrow> Some c | None \<Rightarrow> other_core (aff x) p rp 0);
               (t, rest, oc'') = scan_affine aff core rp p xs oc'
           in (t, x # rest, oc''))"

fun select_affine :: "(tid \<Rightarrow> 8 word) \<Rightarrow> nat \<Rightarrow> int list \<Rightarrow> tid PriorityQueue \<Rightarrow> nat \<Rightarrow> nat option \<Rightarrow> (tid \<times> nat) option \<times> tid PriorityQueue \<times> nat option" where
  "select_affine aff core rp q 0 oc = (None, q, oc)"
| "select_affine aff core rp q (Suc p) oc =
     (let (t, rest, oc') = scan_affine aff core rp p (q ! p) oc
      in case t of
           None \<Rightarrow> select_affine aff core rp q p oc'
         | Some x \<Rightarrow> (Some (x, p), q[p := rest], oc'))"

fun first_preemptable :: "(tid \<Rightarrow> 8 word) \<Rightarrow> int list \<Rightarrow> nat \<Rightarrow> tid list \<Rightarrow> nat option" where
  "first_preemptable aff rp p [] = None"
| "first_preemptable aff rp p (x # xs) =
     (case other_core (aff x) p rp 0 of Some c \<Rightarrow> Some c | None \<Rightarrow> first_preemptable aff rp p xs)"

fun higher_ready_affine :: "(tid \<Rightarrow> 8 word) \<Rightarrow> int list \<Rightarrow> tid PriorityQueue \<Rightarrow> nat \<Rightarrow> int \<Rightarrow> nat option" where
  "higher_ready_affine aff rp q 0 m = None"
| "higher_ready_affine aff rp q (Suc p) m =
     (if int p \<le> m then None
      else case first_preemptable aff rp p (q ! p) of
             Some c \<Rightarrow> Some c
           | None \<Rightarrow> higher_ready_affine aff rp q p m)"

definition affinity_followup :: "int list \<Rightarrow> nat \<Rightarrow> nat option \<Rightarrow> kstate \<Rightarrow> kstate" where
  "affinity_followup rp p oc s =
     (case oc of
        Some _ \<Rightarrow> s
      | None \<Rightarrow>
          (case higher_ready_affine (\<lambda>t. affinity (threads s t)) rp (readyThreads s) (Suc p)
                  (fst (min_running (tl rp) 1 (hd rp) 0)) of
             Some c \<Rightarrow> IRQinvokeSchedulerOnCore c s
           | None \<Rightarrow> s))"

definition schedule_affine :: "config \<Rightarrow> int \<Rightarrow> nat \<Rightarrow> kstate \<Rightarrow> kstate" where
  "schedule_affine cfg now core s =
     (let rp = runningPrio core s;
          (sel, q, oc) = select_affine (\<lambda>t. affinity (threads s t)) core rp (readyThreads s)
                           (NUM_PRIORITIES s) None
      in case sel of
           Some (t, p) \<Rightarrow> affinity_followup rp p oc (run_thread cfg now core t (s\<lparr>readyThreads := q\<rparr>))
         | None \<Rightarrow> run_idle cfg now core
             (case oc of Some c \<Rightarrow> IRQinvokeSchedulerOnCore c s | None \<Rightarrow> s))"

definition schedule_plain :: "config \<Rightarrow> int \<Rightarrow> nat \<Rightarrow> kstate \<Rightarrow> kstate" where
  "schedule_plain cfg now core s =
     (let rp = runningPrio core s
      in case scan_down (readyThreads s) (NUM_PRIORITIES s) of
           Some p \<Rightarrow>
             (let t = hd (readyThreads s ! p);
                  s1 = run_thread cfg now core t
                         (s\<lparr>readyThreads := (readyThreads s)[p := tl (readyThreads s ! p)]\<rparr>)
              in if with_smp cfg then smp_followup rp p s1 else s1)
         | None \<Rightarrow> run_idle cfg now core s)"

definition IRQrunScheduler :: "config \<Rightarrow> int \<Rightarrow> nat \<Rightarrow> kstate \<Rightarrow> kstate result" where
  "IRQrunScheduler cfg now core s =
     rbind (IRQstackOverflowCheck core s) (\<lambda>s.
       if holdingCore s = Some core then Inr (s\<lparr>pendingWakeup := True\<rparr>)
       else rbind (put_prev core s) (\<lambda>s.
         Inr (if with_affinity cfg \<and> with_smp cfg then schedule_affine cfg now core s
              else schedule_plain cfg now core s)))"


text \<open>The scheduler interrupts a run of the scheduler raises, served one after the other: run the
  scheduler on a core, then on the core that run asked for, until a run asks for none. The result is
  \<open>None\<close> if the fuel is used up or a run fails.\<close>

fun settle :: "nat \<Rightarrow> config \<Rightarrow> int \<Rightarrow> nat \<Rightarrow> kstate \<Rightarrow> kstate option" where
  "settle 0 cfg now core s = None"
| "settle (Suc fuel) cfg now core s = (case IRQrunScheduler cfg now core s of
      Inl _ \<Rightarrow> None
    | Inr s' \<Rightarrow> if schedRequests s' = schedRequests s then Some s'
               else settle fuel cfg now (last (schedRequests s')) s')"

section \<open>The scheduler invariant\<close>

text \<open>The running threads that are not idle threads, and all threads the scheduler knows.\<close>

definition busy :: "kstate \<Rightarrow> tid list" where
  "busy s = filter (\<lambda>t. t \<notin> set (idle s)) (runningThreads s)"

definition all_threads :: "kstate \<Rightarrow> tid list" where
  "all_threads s = concat (readyThreads s) @ notReadyThreads s @ busy s @ idle s"

definition prio_ok :: "nat \<Rightarrow> kstate \<Rightarrow> tid \<Rightarrow> bool" where
  "prio_ok n s t = (0 \<le> prio s t \<and> prio s t < int n)"

definition idle_home :: "kstate \<Rightarrow> bool" where
  "idle_home s = (\<forall>c < length (idle s).
     runningThreads s ! c \<in> set (idle s) \<longrightarrow> runningThreads s ! c = idle s ! c)"

text \<open>Every thread is in exactly one place; the ready lists hold the ready threads of their
  priority; in the list of the threads that are not ready the terminated ones are at the back; an
  idle thread runs only on its own core.\<close>

definition sched_inv :: "nat \<Rightarrow> kstate \<Rightarrow> bool" where
  "sched_inv n s =
     (0 < n \<and> pq_inv n (prio s) (readyThreads s)
      \<and> length (runningThreads s) = length (idle s) \<and> 0 < length (idle s)
      \<and> distinct (all_threads s)
      \<and> idle_home s
      \<and> list_all (\<lambda>t. isReady (flagsOf s t)) (concat (readyThreads s))
      \<and> list_all (\<lambda>t. \<not> isReady (flagsOf s t) \<and> prio_ok n s t) (notReadyThreads s)
      \<and> list_all (prio_ok n s) (busy s)
      \<and> list_all (\<lambda>t. prio s t = -1 \<and> isReady (flagsOf s t)) (idle s)
      \<and> sorted_wrt (\<lambda>x y. isZombie (flagsOf s x) \<longrightarrow> isZombie (flagsOf s y)) (notReadyThreads s))"

lemma sched_inv_cong:
  assumes "threads s' = threads s" "runningThreads s' = runningThreads s" "idle s' = idle s"
    "readyThreads s' = readyThreads s" "notReadyThreads s' = notReadyThreads s"
  shows "sched_inv n s' = sched_inv n s" "all_threads s' = all_threads s"
  by (simp_all only: sched_inv_def all_threads_def busy_def idle_home_def prio_ok_def[abs_def] assms)

lemma busy_update:
  assumes "core < length (runningThreads s)" "runningThreads s ! core \<in> set (idle s)"
    "t \<notin> set (idle s)"
  shows "mset (busy (s\<lparr>runningThreads := (runningThreads s)[core := t]\<rparr>)) = add_mset t (mset (busy s))"
  using assms by (simp add: busy_def mset_filter mset_update)

lemma busy_park:
  assumes "core < length (runningThreads s)" "runningThreads s ! core \<notin> set (idle s)"
    "i \<in> set (idle s)"
  shows "mset (busy s) = add_mset (runningThreads s ! core)
           (mset (busy (s\<lparr>runningThreads := (runningThreads s)[core := i]\<rparr>)))"
  using assms by (simp add: busy_def mset_filter mset_update)

lemma list_all_mset: "mset xs = mset ys \<Longrightarrow> list_all P xs = list_all P ys"
  unfolding list_all_iff by (drule mset_eq_setD) simp

lemma list_all_add_mset: "mset xs = add_mset y (mset ys) \<Longrightarrow> list_all P xs = (P y \<and> list_all P ys)"
  using list_all_mset[of xs "y # ys" P] by simp

lemma distinct_mset: "mset xs = mset ys \<Longrightarrow> distinct xs = distinct ys"
  by (rule mset_eq_imp_distinct_iff)

text \<open>The state with the idle thread in the place of the thread running on a core: where the
  scheduler is between putting the previous thread in a list and choosing the next one.\<close>

definition park :: "nat \<Rightarrow> kstate \<Rightarrow> kstate" where
  "park core s = s\<lparr>runningThreads := (runningThreads s)[core := idle s ! core]\<rparr>"

lemma park_fields [simp]:
  "threads (park core s) = threads s" "idle (park core s) = idle s"
  "readyThreads (park core s) = readyThreads s" "notReadyThreads (park core s) = notReadyThreads s"
  "runningThreads (park core s) = (runningThreads s)[core := idle s ! core]"
  "schedRequests (park core s) = schedRequests s" "holdingCore (park core s) = holdingCore s"
  "NUM_PRIORITIES (park core s) = NUM_PRIORITIES s"
  by (simp_all add: park_def NUM_PRIORITIES_def)

lemma sched_inv_prioD:
  "sched_inv n s \<Longrightarrow> t \<in> set (notReadyThreads s) \<union> set (busy s) \<Longrightarrow> prio_ok n s t"
  by (auto simp: sched_inv_def list_all_iff)

lemma sched_inv_idle_notin:
  assumes "sched_inv n s" "t \<in> set (idle s)"
  shows "t \<notin> set (concat (readyThreads s))" "t \<notin> set (notReadyThreads s)" "t \<notin> set (busy s)"
proof -
  have "distinct (all_threads s)" using assms(1) by (simp only: sched_inv_def)
  then show "t \<notin> set (concat (readyThreads s))" "t \<notin> set (notReadyThreads s)" "t \<notin> set (busy s)"
    using assms(2) by (auto simp: all_threads_def simp del: set_concat)
qed

lemma sched_invD:
  assumes "sched_inv n s"
  shows "0 < n" "pq_inv n (prio s) (readyThreads s)" "length (runningThreads s) = length (idle s)"
    "0 < length (idle s)" "distinct (all_threads s)" "idle_home s"
    "list_all (\<lambda>t. isReady (flagsOf s t)) (concat (readyThreads s))"
    "list_all (\<lambda>t. \<not> isReady (flagsOf s t) \<and> prio_ok n s t) (notReadyThreads s)"
    "list_all (prio_ok n s) (busy s)"
    "list_all (\<lambda>t. prio s t = -1 \<and> isReady (flagsOf s t)) (idle s)"
    "sorted_wrt (\<lambda>x y. isZombie (flagsOf s x) \<longrightarrow> isZombie (flagsOf s y)) (notReadyThreads s)"
    "length (readyThreads s) = n"
  using assms unfolding sched_inv_def pq_inv_def by blast+

lemma idle_home_nth:
  "idle_home s \<Longrightarrow> c < length (idle s) \<Longrightarrow> runningThreads s ! c \<in> set (idle s)
     \<Longrightarrow> runningThreads s ! c = idle s ! c"
  unfolding idle_home_def by blast

lemma idle_home_update:
  assumes "idle_home s" "length (runningThreads s) = length (idle s)"
    "t \<in> set (idle s) \<Longrightarrow> t = idle s ! core"
  shows "idle_home (s\<lparr>runningThreads := (runningThreads s)[core := t]\<rparr>)"
  unfolding idle_home_def
proof (intro allI impI)
  fix c
  assume c: "c < length (idle (s\<lparr>runningThreads := (runningThreads s)[core := t]\<rparr>))"
    and m: "runningThreads (s\<lparr>runningThreads := (runningThreads s)[core := t]\<rparr>) ! c
              \<in> set (idle (s\<lparr>runningThreads := (runningThreads s)[core := t]\<rparr>))"
  show "runningThreads (s\<lparr>runningThreads := (runningThreads s)[core := t]\<rparr>) ! c
          = idle (s\<lparr>runningThreads := (runningThreads s)[core := t]\<rparr>) ! c"
    using assms c m idle_home_nth[OF assms(1), of c] by (cases "c = core") simp_all
qed

text \<open>Taking a thread out of the ready lists and running it keeps the invariant.\<close>

lemma dispatch_inv:
  assumes inv: "sched_inv n s" and core: "core < length (idle s)"
    and home: "runningThreads s ! core = idle s ! core"
    and q: "pq_inv n (prio s) q" "mset (concat (readyThreads s)) = add_mset t (mset (concat q))"
  shows "sched_inv n (s\<lparr>readyThreads := q, runningThreads := (runningThreads s)[core := t]\<rparr>)"
    and "mset (all_threads (s\<lparr>readyThreads := q, runningThreads := (runningThreads s)[core := t]\<rparr>))
           = mset (all_threads s)"
proof -
  note d = sched_invD[OF inv]
  let ?s = "s\<lparr>runningThreads := (runningThreads s)[core := t]\<rparr>"
  let ?s' = "s\<lparr>readyThreads := q, runningThreads := (runningThreads s)[core := t]\<rparr>"
  have tin: "t \<in> set (concat (readyThreads s))"
    using q(2) by (metis set_mset_mset union_single_eq_member)
  have tni: "t \<notin> set (idle s)" using sched_inv_idle_notin(1)[OF inv] tin by blast
  have busy: "mset (busy ?s') = add_mset t (mset (busy s))"
    using busy_update[of core s t] core d(3) home tni by (simp add: busy_def)
  show all: "mset (all_threads ?s') = mset (all_threads s)"
    using busy q(2) by (simp add: all_threads_def)
  have prio: "prio_ok n s t"
    using pq_inv_member[OF d(2)] tin by (auto simp: prio_ok_def)
  have home': "idle_home ?s'"
    using idle_home_update[OF d(6) d(3), of t core] tni by (simp add: idle_home_def)
  have po: "prio_ok n ?s' = prio_ok n s" by (simp add: prio_ok_def fun_eq_iff)
  show "sched_inv n ?s'"
    unfolding sched_inv_def po
    using d home' prio q(1) distinct_mset[OF all] list_all_add_mset[OF busy] list_all_add_mset[OF q(2)]
    by simp
qed

text \<open>Putting the running thread in one of the lists keeps the invariant, with the idle thread
  in its place.\<close>

lemma park_inv:
  assumes inv: "sched_inv n s" and core: "core < length (idle s)"
    and prev: "runningThreads s ! core = p" "p \<notin> set (idle s)"
    and q: "pq_inv n (prio s) q"
    and m: "mset (concat q) + mset r = add_mset p (mset (concat (readyThreads s)) + mset (notReadyThreads s))"
    and fl: "list_all (\<lambda>t. isReady (flagsOf s t)) (concat q)"
      "list_all (\<lambda>t. \<not> isReady (flagsOf s t) \<and> prio_ok n s t) r"
    and z: "sorted_wrt (\<lambda>x y. isZombie (flagsOf s x) \<longrightarrow> isZombie (flagsOf s y)) r"
  shows "sched_inv n (park core (s\<lparr>readyThreads := q, notReadyThreads := r\<rparr>))"
    and "mset (all_threads (park core (s\<lparr>readyThreads := q, notReadyThreads := r\<rparr>))) = mset (all_threads s)"
proof -
  note d = sched_invD[OF inv]
  let ?s' = "park core (s\<lparr>readyThreads := q, notReadyThreads := r\<rparr>)"
  have i: "idle s ! core \<in> set (idle s)" using core by simp
  have busy: "mset (busy s) = add_mset p (mset (busy ?s'))"
    using busy_park[of core s "idle s ! core"] core d(3) prev i by (simp add: busy_def park_def)
  show all: "mset (all_threads ?s') = mset (all_threads s)"
    using busy m by (simp add: all_threads_def add.assoc[symmetric])
  have home': "idle_home ?s'"
    using idle_home_update[OF d(6) d(3), of "idle s ! core" core] by (simp add: idle_home_def)
  have po: "prio_ok n ?s' = prio_ok n s" by (simp add: prio_ok_def fun_eq_iff)
  show "sched_inv n ?s'"
    unfolding sched_inv_def po
    using d home' q fl z distinct_mset[OF all] list_all_add_mset[OF busy] by simp
qed

text \<open>The ready threads in the order the scheduler considers them, after the previous thread of
  the core went back behind its equals if it is still ready.\<close>

definition candidates :: "nat \<Rightarrow> kstate \<Rightarrow> tid list" where
  "candidates core s =
     (let prev = runningThreads s ! core; xs = pq_items (readyThreads s)
      in if prev = idle s ! core \<or> \<not> isReady (flagsOf s prev) then xs
         else filter (\<lambda>t. prio s prev \<le> prio s t) xs @ prev # filter (\<lambda>t. prio s t < prio s prev) xs)"

lemma zombie_not_ready: "isZombie f \<Longrightarrow> \<not> isReady f"
  by (simp add: flag_bits)

lemma put_prev_spec:
  assumes inv: "sched_inv n s" and core: "core < length (idle s)"
  shows "\<exists>q r. put_prev core s = Inr (s\<lparr>readyThreads := q, notReadyThreads := r\<rparr>)
           \<and> sched_inv n (park core (s\<lparr>readyThreads := q, notReadyThreads := r\<rparr>))
           \<and> mset (all_threads (park core (s\<lparr>readyThreads := q, notReadyThreads := r\<rparr>))) = mset (all_threads s)
           \<and> pq_items q = candidates core s"
proof -
  note d = sched_invD[OF inv]
  let ?p = "runningThreads s ! core"
  let ?f = "flagsOf s ?p"
  show ?thesis
  proof (cases "?p = idle s ! core")
    case True
    then have "park core s = s" by (simp add: park_def list_update_id flip: True)
    then show ?thesis
      using True inv by (intro exI[of _ "readyThreads s"] exI[of _ "notReadyThreads s"])
        (simp add: put_prev_def candidates_def)
  next
    case False
    then have ni: "?p \<notin> set (idle s)" using idle_home_nth[OF d(6) core] by blast
    then have pb: "?p \<in> set (busy s)" using core d(3) by (simp add: busy_def)
    then have pr: "prio_ok n s ?p" and out: "?p \<notin> set (concat (readyThreads s))"
      using sched_inv_prioD[OF inv] d(5) by (auto simp: all_threads_def simp del: set_concat)
    consider (z) "isZombie ?f" | (n) "\<not> isZombie ?f" "\<not> isReady ?f" | (r) "isReady ?f" by blast
    then show ?thesis
    proof cases
      case z
      then show ?thesis
        using False park_inv[OF inv core refl ni, of "readyThreads s" "notReadyThreads s @ [?p]"] d pr
        by (intro exI[of _ "readyThreads s"] exI[of _ "notReadyThreads s @ [?p]"])
          (simp add: put_prev_def candidates_def zombie_not_ready sorted_wrt_append)
    next
      case n
      then show ?thesis
        using False park_inv[OF inv core refl ni, of "readyThreads s" "?p # notReadyThreads s"] d pr
        by (intro exI[of _ "readyThreads s"] exI[of _ "?p # notReadyThreads s"])
          (simp add: put_prev_def candidates_def)
    next
      case r
      have kp: "0 \<le> prio s ?p" "prio s ?p < int n" using pr by (simp_all add: prio_ok_def)
      obtain q where q: "pq_enqueue ?p (prio s ?p) (readyThreads s) = Inr q" "pq_inv n (prio s) q"
          "q = (readyThreads s)[nat (prio s ?p) := readyThreads s ! nat (prio s ?p) @ [?p]]"
        using pq_enqueue_inv[OF d(2) kp out] by blast
      have items: "pq_items q = candidates core s"
        using pq_enqueue_items[OF d(2) kp, of ?p] q(1) False r
        by (simp add: candidates_def Let_def)
      have m: "mset (concat q) = add_mset ?p (mset (concat (readyThreads s)))"
        using pq.enq_law[OF d(2) conjI[OF kp]] q(1) out by (auto simp: mset_pq_items simp del: set_concat)
      have "put_prev core s = Inr (s\<lparr>readyThreads := q\<rparr>)"
        using False r q(1) zombie_not_ready[of ?f] by (auto simp: put_prev_def ready_push_def Let_def)
      then show ?thesis
        using park_inv[OF inv core refl ni q(2), of "notReadyThreads s"] d r m items
          list_all_add_mset[OF m]
        by (intro exI[of _ q] exI[of _ "notReadyThreads s"]) simp
    qed
  qed
qed

section \<open>What IRQrunScheduler chooses\<close>

lemma IRQcomputePreemption_fields [simp]:
  "threads (IRQcomputePreemption cfg now core ts s) = threads s"
  "runningThreads (IRQcomputePreemption cfg now core ts s) = runningThreads s"
  "idle (IRQcomputePreemption cfg now core ts s) = idle s"
  "readyThreads (IRQcomputePreemption cfg now core ts s) = readyThreads s"
  "notReadyThreads (IRQcomputePreemption cfg now core ts s) = notReadyThreads s"
  "schedRequests (IRQcomputePreemption cfg now core ts s) = schedRequests s"
  "holdingCore (IRQcomputePreemption cfg now core ts s) = holdingCore s"
  "pendingWakeup (IRQcomputePreemption cfg now core ts s) = pendingWakeup s"
  "mutexes (IRQcomputePreemption cfg now core ts s) = mutexes s"
  "sleepingList (IRQcomputePreemption cfg now core ts s) = sleepingList s"
  "ctxsave (IRQcomputePreemption cfg now core ts s) = ctxsave s"
  by (simp_all add: IRQcomputePreemption_def setPreemption_def Let_def)

lemma IRQinvokeSchedulerOnCore_fields [simp]:
  "threads (IRQinvokeSchedulerOnCore c s) = threads s"
  "runningThreads (IRQinvokeSchedulerOnCore c s) = runningThreads s"
  "idle (IRQinvokeSchedulerOnCore c s) = idle s"
  "readyThreads (IRQinvokeSchedulerOnCore c s) = readyThreads s"
  "notReadyThreads (IRQinvokeSchedulerOnCore c s) = notReadyThreads s"
  "schedRequests (IRQinvokeSchedulerOnCore c s) = schedRequests s @ [c]"
  "holdingCore (IRQinvokeSchedulerOnCore c s) = holdingCore s"
  "pendingWakeup (IRQinvokeSchedulerOnCore c s) = pendingWakeup s"
  "mutexes (IRQinvokeSchedulerOnCore c s) = mutexes s"
  "sleepingList (IRQinvokeSchedulerOnCore c s) = sleepingList s"
  by (simp_all add: IRQinvokeSchedulerOnCore_def)

lemma followup_fields [simp]:
  "threads (smp_followup rp p s) = threads s" "threads (affinity_followup rp p oc s) = threads s"
  "runningThreads (smp_followup rp p s) = runningThreads s"
  "runningThreads (affinity_followup rp p oc s) = runningThreads s"
  "idle (smp_followup rp p s) = idle s" "idle (affinity_followup rp p oc s) = idle s"
  "readyThreads (smp_followup rp p s) = readyThreads s"
  "readyThreads (affinity_followup rp p oc s) = readyThreads s"
  "notReadyThreads (smp_followup rp p s) = notReadyThreads s"
  "notReadyThreads (affinity_followup rp p oc s) = notReadyThreads s"
  "holdingCore (smp_followup rp p s) = holdingCore s"
  "holdingCore (affinity_followup rp p oc s) = holdingCore s"
  by (simp_all add: smp_followup_def affinity_followup_def split: prod.splits option.splits)

lemma schedule_park:
  "schedule_plain cfg now core (park core s) = schedule_plain cfg now core s"
  "schedule_affine cfg now core (park core s) = schedule_affine cfg now core s"
proof -
  have rp: "runningPrio core (park core s) = runningPrio core s"
    by (simp add: runningPrio_def map_update)
  have rt: "run_thread cfg now core t (park core s\<lparr>readyThreads := q\<rparr>)
          = run_thread cfg now core t (s\<lparr>readyThreads := q\<rparr>)" for t q
    by (simp add: run_thread_def park_def)
  have ri: "run_idle cfg now core (park core s) = run_idle cfg now core s"
    by (simp add: run_idle_def park_def)
  have inv: "IRQinvokeSchedulerOnCore c (park core s) = park core (IRQinvokeSchedulerOnCore c s)" for c
    by (simp add: IRQinvokeSchedulerOnCore_def park_def)
  have ri': "run_idle cfg now core (park core (IRQinvokeSchedulerOnCore c s))
           = run_idle cfg now core (IRQinvokeSchedulerOnCore c s)" for c
    by (simp add: run_idle_def park_def)
  show "schedule_plain cfg now core (park core s) = schedule_plain cfg now core s"
    unfolding schedule_plain_def by (simp add: rp rt ri Let_def split: option.splits)
  show "schedule_affine cfg now core (park core s) = schedule_affine cfg now core s"
    unfolding schedule_affine_def by (simp add: rp rt ri ri' inv Let_def split: option.splits prod.splits)
qed

text \<open>The result of a run of the scheduler on one core, given the thread it chose.\<close>

definition ran :: "nat \<Rightarrow> nat \<Rightarrow> kstate \<Rightarrow> tid option \<Rightarrow> kstate \<Rightarrow> bool" where
  "ran n core s t s' =
     (sched_inv n s' \<and> mset (all_threads s') = mset (all_threads s)
      \<and> runningThreads s' = (runningThreads s)[core := (case t of Some x \<Rightarrow> x | None \<Rightarrow> idle s ! core)]
      \<and> threads s' = threads s \<and> idle s' = idle s
      \<and> holdingCore s' = holdingCore s)"

lemma ran_dispatch:
  assumes inv: "sched_inv n s" and core: "core < length (idle s)"
    and home: "runningThreads s ! core = idle s ! core"
    and q: "pq_inv n (prio s) q" "mset (concat (readyThreads s)) = add_mset t (mset (concat q))"
    and s': "threads s' = threads s" "runningThreads s' = (runningThreads s)[core := t]"
      "idle s' = idle s" "readyThreads s' = q" "notReadyThreads s' = notReadyThreads s"
      "holdingCore s' = holdingCore s"
  shows "ran n core s (Some t) s'"
  using dispatch_inv[OF inv core home q] s'
    sched_inv_cong(1)[of s' "s\<lparr>readyThreads := q, runningThreads := (runningThreads s)[core := t]\<rparr>" n]
    sched_inv_cong(2)[of s' "s\<lparr>readyThreads := q, runningThreads := (runningThreads s)[core := t]\<rparr>"]
  by (simp add: ran_def)

lemma ran_idle:
  assumes "sched_inv n s" "runningThreads s ! core = idle s ! core"
    and s': "threads s' = threads s" "runningThreads s' = (runningThreads s)[core := idle s ! core]"
      "idle s' = idle s" "readyThreads s' = readyThreads s" "notReadyThreads s' = notReadyThreads s"
      "holdingCore s' = holdingCore s"
  shows "ran n core s None s'"
proof -
  have "runningThreads s' = runningThreads s" using s'(2) assms(2) by (metis list_update_id)
  then show ?thesis
    using assms sched_inv_cong(1)[of s' s n] sched_inv_cong(2)[of s' s] by (simp add: ran_def)
qed

lemma schedule_plain_ran:
  assumes inv: "sched_inv n s" and core: "core < length (idle s)"
    and home: "runningThreads s ! core = idle s ! core"
  shows "ran n core s (hd_opt (pq_items (readyThreads s))) (schedule_plain cfg now core s)"
proof -
  note d = sched_invD[OF inv]
  let ?q = "readyThreads s"
  have deq: "fst (pq_dequeueOne ?q) = hd_opt (pq_items ?q)" "pq_items (snd (pq_dequeueOne ?q)) = tl (pq_items ?q)"
    "pq_inv n (prio s) (snd (pq_dequeueOne ?q))"
    using pq.deq_law[OF d(2)] by blast+
  show ?thesis
  proof (cases "scan_down ?q (length ?q)")
    case None
    then have "pq_items ?q = []" using deq(1) by (simp add: pq_dequeueOne_def)
    then show ?thesis
      using None ran_idle[OF inv home, of "schedule_plain cfg now core s"]
      by (simp add: schedule_plain_def run_idle_def NUM_PRIORITIES_def)
  next
    case (Some p)
    have ne: "?q ! p \<noteq> []" using Some by (simp add: scan_down_Some)
    let ?q' = "?q[p := tl (?q ! p)]"
    have hd: "hd_opt (pq_items ?q) = Some (hd (?q ! p))" and q': "pq_inv n (prio s) ?q'"
      "pq_items ?q' = tl (pq_items ?q)"
      using deq ne by (simp_all add: pq_dequeueOne_def Some hd_opt_def split: list.splits)
    then have "mset (concat ?q) = add_mset (hd (?q ! p)) (mset (concat ?q'))"
      by (cases "pq_items ?q") (simp_all flip: mset_pq_items)
    from ran_dispatch[OF inv core home q'(1) this] show ?thesis
      using Some hd by (simp add: schedule_plain_def run_thread_def NUM_PRIORITIES_def Let_def)
  qed
qed

lemma pq_items_remove1_mset:
  assumes "x \<in> set (concat q)" "pq_items q' = remove1 x (pq_items q)"
  shows "mset (concat q) = add_mset x (mset (concat q'))"
proof -
  have "mset (concat q') = mset (concat q) - {#x#}"
    using assms(2) by (metis mset_pq_items mset_remove1)
  moreover have "x \<in># mset (concat q)" using assms(1) by (simp only: in_multiset_in_set)
  ultimately show ?thesis by (metis insert_DiffM)
qed

lemma scan_affine_spec:
  "scan_affine aff core rp p xs oc = (t, rest, oc') \<Longrightarrow>
     t = hd_opt (filter (\<lambda>x. affine (aff x) core) xs)
     \<and> rest = (case t of None \<Rightarrow> xs | Some x \<Rightarrow> remove1 x xs)"
proof (induction xs arbitrary: oc t rest oc')
  case (Cons x xs)
  show ?case
  proof (cases "affine (aff x) core")
    case False
    let ?oc = "case oc of Some c \<Rightarrow> Some c | None \<Rightarrow> other_core (aff x) p rp 0"
    obtain t1 r1 o1 where r: "scan_affine aff core rp p xs ?oc = (t1, r1, o1)"
      by (metis prod_cases3)
    then have res: "t = t1" "rest = x # r1" using Cons.prems False by simp_all
    have h: "hd_opt (filter (\<lambda>x. affine (aff x) core) xs) = t1"
      and r1: "r1 = (case t1 of None \<Rightarrow> xs | Some x \<Rightarrow> remove1 x xs)"
      using Cons.IH[OF r] by simp_all
    have "x \<noteq> y" if "t1 = Some y" for y
      using hd_opt_in_set[OF h[unfolded that]] False by auto
    then show ?thesis using h r1 res False by (cases t1) auto
  qed (use Cons.prems in auto)
qed simp

lemma select_affine_spec:
  "select_affine aff core rp q n oc = (sel, q', oc') \<Longrightarrow> n \<le> length q \<Longrightarrow>
     map_option fst sel = hd_opt (filter (\<lambda>x. affine (aff x) core) (concat (rev (take n q))))
     \<and> (case sel of None \<Rightarrow> q' = q
        | Some (t, p) \<Rightarrow> p < n \<and> t \<in> set (q ! p) \<and> q' = q[p := remove1 t (q ! p)])"
proof (induction n arbitrary: oc)
  case (Suc p)
  obtain t1 r1 o1 where r: "scan_affine aff core rp p (q ! p) oc = (t1, r1, o1)"
    by (metis prod_cases3)
  note sp = scan_affine_spec[OF r]
  have take: "concat (rev (take (Suc p) q)) = q ! p @ concat (rev (take p q))"
    using Suc.prems(2) by (simp add: take_Suc_conv_app_nth)
  show ?case
  proof (cases t1)
    case None
    then have "select_affine aff core rp q p o1 = (sel, q', oc')" using Suc.prems(1) r by simp
    with Suc.IH[OF this] Suc.prems(2) sp None show ?thesis
      by (auto simp: take hd_opt_append split: option.splits)
  next
    case (Some x)
    then have res: "sel = Some (x, p)" "q' = q[p := remove1 x (q ! p)]"
      using Suc.prems(1) r sp by auto
    moreover have "x \<in> set (q ! p)" using sp Some by (auto dest: hd_opt_in_set[OF sym])
    moreover have "filter (\<lambda>x. affine (aff x) core) (q ! p) \<noteq> []" using sp Some by auto
    ultimately show ?thesis using sp Some by (simp add: take hd_opt_append)
  qed
qed simp

lemma schedule_affine_ran:
  assumes inv: "sched_inv n s" and core: "core < length (idle s)"
    and home: "runningThreads s ! core = idle s ! core"
  shows "ran n core s (hd_opt (filter (\<lambda>t. affine (affinity (threads s t)) core)
           (pq_items (readyThreads s)))) (schedule_affine cfg now core s)"
proof -
  note d = sched_invD[OF inv]
  let ?q = "readyThreads s" and ?aff = "\<lambda>t. affinity (threads s t)"
  obtain sel q' oc where r: "select_affine ?aff core (runningPrio core s) ?q (NUM_PRIORITIES s) None = (sel, q', oc)"
    by (metis prod_cases3)
  have sp: "map_option fst sel = hd_opt (filter (\<lambda>x. affine (?aff x) core) (pq_items ?q))"
    "case sel of None \<Rightarrow> q' = ?q
       | Some (t, p) \<Rightarrow> p < length ?q \<and> t \<in> set (?q ! p) \<and> q' = ?q[p := remove1 t (?q ! p)]"
    using select_affine_spec[OF r] unfolding NUM_PRIORITIES_def pq_items_def by simp_all
  show ?thesis
  proof (cases sel)
    case None
    then show ?thesis
      using sp r ran_idle[OF inv home, of "schedule_affine cfg now core s"]
      by (cases oc) (simp_all add: schedule_affine_def run_idle_def)
  next
    case (Some tp)
    obtain t p where tp: "tp = (t, p)" by (cases tp)
    have p: "p < n" "t \<in> set (?q ! p)" "q' = ?q[p := remove1 t (?q ! p)]"
      using sp(2) Some tp d(12) by simp_all
    have k: "prio s t = int p" using pq_inv_key[OF d(2) p(1,2)] .
    have rem: "pq_remove t (prio s t) ?q = Inr q'" using p d(12) k by (simp add: pq_remove_def)
    then have q': "pq_inv n (prio s) q'" "pq_items q' = remove1 t (pq_items ?q)"
      using pq_remove_inv[OF d(2), of t] k p(1) by auto
    have "t \<in> set (concat ?q)" using p d(12) unfolding in_concat_nth by blast
    from pq_items_remove1_mset[OF this q'(2)]
    have "mset (concat ?q) = add_mset t (mset (concat q'))" .
    from ran_dispatch[OF inv core home q'(1) this] show ?thesis
      using Some tp r sp(1)[symmetric]
      by (simp add: schedule_affine_def run_thread_def)
  qed
qed

text \<open>The thread a core runs next: the first candidate that may run on the core.\<close>

definition chosen :: "config \<Rightarrow> nat \<Rightarrow> kstate \<Rightarrow> tid option" where
  "chosen cfg core s = hd_opt (filter (\<lambda>t. with_affinity cfg \<and> with_smp cfg \<longrightarrow>
     affine (affinity (threads s t)) core) (candidates core s))"

definition can_schedule :: "nat \<Rightarrow> kstate \<Rightarrow> bool" where
  "can_schedule core s = (core < length (idle s) \<and> stackOk (threads s (runningThreads s ! core))
     \<and> holdingCore s \<noteq> Some core)"

lemma ran_start:
  assumes "ran n core (park core s1) t s'" "mset (all_threads (park core s1)) = mset (all_threads s)"
    "runningThreads s1 = runningThreads s" "idle s1 = idle s" "threads s1 = threads s"
    "holdingCore s1 = holdingCore s"
  shows "ran n core s t s'"
  using assms by (cases t) (simp_all add: ran_def)

lemma IRQrunScheduler_ran:
  assumes inv: "sched_inv n s" and c: "can_schedule core s"
  shows "\<exists>s'. IRQrunScheduler cfg now core s = Inr s' \<and> ran n core s (chosen cfg core s) s'"
proof -
  have core: "core < length (idle s)" using c by (simp add: can_schedule_def)
  obtain q r where pp: "put_prev core s = Inr (s\<lparr>readyThreads := q, notReadyThreads := r\<rparr>)"
    and inv': "sched_inv n (park core (s\<lparr>readyThreads := q, notReadyThreads := r\<rparr>))"
    and all: "mset (all_threads (park core (s\<lparr>readyThreads := q, notReadyThreads := r\<rparr>))) = mset (all_threads s)"
    and it: "pq_items q = candidates core s"
    using put_prev_spec[OF inv core] by blast
  let ?s1 = "s\<lparr>readyThreads := q, notReadyThreads := r\<rparr>"
  let ?p = "park core ?s1"
  have home: "runningThreads ?p ! core = idle ?p ! core" "core < length (idle ?p)"
    using core sched_invD(3)[OF inv] by simp_all
  let ?s' = "if with_affinity cfg \<and> with_smp cfg then schedule_affine cfg now core ?s1
             else schedule_plain cfg now core ?s1"
  have run: "IRQrunScheduler cfg now core s = Inr ?s'"
    using c pp by (simp add: IRQrunScheduler_def IRQstackOverflowCheck_def can_schedule_def)
  have "ran n core ?p (chosen cfg core s) ?s'"
    using schedule_plain_ran[OF inv' home(2,1), of cfg now]
      schedule_affine_ran[OF inv' home(2,1), of cfg now] it
    by (cases "with_affinity cfg \<and> with_smp cfg") (auto simp: chosen_def schedule_park)
  from ran_start[OF this all] have "ran n core s (chosen cfg core s) ?s'" by simp
  with run show ?thesis by blast
qed

section \<open>Several cores\<close>

lemma candidates_sorted:
  assumes "sched_inv n s" "core < length (idle s)"
  shows "sorted_wrt (\<lambda>x y. prio s y \<le> prio s x) (candidates core s)"
proof -
  obtain q r where q: "sched_inv n (park core (s\<lparr>readyThreads := q, notReadyThreads := r\<rparr>))"
      "pq_items q = candidates core s"
    using put_prev_spec[OF assms] by blast
  have "pq_inv n (prio s) q" using sched_invD(2)[OF q(1)] by simp
  then have "sorted_wrt (\<lambda>x y. \<not> prio s x < prio s y) (pq_items q)" using pq.inv_order by blast
  then show ?thesis using q(2) by (simp add: not_less)
qed

lemma set_candidates:
  "set (candidates core s) = set (concat (readyThreads s)) \<union>
     (let prev = runningThreads s ! core
      in if prev = idle s ! core \<or> \<not> isReady (flagsOf s prev) then {} else {prev})"
  by (auto simp: candidates_def Let_def simp del: set_concat)

lemma hd_opt_filter_sorted:
  assumes "sorted_wrt R xs" "hd_opt (filter P xs) = Some x" "y \<in> set xs" "P y" "y \<noteq> x"
  shows "R x y"
proof -
  obtain ys where "filter P xs = x # ys" using assms(2) by (auto simp: hd_opt_Some_iff)
  moreover have "y \<in> set (filter P xs)" using assms(3,4) by simp
  moreover have "sorted_wrt R (filter P xs)" by (rule sorted_wrt_filter[OF assms(1)])
  ultimately show ?thesis using assms(5) by simp
qed

text \<open>No candidate that may run on the core has a higher priority than the one chosen.\<close>

lemma chosen_highest:
  assumes "sched_inv n s" "core < length (idle s)" "t \<in> set (candidates core s)"
    "with_affinity cfg \<and> with_smp cfg \<longrightarrow> affine (affinity (threads s t)) core"
  shows "\<exists>x. chosen cfg core s = Some x \<and> prio s t \<le> prio s x"
proof -
  let ?P = "\<lambda>t. with_affinity cfg \<and> with_smp cfg \<longrightarrow> affine (affinity (threads s t)) core"
  have "filter ?P (candidates core s) \<noteq> []" using assms(3,4) by (auto simp: filter_empty_conv)
  then obtain x where x: "hd_opt (filter ?P (candidates core s)) = Some x"
    by (metis not_None_eq hd_opt_eq_None)
  then have "prio s t \<le> prio s x"
    using hd_opt_filter_sorted[OF candidates_sorted[OF assms(1,2)] x assms(3,4)] by (cases "t = x") auto
  with x show ?thesis by (simp add: chosen_def)
qed

lemma min_running_gen:
  assumes "min_running ps c m k = (m', k')" "ps = drop c L" "k < c" "c \<le> length L" "L ! k = m"
    "\<forall>j < c. m \<le> L ! j"
  shows "k' < length L \<and> L ! k' = m' \<and> (\<forall>j < length L. m' \<le> L ! j)"
  using assms
proof (induction ps arbitrary: c m k)
  case Nil
  then show ?case by auto
next
  case (Cons p ps)
  have c: "c < length L" using Cons.prems(2) by (metis drop_all linorder_not_le list.distinct(1))
  have d: "ps = drop (Suc c) L" and pc: "L ! c = p"
    using Cons.prems(2) c by (simp_all add: Cons_nth_drop_Suc[symmetric])
  show ?case
  proof (cases "p < m")
    case True
    then have "\<forall>j < Suc c. p \<le> L ! j"
      using Cons.prems(6) pc by (auto simp: less_Suc_eq intro: order_trans[OF less_imp_le])
    with Cons.IH[of "Suc c" p c] True Cons.prems(1) d pc c show ?thesis by simp
  next
    case False
    then have "\<forall>j < Suc c. m \<le> L ! j" using Cons.prems(6) pc by (auto simp: less_Suc_eq)
    with Cons.IH[of "Suc c" m k] False Cons.prems d pc c show ?thesis by simp
  qed
qed

lemma min_running_spec:
  assumes "min_running (tl L) 1 (hd L) 0 = (m, k)" "L \<noteq> []"
  shows "k < length L \<and> L ! k = m \<and> (\<forall>j < length L. m \<le> L ! j)"
  using min_running_gen[OF assms(1), of L] assms(2) by (simp add: drop_Suc hd_conv_nth Suc_leI)

lemma higher_ready_iff: "higher_ready q n m \<longleftrightarrow> (\<exists>p < n. m < int p \<and> q ! p \<noteq> [])"
  by (induction n) (auto simp: less_Suc_eq)

lemma smp_followup_requests:
  assumes rp: "rp \<noteq> []" and inv: "pq_inv n key (readyThreads s)"
    and above: "\<forall>j. p < j \<and> j < n \<longrightarrow> readyThreads s ! j = []" and p: "p < n"
  shows "(schedRequests (smp_followup rp p s) = schedRequests s
           \<and> (\<forall>c < length rp. \<forall>r \<in> set (concat (readyThreads s)). key r \<le> rp ! c))
       \<or> (\<exists>k < length rp. schedRequests (smp_followup rp p s) = schedRequests s @ [k]
           \<and> (\<exists>r \<in> set (concat (readyThreads s)). rp ! k < key r))"
proof -
  obtain m k where mk: "min_running (tl rp) 1 (hd rp) 0 = (m, k)" by fastforce
  note sp = min_running_spec[OF mk rp]
  have len: "length (readyThreads s) = n" using pq_inv_length[OF inv] .
  show ?thesis
  proof (cases "higher_ready (readyThreads s) (Suc p) m")
    case True
    then obtain p' where p': "p' < Suc p" "m < int p'" "readyThreads s ! p' \<noteq> []"
      by (auto simp: higher_ready_iff)
    then obtain r where r: "r \<in> set (readyThreads s ! p')" by (metis all_not_in_conv set_empty)
    then have "key r = int p'" "r \<in> set (concat (readyThreads s))"
      using pq_inv_key[OF inv _ r] p' p len r unfolding in_concat_nth
      by (auto intro!: exI[of _ p'])
    then have "\<exists>r \<in> set (concat (readyThreads s)). rp ! k < key r"
      using sp p'(2) by (intro bexI[of _ r]) simp_all
    moreover have "schedRequests (smp_followup rp p s) = schedRequests s @ [k]"
      using True mk by (simp add: smp_followup_def del: higher_ready.simps)
    ultimately show ?thesis using sp by blast
  next
    case False
    have "key r \<le> m" if "r \<in> set (concat (readyThreads s))" for r
    proof -
      obtain i where i: "i < n" "r \<in> set (readyThreads s ! i)"
        using \<open>r \<in> set (concat (readyThreads s))\<close> len unfolding in_concat_nth by auto
      then have "i < Suc p" using above by (metis empty_iff list.set(1) not_less_eq)
      moreover have "readyThreads s ! i \<noteq> []" using i(2) by auto
      ultimately have "\<not> m < int i" using False by (auto simp: higher_ready_iff)
      with pq_inv_key[OF inv i] show ?thesis by simp
    qed
    then have "\<forall>c < length rp. \<forall>r \<in> set (concat (readyThreads s)). key r \<le> rp ! c"
      using sp by (meson order_trans)
    moreover have "smp_followup rp p s = s"
      using False mk by (simp add: smp_followup_def del: higher_ready.simps)
    ultimately show ?thesis by metis
  qed
qed

text \<open>No ready thread has a higher priority than a thread that is running.\<close>

definition no_inversion :: "kstate \<Rightarrow> bool" where
  "no_inversion s = (\<forall>c < CPU_NUM_CORES s. \<forall>r \<in> set (concat (readyThreads s)).
     prio s r \<le> prio s (runningThreads s ! c))"

text \<open>On an SMP kernel without affinity a run of the scheduler either leaves no inversion on any
  core, or asks for the scheduler on another core that runs a thread of a lower priority than a
  ready one.\<close>

definition inverted :: "nat \<Rightarrow> kstate \<Rightarrow> bool" where
  "inverted k s = (k < CPU_NUM_CORES s \<and>
     (\<exists>r \<in> set (concat (readyThreads s)). prio s (runningThreads s ! k) < prio s r))"

lemma schedule_plain_smp:
  assumes inv: "sched_inv n s" and core: "core < length (idle s)" and smp: "with_smp cfg"
  shows "let s' = schedule_plain cfg now core s in
       (schedRequests s' = schedRequests s \<and> no_inversion s')
     \<or> (\<exists>k. k \<noteq> core \<and> schedRequests s' = schedRequests s @ [k] \<and> inverted k s')"
proof (cases "scan_down (readyThreads s) (length (readyThreads s))")
  case None
  note d = sched_invD[OF inv]
  have "pq_items (readyThreads s) = []"
    using None pq.deq_law[OF d(2)] by (simp add: pq_dequeueOne_def)
  then have "r \<notin> set (concat (readyThreads s))" for r by (simp only: flip: set_pq_items) simp
  moreover have "schedule_plain cfg now core s = run_idle cfg now core s"
    using None by (simp add: schedule_plain_def NUM_PRIORITIES_def)
  moreover have "readyThreads (run_idle cfg now core s) = readyThreads s"
    "schedRequests (run_idle cfg now core s) = schedRequests s"
    by (simp_all add: run_idle_def)
  ultimately show ?thesis unfolding no_inversion_def Let_def by metis
next
  case (Some p)
  note d = sched_invD[OF inv]
  let ?q = "readyThreads s"
  let ?t = "hd (?q ! p)" and ?q' = "?q[p := tl (?q ! p)]" and ?rp = "runningPrio core s"
  have sd: "p < n" "?q ! p \<noteq> []" "\<forall>j. p < j \<and> j < n \<longrightarrow> ?q ! j = []"
    using Some d(12) by (simp_all add: scan_down_Some)
  define s1 where "s1 = run_thread cfg now core ?t (s\<lparr>readyThreads := ?q'\<rparr>)"
  define s' where "s' = smp_followup ?rp p s1"
  have s': "schedule_plain cfg now core s = s'"
    using Some smp by (simp add: schedule_plain_def NUM_PRIORITIES_def s'_def s1_def Let_def)
  have f1: "readyThreads s1 = ?q'" "schedRequests s1 = schedRequests s" "threads s1 = threads s"
    "runningThreads s1 = (runningThreads s)[core := ?t]"
    by (simp_all add: s1_def run_thread_def)
  have inv': "pq_inv n (prio s) ?q'"
    using pq.deq_law[OF d(2)] Some by (simp add: pq_dequeueOne_def)
  have len: "length ?rp = CPU_NUM_CORES s" "CPU_NUM_CORES s = length (idle s)"
    by (simp_all add: runningPrio_def CPU_NUM_CORES_def d(3))
  then have rpne: "?rp \<noteq> []" using core by auto
  have rp: "?rp ! c = (if c = core then int n - 1 else prio s (runningThreads s ! c))"
    if "c < length (idle s)" for c
    using that core d(3,12) by (simp add: runningPrio_def NUM_PRIORITIES_def nth_list_update)
  have t: "prio s ?t = int p" using pq_inv_key[OF d(2) sd(1)] sd(2) by simp
  have above: "\<forall>j. p < j \<and> j < n \<longrightarrow> readyThreads s1 ! j = []" using sd(3) f1(1) by simp
  have low: "prio s r \<le> int p" if r: "r \<in> set (concat ?q')" for r
  proof -
    have "length ?q' = n" using d(12) by simp
    then obtain i where i: "i < n" "r \<in> set (?q' ! i)"
      using r unfolding in_concat_nth by metis
    then have "i \<le> p" using above f1(1) by (metis empty_iff list.set(1) not_le)
    then show ?thesis using pq_inv_key[OF inv' i] by simp
  qed
  have run: "prio s (runningThreads s1 ! c) = (if c = core then int p else prio s (runningThreads s ! c))"
    if "c < length (idle s)" for c
    using that core d(3) t f1(4) by (simp add: nth_list_update)
  have cores: "CPU_NUM_CORES s' = length (idle s)"
    by (simp add: s'_def CPU_NUM_CORES_def f1(4) d(3))
  from smp_followup_requests[OF rpne inv'[folded f1(1)] above sd(1)]
  consider (none) "schedRequests s' = schedRequests s"
      "\<forall>c < length ?rp. \<forall>r \<in> set (concat ?q'). prio s r \<le> ?rp ! c"
    | (some) k r where "k < length ?rp" "schedRequests s' = schedRequests s @ [k]"
      "r \<in> set (concat ?q')" "?rp ! k < prio s r"
    unfolding f1 s'_def by blast
  then show ?thesis
  proof cases
    case none
    have "no_inversion s'"
      unfolding no_inversion_def cores
    proof (intro allI impI ballI)
      fix c r
      assume c: "c < length (idle s)" and r: "r \<in> set (concat (readyThreads s'))"
      then have "r \<in> set (concat ?q')" by (simp add: s'_def f1)
      with none(2) c len rp[OF c] low run[OF c]
      show "prio s' r \<le> prio s' (runningThreads s' ! c)"
        by (auto simp: s'_def f1(3) simp del: set_concat split: if_splits)
    qed
    with none(1) s' show ?thesis by (simp add: Let_def)
  next
    case some
    have k: "k < length (idle s)" using some(1) len by simp
    have "prio s r < int n" using low[OF some(3)] sd(1) by simp
    then have "k \<noteq> core" using rp[OF k] some(4) by auto
    moreover have "inverted k s'"
      unfolding inverted_def cores
      using some k rp[OF k] run[OF k] \<open>k \<noteq> core\<close> by (auto simp: s'_def f1 simp del: set_concat)
    ultimately show ?thesis using some(2) s' by (auto simp: Let_def)
  qed
qed

lemma IRQrunScheduler_smp:
  assumes inv: "sched_inv n s" and c: "can_schedule core s" and cfg: "with_smp cfg" "\<not> with_affinity cfg"
    and run: "IRQrunScheduler cfg now core s = Inr s'"
  shows "(schedRequests s' = schedRequests s \<and> no_inversion s')
       \<or> (\<exists>k. k \<noteq> core \<and> schedRequests s' = schedRequests s @ [k] \<and> inverted k s')"
proof -
  have core: "core < length (idle s)" using c by (simp add: can_schedule_def)
  obtain q r where pp: "put_prev core s = Inr (s\<lparr>readyThreads := q, notReadyThreads := r\<rparr>)"
    and inv': "sched_inv n (park core (s\<lparr>readyThreads := q, notReadyThreads := r\<rparr>))"
    using put_prev_spec[OF inv core] by blast
  let ?s1 = "s\<lparr>readyThreads := q, notReadyThreads := r\<rparr>"
  have s': "s' = schedule_plain cfg now core (park core ?s1)"
    using c pp cfg run
    by (simp add: IRQrunScheduler_def IRQstackOverflowCheck_def can_schedule_def schedule_park)
  show ?thesis
    using schedule_plain_smp[OF inv', of core cfg now] core cfg(1) by (simp add: s' Let_def)
qed

text \<open>How far the running threads are from the highest priority.\<close>

definition slack :: "nat \<Rightarrow> kstate \<Rightarrow> nat" where
  "slack n s = sum_list (map (\<lambda>t. nat (int n - prio s t)) (runningThreads s))"

lemma slack_update:
  assumes "core < length (runningThreads s)" "prio s (runningThreads s ! core) < prio s t" "prio s t < int n"
    "threads s' = threads s" "runningThreads s' = (runningThreads s)[core := t]"
  shows "slack n s' < slack n s"
proof -
  let ?f = "\<lambda>t. nat (int n - prio s t)" and ?x = "runningThreads s ! core"
  have "?f t < ?f ?x" using assms(2,3) by simp
  moreover have "?f ?x \<le> sum_list (map ?f (runningThreads s))"
    using assms(1) by (intro member_le_sum_list) auto
  moreover have "slack n s' = sum_list (map ?f (runningThreads s)) + ?f t - ?f ?x"
    using assms(1) by (simp add: slack_def assms(4,5) map_update sum_list_update)
  ultimately show ?thesis unfolding slack_def by linarith
qed

lemma slack_bound:
  assumes "sched_inv n s"
  shows "slack n s \<le> length (idle s) * (n + 1)"
proof -
  note d = sched_invD[OF assms]
  have "nat (int n - prio s t) \<le> n + 1" if t: "t \<in> set (runningThreads s)" for t
  proof (cases "t \<in> set (idle s)")
    case True
    then show ?thesis using d(10) by (simp add: list_all_iff)
  next
    case False
    then have "t \<in> set (busy s)" using t by (simp add: busy_def)
    then have "0 \<le> prio s t" using d(9) by (simp add: list_all_iff prio_ok_def)
    then show ?thesis by simp
  qed
  then have "slack n s \<le> sum_list (map (\<lambda>_. n + 1) (runningThreads s))"
    unfolding slack_def by (intro sum_list_mono)
  then show ?thesis using d(3) by (simp add: sum_list_triv)
qed

text \<open>All runs of \<open>settle\<close> can take place.\<close>

definition runnable :: "kstate \<Rightarrow> bool" where
  "runnable s = (holdingCore s = None \<and> (\<forall>t. stackOk (threads s t)))"

lemma settle_step:
  assumes inv: "sched_inv n s" and c: "core < length (idle s)" "runnable s"
    and cfg: "with_smp cfg" "\<not> with_affinity cfg"
  obtains s' where "IRQrunScheduler cfg now core s = Inr s'" "sched_inv n s'" "runnable s'"
    "mset (all_threads s') = mset (all_threads s)" "idle s' = idle s" "threads s' = threads s"
    "inverted core s \<Longrightarrow> slack n s' < slack n s"
    "schedRequests s' = schedRequests s \<and> no_inversion s'
       \<or> (\<exists>k. schedRequests s' = schedRequests s @ [k] \<and> inverted k s' \<and> k < length (idle s'))"
proof -
  have can: "can_schedule core s" using c by (simp add: can_schedule_def runnable_def)
  obtain s' where s': "IRQrunScheduler cfg now core s = Inr s'" and ran: "ran n core s (chosen cfg core s) s'"
    using IRQrunScheduler_ran[OF inv can] by blast
  note r = ran[unfolded ran_def]
  have len: "length (runningThreads s') = length (idle s')" using r sched_invD(3) by blast
  have down: "slack n s' < slack n s" if "inverted core s"
  proof -
    obtain t where t: "t \<in> set (concat (readyThreads s))" "prio s (runningThreads s ! core) < prio s t"
      using \<open>inverted core s\<close> by (auto simp: inverted_def simp del: set_concat)
    then have tc: "t \<in> set (candidates core s)" by (simp add: set_candidates)
    obtain x where x: "chosen cfg core s = Some x" "prio s t \<le> prio s x"
      using chosen_highest[OF inv c(1) tc] cfg by blast
    have core': "core < length (runningThreads s)" using c(1) sched_invD(3)[OF inv] by simp
    have lt: "prio s (runningThreads s ! core) < prio s x" using t(2) x(2) by simp
    have "runningThreads s' ! core = x" using r x(1) core' by simp
    then have xr: "x \<in> set (runningThreads s')" using core' r by (metis length_list_update nth_mem)
    have d': "sched_inv n s'" "threads s' = threads s" using r by blast+
    have "prio s x < int n"
    proof (cases "x \<in> set (idle s')")
      case True
      then show ?thesis using sched_invD(10)[OF d'(1)] d'(2) by (simp add: list_all_iff)
    next
      case False
      then have "x \<in> set (busy s')" using xr by (simp add: busy_def)
      then show ?thesis using sched_invD(9)[OF d'(1)] d'(2) by (simp add: list_all_iff prio_ok_def)
    qed
    from slack_update[OF core' lt this] show ?thesis using r x(1) by simp
  qed
  have req: "schedRequests s' = schedRequests s \<and> no_inversion s'
       \<or> (\<exists>k. schedRequests s' = schedRequests s @ [k] \<and> inverted k s' \<and> k < length (idle s'))"
    using IRQrunScheduler_smp[OF inv can cfg s'] len by (auto simp: inverted_def CPU_NUM_CORES_def)
  show thesis
    using that[OF s' _ _ _ _ _ down req] r c(2) by (simp add: runnable_def)
qed

lemma settle_terminates_aux:
  assumes "sched_inv n s" "core < length (idle s)" "runnable s" "with_smp cfg" "\<not> with_affinity cfg"
    "inverted core s" "slack n s < fuel"
  shows "\<exists>s'. settle fuel cfg now core s = Some s' \<and> sched_inv n s' \<and> no_inversion s'
           \<and> mset (all_threads s') = mset (all_threads s) \<and> threads s' = threads s"
  using assms
proof (induction fuel arbitrary: s core)
  case (Suc fuel)
  obtain s1 where s1: "IRQrunScheduler cfg now core s = Inr s1" "sched_inv n s1" "runnable s1"
    "mset (all_threads s1) = mset (all_threads s)" "idle s1 = idle s" "threads s1 = threads s"
    "slack n s1 < slack n s"
    "schedRequests s1 = schedRequests s \<and> no_inversion s1
       \<or> (\<exists>k. schedRequests s1 = schedRequests s @ [k] \<and> inverted k s1 \<and> k < length (idle s1))"
    using settle_step[OF Suc.prems(1-5)] Suc.prems(6) by metis
  from s1(8) show ?case
  proof (elim disjE exE conjE)
    assume "schedRequests s1 = schedRequests s" "no_inversion s1"
    with s1 show ?thesis by simp
  next
    fix k
    assume k: "schedRequests s1 = schedRequests s @ [k]" "inverted k s1" "k < length (idle s1)"
    then have "\<exists>s'. settle fuel cfg now k s1 = Some s' \<and> sched_inv n s' \<and> no_inversion s'
           \<and> mset (all_threads s') = mset (all_threads s1) \<and> threads s' = threads s1"
      using s1 Suc.prems by (intro Suc.IH) auto
    with k s1 show ?thesis by auto
  qed
qed simp

lemma settle_terminates:
  assumes inv: "sched_inv n s" and c: "core < length (idle s)" "runnable s"
    and cfg: "with_smp cfg" "\<not> with_affinity cfg"
    and fuel: "length (idle s) * (n + 1) + 2 \<le> fuel"
  shows "\<exists>s'. settle fuel cfg now core s = Some s' \<and> sched_inv n s' \<and> no_inversion s'
           \<and> mset (all_threads s') = mset (all_threads s) \<and> threads s' = threads s"
proof -
  obtain s1 where s1: "IRQrunScheduler cfg now core s = Inr s1" "sched_inv n s1" "runnable s1"
    "mset (all_threads s1) = mset (all_threads s)" "idle s1 = idle s" "threads s1 = threads s"
    "schedRequests s1 = schedRequests s \<and> no_inversion s1
       \<or> (\<exists>k. schedRequests s1 = schedRequests s @ [k] \<and> inverted k s1 \<and> k < length (idle s1))"
    using settle_step[OF inv c cfg] by metis
  obtain f where f: "fuel = Suc f" using fuel by (cases fuel) auto
  from s1(7) show ?thesis
  proof (elim disjE exE conjE)
    assume "schedRequests s1 = schedRequests s" "no_inversion s1"
    with s1 f show ?thesis by simp
  next
    fix k
    assume k: "schedRequests s1 = schedRequests s @ [k]" "inverted k s1" "k < length (idle s1)"
    have "slack n s1 < f" using slack_bound[OF s1(2)] s1(5) fuel f by simp
    from settle_terminates_aux[OF s1(2) k(3) s1(3) cfg k(2) this] k s1 f show ?thesis by auto
  qed
qed

section \<open>The other operations keep the invariant\<close>

lemma upd_thread_fields [simp]:
  "threads (upd_thread t f s) = (threads s)(t := f (threads s t))"
  "runningThreads (upd_thread t f s) = runningThreads s" "idle (upd_thread t f s) = idle s"
  "readyThreads (upd_thread t f s) = readyThreads s"
  "notReadyThreads (upd_thread t f s) = notReadyThreads s"
  "schedRequests (upd_thread t f s) = schedRequests s" "holdingCore (upd_thread t f s) = holdingCore s"
  "pendingWakeup (upd_thread t f s) = pendingWakeup s" "mutexes (upd_thread t f s) = mutexes s"
  "sleepingList (upd_thread t f s) = sleepingList s" "freed (upd_thread t f s) = freed s"
  "existDeleted (upd_thread t f s) = existDeleted s" "osTimer (upd_thread t f s) = osTimer s"
  by (simp_all add: upd_thread_def)

lemma all_threads_upd [simp]:
  "all_threads (upd_thread t f s) = all_threads s" "busy (upd_thread t f s) = busy s"
  by (simp_all add: all_threads_def busy_def)

lemma list_all_cong_set: "(\<And>x. x \<in> set xs \<Longrightarrow> P x = Q x) \<Longrightarrow> list_all P xs = list_all Q xs"
  by (simp add: list_all_iff)

lemma sorted_wrt_cong_set:
  "(\<And>x y. x \<in> set xs \<Longrightarrow> y \<in> set xs \<Longrightarrow> P x y = Q x y) \<Longrightarrow> sorted_wrt P xs = sorted_wrt Q xs"
  by (induction xs) auto

lemma sorted_wrt_remove1: "sorted_wrt R xs \<Longrightarrow> sorted_wrt R (remove1 x xs)"
  by (induction xs) (auto dest: set_remove1_subset[THEN subsetD])

text \<open>Changing fields of a thread other than its flags and priority.\<close>

lemma sched_inv_upd_other:
  assumes "\<And>th. priority (f th) = priority th" "\<And>th. tflags (f th) = tflags th"
  shows "sched_inv n (upd_thread t f s) = sched_inv n s"
proof -
  have th: "prio (upd_thread t f s) x = prio s x" "flagsOf (upd_thread t f s) x = flagsOf s x" for x
    using assms by simp_all
  show ?thesis
    unfolding sched_inv_def prio_ok_def[abs_def] th all_threads_upd by (simp add: idle_home_def)
qed

text \<open>Changing the flags of a thread within what its place allows.\<close>

lemma sched_inv_upd_flags:
  assumes inv: "sched_inv n s"
    and t: "t \<in> set (busy s) \<or> t \<in> set (concat (readyThreads s)) \<and> isReady f
            \<or> t \<in> set (notReadyThreads s) \<and> \<not> isReady f \<and> isZombie f = isZombie (flagsOf s t)"
  shows "sched_inv n (upd_thread t (\<lambda>th. th\<lparr>tflags := f\<rparr>) s)"
proof -
  note d = sched_invD[OF inv]
  let ?s = "upd_thread t (\<lambda>th. th\<lparr>tflags := f\<rparr>) s"
  have pr: "prio ?s x = prio s x" for x by simp
  have fl: "flagsOf ?s x = (if x = t then f else flagsOf s x)" for x by simp
  have dis: "set (concat (readyThreads s)) \<inter> set (notReadyThreads s) = {}"
    "set (concat (readyThreads s)) \<inter> set (busy s) = {}" "set (notReadyThreads s) \<inter> set (busy s) = {}"
    "t \<notin> set (idle s)"
    using d(5) t by (auto simp: all_threads_def simp del: set_concat)
  have po: "prio_ok n ?s = prio_ok n s" by (simp add: prio_ok_def fun_eq_iff)
  have 1: "list_all (\<lambda>x. isReady (flagsOf ?s x)) (concat (readyThreads s))"
    using d(7) dis t unfolding fl list_all_iff by (auto simp del: set_concat)
  have 2: "list_all (\<lambda>x. \<not> isReady (flagsOf ?s x) \<and> prio_ok n s x) (notReadyThreads s)"
    using d(8) dis t unfolding fl list_all_iff by (auto simp del: set_concat)
  have 3: "list_all (\<lambda>x. prio s x = - 1 \<and> isReady (flagsOf ?s x)) (idle s)"
    using d(10) dis(4) unfolding fl list_all_iff by auto
  have z: "isZombie (flagsOf ?s x) = isZombie (flagsOf s x)" if "x \<in> set (notReadyThreads s)" for x
    using that t dis unfolding fl by (auto simp del: set_concat)
  have 4: "sorted_wrt (\<lambda>x y. isZombie (flagsOf ?s x) \<longrightarrow> isZombie (flagsOf ?s y)) (notReadyThreads s)"
    using d(11) z by (subst sorted_wrt_cong_set[where Q = "\<lambda>x y. isZombie (flagsOf s x) \<longrightarrow> isZombie (flagsOf s y)"]) blast+
  show ?thesis
    unfolding sched_inv_def po pr using d 1 2 3 4 by (simp add: idle_home_def)
qed

text \<open>A thread that becomes ready moves from the list of those that are not ready to the end of
  the list of its priority, or stays where it is if it is still running.\<close>

lemma mset_remove1_add: "x \<in> set xs \<Longrightarrow> mset xs = add_mset x (mset (remove1 x xs))"
  by simp

lemma IRQwokenThread_inv:
  assumes inv: "sched_inv n s" and t: "t \<in> set (notReadyThreads s) \<union> set (busy s)" and f: "isReady f"
  shows "\<exists>s'. IRQwokenThread t (upd_thread t (\<lambda>th. th\<lparr>tflags := f\<rparr>) s) = Inr s' \<and> sched_inv n s'
           \<and> mset (all_threads s') = mset (all_threads s)
           \<and> threads s' = (threads s)(t := (threads s t)\<lparr>tflags := f\<rparr>)
           \<and> s' = s\<lparr>threads := threads s', readyThreads := readyThreads s', notReadyThreads := notReadyThreads s'\<rparr>"
proof -
  note d = sched_invD[OF inv]
  let ?s = "upd_thread t (\<lambda>th. th\<lparr>tflags := f\<rparr>) s"
  show ?thesis
  proof (cases "t \<in> set (runningThreads s)")
    case True
    have "t \<notin> set (notReadyThreads s) \<or> t \<notin> set (busy s)" "t \<notin> set (idle s)"
      using d(5) t by (auto simp: all_threads_def simp del: set_concat)
    then have "t \<in> set (busy s)" using True t by (auto simp: busy_def)
    with inv have "sched_inv n ?s" by (blast intro: sched_inv_upd_flags)
    then show ?thesis using True by (simp add: IRQwokenThread_def upd_thread_def all_threads_def busy_def)
  next
    case False
    then have nr: "t \<in> set (notReadyThreads s)" using t by (auto simp: busy_def)
    have dis: "t \<notin> set (concat (readyThreads s))" "t \<notin> set (busy s)" "t \<notin> set (idle s)"
      "distinct (notReadyThreads s)"
      using d(5) nr by (auto simp: all_threads_def simp del: set_concat)
    have po: "prio_ok n s t" using d(8) nr by (simp add: list_all_iff)
    obtain q where q: "pq_enqueue t (prio s t) (readyThreads s) = Inr q" "pq_inv n (prio s) q"
      using pq_enqueue_inv[OF d(2), of t] po dis(1) by (auto simp: prio_ok_def simp del: set_concat)
    have m: "mset (concat q) = add_mset t (mset (concat (readyThreads s)))"
      using pq.enq_law[OF d(2), of t] q(1) po dis(1)
      by (auto simp: prio_ok_def mset_pq_items simp del: set_concat)
    let ?r = "remove1 t (notReadyThreads s)"
    let ?s' = "?s\<lparr>notReadyThreads := ?r, readyThreads := q\<rparr>"
    have run: "IRQwokenThread t ?s = Inr ?s'"
      using False nr q(1) by (simp add: IRQwokenThread_def ready_push_def)
    have tr: "t \<notin> set ?r" using dis(4) by simp
    have busy: "busy ?s' = busy s" by (simp add: busy_def)
    have all: "mset (all_threads ?s') = mset (all_threads s)"
      using m mset_remove1_add[OF nr] busy by (simp add: all_threads_def)
    have fl: "flagsOf ?s' x = (if x = t then f else flagsOf s x)" for x by simp
    have pr: "prio ?s' x = prio s x" for x by simp
    have pok: "prio_ok n ?s' = prio_ok n s" by (simp add: prio_ok_def fun_eq_iff)
    have 1: "list_all (\<lambda>x. isReady (flagsOf ?s' x)) (concat q)"
      using d(7) f dis(1) unfolding fl list_all_add_mset[OF m] by (simp add: list_all_iff del: set_concat)
    have sub: "set ?r \<subseteq> set (notReadyThreads s)" by (rule set_remove1_subset)
    have 2: "list_all (\<lambda>x. \<not> isReady (flagsOf ?s' x) \<and> prio_ok n s x) ?r"
      using d(8) sub tr unfolding fl list_all_iff by auto
    have 3: "list_all (\<lambda>x. prio s x = - 1 \<and> isReady (flagsOf ?s' x)) (idle s)"
      using d(10) dis(3) unfolding fl list_all_iff by auto
    have "sorted_wrt (\<lambda>x y. isZombie (flagsOf s x) \<longrightarrow> isZombie (flagsOf s y)) ?r"
      using d(11) by (rule sorted_wrt_remove1)
    then have 4: "sorted_wrt (\<lambda>x y. isZombie (flagsOf ?s' x) \<longrightarrow> isZombie (flagsOf ?s' y)) ?r"
      using tr by (subst sorted_wrt_cong_set[where Q = "\<lambda>x y. isZombie (flagsOf s x) \<longrightarrow> isZombie (flagsOf s y)"])
        (auto simp: fl)
    have "sched_inv n ?s'"
      unfolding sched_inv_def pok pr busy using d q(2) distinct_mset[OF all] 1 2 3 4
      by (simp add: idle_home_def)
    with run all show ?thesis by (simp add: upd_thread_def)
  qed
qed

lemma IRQsetPriority_inv:
  assumes inv: "sched_inv n s"
    and t: "t \<in> set (concat (readyThreads s)) \<union> set (notReadyThreads s) \<union> set (busy s)"
    and p: "0 \<le> p" "p < int n" and ck: "ck = Kernel \<longrightarrow> \<not> isZombie (flagsOf s t)"
  shows "\<exists>q. IRQsetPriority ck t p s = Inr (upd_thread t (\<lambda>th. th\<lparr>priority := p\<rparr>) (s\<lparr>readyThreads := q\<rparr>))
           \<and> sched_inv n (upd_thread t (\<lambda>th. th\<lparr>priority := p\<rparr>) (s\<lparr>readyThreads := q\<rparr>))
           \<and> mset (concat q) = mset (concat (readyThreads s))"
proof -
  note d = sched_invD[OF inv]
  let ?u = "\<lambda>q. upd_thread t (\<lambda>th. th\<lparr>priority := p\<rparr>) (s\<lparr>readyThreads := q\<rparr>)"
  have ni: "t \<notin> set (idle s)" using t d(5) by (auto simp: all_threads_def simp del: set_concat)
  have goal: "sched_inv n (?u q)"
    if q: "pq_inv n (prio (?u q)) q" "mset (concat q) = mset (concat (readyThreads s))" for q
  proof -
    have busy: "busy (?u q) = busy s" by (simp add: busy_def)
    have all: "mset (all_threads (?u q)) = mset (all_threads s)"
      using q(2) busy by (simp add: all_threads_def)
    have fl: "flagsOf (?u q) x = flagsOf s x" for x by simp
    have pr: "prio (?u q) x = (if x = t then p else prio s x)" for x by simp
    have pok: "prio_ok n (?u q) x = (x = t \<or> prio_ok n s x)" for x
      using p by (simp add: prio_ok_def)
    have 1: "list_all (\<lambda>x. \<not> isReady (flagsOf s x) \<and> prio_ok n (?u q) x) (notReadyThreads s)"
      "list_all (prio_ok n (?u q)) (busy s)"
      using d(8,9) unfolding list_all_iff pok by auto
    have 2: "list_all (\<lambda>x. prio (?u q) x = - 1 \<and> isReady (flagsOf s x)) (idle s)"
      using d(10) ni unfolding list_all_iff pr by auto
    have 3: "list_all (\<lambda>x. isReady (flagsOf s x)) (concat q)"
      using d(7) list_all_mset[OF q(2)] by blast
    show ?thesis
      unfolding sched_inv_def busy fl using d 1 2 3 q(1) distinct_mset[OF all] by (simp add: idle_home_def)
  qed
  show ?thesis
  proof (cases "t \<in> set (runningThreads s) \<or> \<not> isReady (flagsOf s t)")
    case True
    have "t \<notin> set (concat (readyThreads s))"
    proof
      assume r: "t \<in> set (concat (readyThreads s))"
      then have "isReady (flagsOf s t)" using d(7) by (auto simp: list_all_iff)
      then have "t \<in> set (busy s)" using True ni by (simp add: busy_def)
      then show False using d(5) r by (auto simp: all_threads_def simp del: set_concat)
    qed
    then have "pq_inv n (prio (?u (readyThreads s))) (readyThreads s)"
      using d(2) by (subst pq_inv_cong[where key = "prio s"]) auto
    from goal[OF this refl] have "sched_inv n (?u (readyThreads s))" .
    then show ?thesis
      using True ck by (intro exI[of _ "readyThreads s"]) (simp add: IRQsetPriority_def ensure_def)
  next
    case False
    then have rd: "t \<in> set (concat (readyThreads s))"
      using t d(8) by (auto simp: list_all_iff busy_def simp del: set_concat)
    have kt: "0 \<le> prio s t" "prio s t < int n" using pq_inv_member[OF d(2) rd] by blast+
    obtain q1 where q1: "pq_remove t (prio s t) (readyThreads s) = Inr q1" "pq_inv n (prio s) q1"
        "pq_items q1 = remove1 t (pq_items (readyThreads s))"
      using pq_remove_inv[OF d(2) kt] by blast
    have m1: "mset (concat (readyThreads s)) = add_mset t (mset (concat q1))"
      by (rule pq_items_remove1_mset[OF rd q1(3)])
    have "distinct (concat (readyThreads s))" using d(2) by (simp add: pq_inv_def)
    then have "distinct (t # concat q1)" using distinct_mset[of _ "t # concat q1"] m1 by simp
    then have t1: "t \<notin> set (concat q1)" by simp
    let ?key = "\<lambda>x. if x = t then p else prio s x"
    have "pq_inv n ?key q1 = pq_inv n (prio s) q1"
      using t1 by (intro pq_inv_cong) (auto simp del: set_concat)
    then have inv1: "pq_inv n ?key q1" using q1(2) by blast
    obtain q2 where q2: "pq_enqueue t p q1 = Inr q2" "pq_inv n ?key q2"
      using pq_enqueue_inv[OF inv1, of t] p t1 by auto
    have m2: "mset (concat q2) = mset (concat (readyThreads s))"
      using pq.enq_law[OF inv1, of t] q2(1) p t1 m1
      by (auto simp: mset_pq_items simp del: set_concat)
    have "prio (?u q2) = ?key" by (simp add: fun_eq_iff)
    with goal[OF _ m2] q2(2) have "sched_inv n (?u q2)" by simp
    then show ?thesis
      using False ck q1(1) q2(1) m2 by (intro exI[of _ q2]) (simp add: IRQsetPriority_def ensure_def)
  qed
qed

lemma sched_inv_fresh:
  assumes "t \<notin> set (all_threads s)"
  shows "sched_inv n (upd_thread t f s) = sched_inv n s"
proof -
  have o: "x \<noteq> t" if "x \<in> set (concat (readyThreads s)) \<union> set (notReadyThreads s) \<union> set (busy s) \<union> set (idle s)" for x
    using that assms by (auto simp: all_threads_def simp del: set_concat)
  have th: "threads (upd_thread t f s) x = threads s x" if "x \<noteq> t" for x using that by simp
  have 1: "pq_inv n (prio (upd_thread t f s)) (readyThreads s) = pq_inv n (prio s) (readyThreads s)"
    using o by (intro pq_inv_cong) simp
  have 2: "sorted_wrt (\<lambda>x y. isZombie (flagsOf (upd_thread t f s) x) \<longrightarrow> isZombie (flagsOf (upd_thread t f s) y)) (notReadyThreads s)
         = sorted_wrt (\<lambda>x y. isZombie (flagsOf s x) \<longrightarrow> isZombie (flagsOf s y)) (notReadyThreads s)"
    using o by (intro sorted_wrt_cong_set) (metis Un_iff th)
  have 3: "list_all (\<lambda>x. isReady (flagsOf (upd_thread t f s) x)) (concat (readyThreads s))
         = list_all (\<lambda>x. isReady (flagsOf s x)) (concat (readyThreads s))"
    using o by (intro list_all_cong_set) (metis Un_iff th)
  have 4: "list_all (\<lambda>x. \<not> isReady (flagsOf (upd_thread t f s) x) \<and> prio_ok n (upd_thread t f s) x) (notReadyThreads s)
         = list_all (\<lambda>x. \<not> isReady (flagsOf s x) \<and> prio_ok n s x) (notReadyThreads s)"
    unfolding prio_ok_def using o by (intro list_all_cong_set) (metis Un_iff th)
  have 5: "list_all (prio_ok n (upd_thread t f s)) (busy s) = list_all (prio_ok n s) (busy s)"
    unfolding prio_ok_def using o by (intro list_all_cong_set) (metis Un_iff th)
  have 6: "list_all (\<lambda>x. prio (upd_thread t f s) x = - 1 \<and> isReady (flagsOf (upd_thread t f s) x)) (idle s)
         = list_all (\<lambda>x. prio s x = - 1 \<and> isReady (flagsOf s x)) (idle s)"
    using o by (intro list_all_cong_set) (metis Un_iff th)
  have h: "idle_home (upd_thread t f s) = idle_home s" by (simp add: idle_home_def)
  have fields: "readyThreads (upd_thread t f s) = readyThreads s" "notReadyThreads (upd_thread t f s) = notReadyThreads s"
    "runningThreads (upd_thread t f s) = runningThreads s" "idle (upd_thread t f s) = idle s" by simp_all
  show ?thesis unfolding sched_inv_def all_threads_upd h fields 1 2 3 4 5 6 ..
qed

lemma IRQaddThread_inv:
  assumes inv: "sched_inv n s" and t: "t \<notin> set (all_threads s)" and p: "0 \<le> p" "p < int n"
    and f: "isReady (flagsOf s t) \<or> with_processes cfg \<and> \<not> isZombie (flagsOf s t)"
  shows "\<exists>s'. IRQaddThread cfg t p s = Inr (True, s') \<and> sched_inv n s'
           \<and> mset (all_threads s') = add_mset t (mset (all_threads s)) \<and> prio s' t = p"
proof -
  let ?s = "upd_thread t (\<lambda>th. th\<lparr>priority := p, savedPriority := p\<rparr>) s"
  have inv': "sched_inv n ?s" using inv t by (simp add: sched_inv_fresh)
  note d = sched_invD[OF inv']
  have o: "t \<notin> set (concat (readyThreads s))" "t \<notin> set (notReadyThreads s)" "t \<notin> set (busy s)" "t \<notin> set (idle s)"
    using t by (auto simp: all_threads_def simp del: set_concat)
  have fl: "flagsOf ?s t = flagsOf s t" by simp
  have pt: "prio ?s t = p" by simp
  show ?thesis
  proof (cases "isReady (flagsOf s t)")
    case False
    let ?s' = "?s\<lparr>notReadyThreads := t # notReadyThreads s\<rparr>"
    have run: "IRQaddThread cfg t p s = Inr (True, ?s')"
      using False f by (simp add: IRQaddThread_def Let_def)
    have b: "busy ?s' = busy s" by (simp add: busy_def)
    have all: "mset (all_threads ?s') = add_mset t (mset (all_threads s))"
      using b by (simp add: all_threads_def)
    have po: "prio_ok n ?s' = prio_ok n ?s" by (simp add: prio_ok_def fun_eq_iff)
    have "distinct (all_threads ?s')"
      using distinct_mset[of "all_threads ?s'" "t # all_threads s"] all t sched_invD(5)[OF inv] by simp
    moreover have "list_all (\<lambda>x. \<not> isReady (flagsOf ?s x) \<and> prio_ok n ?s x) (t # notReadyThreads s)"
      using d(8) False p by (simp add: prio_ok_def)
    moreover have "sorted_wrt (\<lambda>x y. isZombie (flagsOf ?s x) \<longrightarrow> isZombie (flagsOf ?s y)) (t # notReadyThreads s)"
      using d(11) False f by simp
    ultimately have "sched_inv n ?s'"
      unfolding sched_inv_def po b using d by (simp add: idle_home_def)
    with run all show ?thesis by simp
  next
    case True
    obtain q where q: "pq_enqueue t p (readyThreads s) = Inr q" "pq_inv n (prio ?s) q"
      using pq_enqueue_inv[OF d(2), of t] p o(1) pt by (auto simp del: set_concat)
    have m: "mset (concat q) = add_mset t (mset (concat (readyThreads s)))"
      using pq.enq_law[OF d(2), of t] q(1) p o(1) by (auto simp: mset_pq_items simp del: set_concat)
    let ?s' = "?s\<lparr>readyThreads := q\<rparr>"
    have run: "IRQaddThread cfg t p s = Inr (True, ?s')"
      using True q(1) by (simp add: IRQaddThread_def ready_push_def Let_def)
    have b: "busy ?s' = busy s" by (simp add: busy_def)
    have all: "mset (all_threads ?s') = add_mset t (mset (all_threads s))"
      using b m by (simp add: all_threads_def)
    have po: "prio_ok n ?s' = prio_ok n ?s" by (simp add: prio_ok_def fun_eq_iff)
    have "distinct (all_threads ?s')"
      using distinct_mset[of "all_threads ?s'" "t # all_threads s"] all t sched_invD(5)[OF inv] by simp
    moreover have "list_all (\<lambda>x. isReady (flagsOf ?s x)) (concat q)"
      using d(7) True fl unfolding list_all_add_mset[OF m] by simp
    ultimately have "sched_inv n ?s'"
      unfolding sched_inv_def po b using d q(2) by (simp add: idle_home_def)
    with run all show ?thesis by simp
  qed
qed

text \<open>\<^verbatim>\<open>removeDeadThreads\<close> frees the longest suffix of deleted threads.\<close>

lemma removeDeadThreads_spec:
  "removeDeadThreads s =
     s\<lparr>notReadyThreads := rev (dropWhile (\<lambda>t. isDeleted (flagsOf s t)) (rev (notReadyThreads s))),
       freed := freed s @ takeWhile (\<lambda>t. isDeleted (flagsOf s t)) (rev (notReadyThreads s))\<rparr>"
proof (induction s rule: removeDeadThreads.induct)
  case (1 s)
  show ?case
  proof (cases "notReadyThreads s" rule: rev_cases)
    case Nil
    then show ?thesis by (subst removeDeadThreads.simps) simp
  next
    case (snoc ys y)
    then show ?thesis
      using 1 by (subst removeDeadThreads.simps) (simp add: Let_def)
  qed
qed

lemma removeDeadThreads_inv:
  assumes inv: "sched_inv n s"
  shows "sched_inv n (removeDeadThreads s)"
proof -
  note d = sched_invD[OF inv]
  let ?P = "\<lambda>t. isDeleted (flagsOf s t)"
  let ?r = "rev (dropWhile ?P (rev (notReadyThreads s)))" and ?z = "rev (takeWhile ?P (rev (notReadyThreads s)))"
  have split: "notReadyThreads s = ?r @ ?z"
    by (metis rev_append rev_rev_ident takeWhile_dropWhile_id)
  let ?s' = "removeDeadThreads s"
  have f: "threads ?s' = threads s" "readyThreads ?s' = readyThreads s" "runningThreads ?s' = runningThreads s"
    "idle ?s' = idle s" "notReadyThreads ?s' = ?r"
    by (simp_all add: removeDeadThreads_spec)
  have b: "busy ?s' = busy s" by (simp add: busy_def f)
  have all: "mset (all_threads s) = mset (all_threads ?s') + mset ?z"
    unfolding all_threads_def b f by (subst split) simp
  then have "distinct (all_threads ?s' @ ?z)" using distinct_mset[of "all_threads ?s' @ ?z" "all_threads s"] d(5) by simp
  moreover have "list_all (\<lambda>t. \<not> isReady (flagsOf s t) \<and> prio_ok n s t) ?r"
    using d(8) by (subst (asm) split) simp
  moreover have "sorted_wrt (\<lambda>x y. isZombie (flagsOf s x) \<longrightarrow> isZombie (flagsOf s y)) ?r"
    using d(11) by (subst (asm) split) (simp add: sorted_wrt_append)
  moreover have "prio_ok n ?s' = prio_ok n s" "idle_home ?s' = idle_home s"
    by (simp_all add: prio_ok_def idle_home_def fun_eq_iff f)
  ultimately show ?thesis
    unfolding sched_inv_def b f using d by simp
qed

section \<open>Round robin\<close>

fun run_times :: "nat \<Rightarrow> config \<Rightarrow> int \<Rightarrow> nat \<Rightarrow> kstate \<Rightarrow> kstate result" where
  "run_times 0 cfg now core s = Inr s"
| "run_times (Suc k) cfg now core s = rbind (IRQrunScheduler cfg now core s) (run_times k cfg now core)"

text \<open>A core whose ready threads of the highest priority are \<open>x # xs\<close>, the first of them
  running.\<close>

definition turn :: "nat \<Rightarrow> tid list \<Rightarrow> nat \<Rightarrow> kstate \<Rightarrow> bool" where
  "turn p xs core s = (xs \<noteq> [] \<and> runningThreads s ! core = hd xs \<and> readyThreads s ! p = tl xs
     \<and> (\<forall>j. p < j \<and> j < NUM_PRIORITIES s \<longrightarrow> readyThreads s ! j = []) \<and> p < NUM_PRIORITIES s
     \<and> hd xs \<noteq> idle s ! core \<and> (\<forall>t \<in> set xs. isReady (flagsOf s t) \<and> prio s t = int p))"

lemma turn_step:
  assumes inv: "sched_inv n s" and c: "can_schedule core s" and tr: "turn p xs core s"
    and cfg: "\<not> with_affinity cfg"
  shows "\<exists>s'. IRQrunScheduler cfg now core s = Inr s' \<and> sched_inv n s' \<and> turn p (rotate1 xs) core s'
           \<and> threads s' = threads s \<and> holdingCore s' = holdingCore s \<and> idle s' = idle s"
proof -
  note d = sched_invD[OF inv]
  obtain x ys where xs: "xs = x # ys" using tr by (cases xs) (auto simp: turn_def)
  have core: "core < length (runningThreads s)" using c d(3) by (simp add: can_schedule_def)
  have t: "runningThreads s ! core = x" "readyThreads s ! p = ys" "p < length (readyThreads s)"
    "\<forall>j. p < j \<and> j < length (readyThreads s) \<longrightarrow> readyThreads s ! j = []" "x \<noteq> idle s ! core"
    "isReady (flagsOf s x)" "prio s x = int p" "\<forall>t \<in> set ys. isReady (flagsOf s t) \<and> prio s t = int p"
    using tr xs by (auto simp: turn_def NUM_PRIORITIES_def)
  let ?q = "(readyThreads s)[p := ys @ [x]]"
  have pp: "put_prev core s = Inr (s\<lparr>readyThreads := ?q\<rparr>)"
    using t zombie_not_ready[of "flagsOf s x"]
    by (auto simp: put_prev_def ready_push_def pq_enqueue_def Let_def)
  have sd: "scan_down ?q (length ?q) = Some p" using t(3,4) by (simp add: scan_down_Some)
  obtain s' where s': "IRQrunScheduler cfg now core s = Inr s'" "ran n core s (chosen cfg core s) s'"
    using IRQrunScheduler_ran[OF inv c] by blast
  have eq: "s' = schedule_plain cfg now core (s\<lparr>readyThreads := ?q\<rparr>)"
    using s'(1) c cfg pp by (simp add: IRQrunScheduler_def IRQstackOverflowCheck_def can_schedule_def)
  have f: "readyThreads s' = ?q[p := tl (ys @ [x])]"
    "runningThreads s' = (runningThreads s)[core := hd (ys @ [x])]"
    "threads s' = threads s" "idle s' = idle s" "holdingCore s' = holdingCore s"
    using sd t(3) by (simp_all add: eq schedule_plain_def run_thread_def NUM_PRIORITIES_def Let_def)
  have inv': "sched_inv n s'" using s'(2) by (simp add: ran_def)
  have ni: "hd (ys @ [x]) \<noteq> idle s ! core"
  proof
    assume e: "hd (ys @ [x]) = idle s ! core"
    have "prio s (idle s ! core) = - 1" using d(10) core d(3) by (simp add: list_all_length)
    moreover have "prio s (hd (ys @ [x])) = int p" using t(7,8) by (cases ys) auto
    ultimately show False using e by simp
  qed
  have "turn p (ys @ [x]) core s'"
    using t core ni by (auto simp: turn_def f NUM_PRIORITIES_def)
  with s'(1) inv' f xs show ?thesis by simp
qed

lemma run_times_turn:
  assumes "sched_inv n s" "can_schedule core s" "turn p xs core s" "\<not> with_affinity cfg"
    "\<forall>t. stackOk (threads s t)"
  shows "\<exists>s'. run_times k cfg now core s = Inr s' \<and> sched_inv n s' \<and> turn p (rotate k xs) core s'"
  using assms
proof (induction k arbitrary: s xs)
  case (Suc k)
  obtain s1 where s1: "IRQrunScheduler cfg now core s = Inr s1" "sched_inv n s1" "turn p (rotate1 xs) core s1"
      "threads s1 = threads s" "holdingCore s1 = holdingCore s" "idle s1 = idle s"
    using turn_step[OF Suc.prems(1-4)] by blast
  have "can_schedule core s1" using Suc.prems(2,5) s1 by (simp add: can_schedule_def)
  with Suc.IH[OF s1(2) _ s1(3) Suc.prems(4)] s1 Suc.prems(5) show ?case
    by (auto simp: rotate1_rotate_swap)
qed (auto)

section \<open>The scheduler interface\<close>

text \<open>A wakeup: the new flags and the call of \<open>IRQwokenThread\<close>.\<close>

abbreviation wake_with :: "tid \<Rightarrow> 8 word \<Rightarrow> kstate \<Rightarrow> kstate result" where
  "wake_with t f s \<equiv> IRQwokenThread t (upd_thread t (\<lambda>th. th\<lparr>tflags := f\<rparr>) s)"

interpretation prio_sched: basic_scheduler "\<lambda>s. sched_inv n s \<and> runnable s" "\<lambda>s. mset (all_threads s)"
  "\<lambda>s. length (idle s)" "IRQrunScheduler cfg" wake_with notReadyThreads
proof (unfold_locales, goal_cases)
  case (1 s core now)
  then have "can_schedule core s" by (simp add: can_schedule_def runnable_def)
  then obtain s' where "IRQrunScheduler cfg now core s = Inr s'" "ran n core s (chosen cfg core s) s'"
    using IRQrunScheduler_ran 1 by blast
  then show ?case using 1 by (simp add: ran_def runnable_def)
next
  case (2 s t f)
  then obtain s' where s': "wake_with t f s = Inr s'" "sched_inv n s'" "mset (all_threads s') = mset (all_threads s)"
      "threads s' = (threads s)(t := (threads s t)\<lparr>tflags := f\<rparr>)"
      "s' = s\<lparr>threads := threads s', readyThreads := readyThreads s', notReadyThreads := notReadyThreads s'\<rparr>"
    using IRQwokenThread_inv[of n s t f] by blast
  have "holdingCore s' = holdingCore s" "idle s' = idle s" by (subst s'(5), simp)+
  then show ?case using s'(1-4) 2 by (auto simp: runnable_def)
qed

section \<open>An example state\<close>

text \<open>Two cores and four priorities. Threads 0 and 1 are idle threads and running; thread 2 has
  priority 3 and may run on core 1 only, thread 3 has priority 1 and may run on core 0 only.\<close>

definition demo_thread :: "int \<Rightarrow> 8 word \<Rightarrow> 8 word \<Rightarrow> thread" where
  "demo_thread p a f = \<lparr>priority = p, savedPriority = p, affinity = a, tflags = f, mutexLocked = None,
     mutexWaiting = None, joinData = WaitingForJoin None, stackOk = True\<rparr>"

definition demo_mutex :: mutex where
  "demo_mutex = \<lparr>mowner = None, mdepth = -1, mqueue = None, mnext = None\<rparr>"

definition demo_state :: "(tid \<Rightarrow> thread) \<Rightarrow> tid list \<Rightarrow> tid PriorityQueue \<Rightarrow> tid list \<Rightarrow> kstate" where
  "demo_state th run q nr = \<lparr>threads = th, runningThreads = run, idle = [0..<length run],
     readyThreads = q, notReadyThreads = nr, sleepingList = [], existDeleted = False, freed = [],
     holdingCore = None, pendingWakeup = False, ctxsave = KernelCtx, schedRequests = [], osTimer = max_ll,
     osPreemption = (\<lambda>_. None), nextPreemption = max_ll, mutexes = (\<lambda>_. demo_mutex)\<rparr>"

definition demo_threads :: "tid \<Rightarrow> thread" where
  "demo_threads t = (if t < 2 then demo_thread (-1) 3 0
     else if t = 2 then demo_thread 3 2 0 else demo_thread 1 1 0)"

definition demo_smp :: kstate where
  "demo_smp = demo_state demo_threads [0, 1] [[], [3], [], [2]] []"

definition demo_cfg :: "bool \<Rightarrow> config" where
  "demo_cfg aff = \<lparr>extraChecks = NoChecks, with_smp = True, with_affinity = aff,
     with_processes = False, unified_timer = True\<rparr>"

lemma demo_smp_inv: "sched_inv 4 demo_smp"
  by (simp add: sched_inv_def demo_smp_def demo_state_def demo_threads_def demo_thread_def pq_inv_def
      all_threads_def busy_def idle_home_def prio_ok_def upt_rec numeral_eq_Suc All_less_Suc isReady_def)

lemma demo_smp_can: "can_schedule 0 demo_smp" "runnable demo_smp"
  by (simp_all add: can_schedule_def runnable_def demo_smp_def demo_state_def demo_threads_def demo_thread_def)

section \<open>Properties\<close>

text \<open>C1. \<^verbatim>\<open>IRQrunScheduler\<close>, in every configuration: it succeeds from every state of the
  invariant and keeps it, every thread the scheduler knew is still in exactly one place, the core
  runs the first candidate that may run on it (or its idle thread) and the other cores are not
  touched, and no candidate that may run on this core has a higher priority than the thread that now
  runs there.\<close>

theorem scheduler_runs_highest:
  assumes "sched_inv n s" "can_schedule core s"
  shows "\<exists>s'. IRQrunScheduler cfg now core s = Inr s' \<and> sched_inv n s'
      \<and> mset (all_threads s') = mset (all_threads s) \<and> threads s' = threads s
      \<and> runningThreads s' = (runningThreads s)[core :=
            (case chosen cfg core s of Some t \<Rightarrow> t | None \<Rightarrow> idle s ! core)]
      \<and> (\<forall>t \<in> set (candidates core s).
            (with_affinity cfg \<and> with_smp cfg \<longrightarrow> affine (affinity (threads s t)) core) \<longrightarrow>
            prio s t \<le> prio s (runningThreads s' ! core))"
proof -
  obtain s' where s': "IRQrunScheduler cfg now core s = Inr s'" and r: "ran n core s (chosen cfg core s) s'"
    using IRQrunScheduler_ran[OF assms] by blast
  have core: "core < length (idle s)" "core < length (runningThreads s)"
    using assms sched_invD(3) by (auto simp: can_schedule_def)
  have "prio s t \<le> prio s (runningThreads s' ! core)"
    if "t \<in> set (candidates core s)"
      "with_affinity cfg \<and> with_smp cfg \<longrightarrow> affine (affinity (threads s t)) core" for t
    using chosen_highest[OF assms(1) core(1) that] r core(2) by (auto simp: ran_def)
  with s' r show ?thesis by (auto simp: ran_def)
qed

theorem scheduler_runs_highest_witness:
  "\<exists>s'. IRQrunScheduler (demo_cfg False) 0 0 demo_smp = Inr s' \<and> runningThreads s' = [2, 1]"
  using scheduler_runs_highest[OF demo_smp_inv demo_smp_can(1), of "demo_cfg False" 0]
  by (auto simp: chosen_def candidates_def pq_items_def demo_cfg_def demo_smp_def demo_state_def
      demo_threads_def demo_thread_def)




definition demo_blocked :: kstate where
  "demo_blocked = demo_state (\<lambda>t. if t = 0 then demo_thread (-1) 1 0
     else if t = 1 then demo_thread 2 1 WAIT else demo_thread 1 1 0) [2] [[], [3], []] [1]"

lemma demo_blocked_inv: "sched_inv 3 demo_blocked"
  by (simp add: sched_inv_def demo_blocked_def demo_state_def demo_thread_def pq_inv_def
      all_threads_def busy_def idle_home_def prio_ok_def upt_rec numeral_eq_Suc All_less_Suc isReady_def
      WAIT_def)



lemma demo_blocked_turn:
  "can_schedule 0 demo_blocked" "turn 1 [2, 3] 0 demo_blocked" "stackOk (threads demo_blocked t)"
proof -
  have "j = 2" if "1 < j" "j < 3" for j :: nat using that by simp
  then show "turn 1 [2, 3] 0 demo_blocked"
    by (auto simp: turn_def demo_blocked_def demo_state_def demo_thread_def NUM_PRIORITIES_def isReady_def
        dest!: meta_spec)
qed (simp_all add: can_schedule_def demo_blocked_def demo_state_def demo_thread_def)


text \<open>With thread affinity a request can be lost: from a state of the invariant, the scheduler
  on core 0 skips a thread of the highest priority that may run on core 1 only, selects another one
  for core 0, and asks for no rescheduling, although core 1 is running its idle thread.\<close>

theorem affinity_request_lost:
  "\<exists>s s'. sched_inv 4 s \<and> can_schedule 0 s \<and> IRQrunScheduler (demo_cfg True) 0 0 s = Inr s'
     \<and> schedRequests s' = [] \<and> runningThreads s' ! 1 = idle s' ! 1
     \<and> (\<exists>r \<in> set (concat (readyThreads s')). affine (affinity (threads s' r)) 1 \<and> prio s' r = 3)"
proof (intro exI conjI)
  show "sched_inv 4 demo_smp" by (rule demo_smp_inv)
  show "can_schedule 0 demo_smp" by (rule demo_smp_can)
  let ?s' = "schedule_affine (demo_cfg True) 0 0 demo_smp"
  show "IRQrunScheduler (demo_cfg True) 0 0 demo_smp = Inr ?s'"
    by (simp add: IRQrunScheduler_def IRQstackOverflowCheck_def put_prev_def demo_cfg_def demo_smp_def
        demo_state_def demo_threads_def demo_thread_def)
  have e: "select_affine (\<lambda>t. affinity (threads demo_smp t)) 0 (runningPrio 0 demo_smp)
      (readyThreads demo_smp) (NUM_PRIORITIES demo_smp) None = (Some (3, 1), [[], [], [], [2]], Some 1)"
    by code_simp
  show "schedRequests ?s' = []" "runningThreads ?s' ! 1 = idle ?s' ! 1"
    by (simp_all add: schedule_affine_def e affinity_followup_def run_thread_def)
       (simp_all add: demo_smp_def demo_state_def)
  show "\<exists>r \<in> set (concat (readyThreads ?s')). affine (affinity (threads ?s' r)) 1 \<and> prio ?s' r = 3"
    by (simp add: schedule_affine_def e affinity_followup_def run_thread_def)
       (simp add: demo_smp_def demo_state_def demo_threads_def demo_thread_def affine_def)
qed

lemma All_less_4: "(\<forall>i < 4. P i) \<longleftrightarrow> P 0 \<and> P 1 \<and> P 2 \<and> P (3::nat)"
  by (simp add: numeral_eq_Suc All_less_Suc) blast

text \<open>A terminated thread that has been joined or detached is not always reclaimed by
  \<^verbatim>\<open>removeDeadThreads\<close>: one terminated thread that nobody has joined, at the back of the list,
  keeps every deleted thread in front of it.\<close>

theorem dead_thread_kept_behind_zombie:
  "\<exists>s. sched_inv 4 s \<and> isDeleted (flagsOf s 2) \<and> 2 \<in> set (notReadyThreads (removeDeadThreads s))
     \<and> freed (removeDeadThreads s) = []"
proof -
  let ?s = "demo_state (\<lambda>t. if t = 0 then demo_thread (-1) 1 0
     else if t = 2 then demo_thread 1 1 20 else demo_thread 1 1 4) [0] [[], [], [], []] [2, 3]"
  have "\<not> isReady 20" "\<not> isReady 4" "isReady 0" "isZombie 4"
    by (simp_all add: isReady_def isZombie_def DELETED_def)
  then have "sched_inv 4 ?s"
    by (simp add: sched_inv_def demo_state_def demo_thread_def pq_inv_def all_threads_def busy_def
        idle_home_def prio_ok_def upt_rec All_less_4)
  moreover have "isDeleted (flagsOf ?s 2)" "\<not> isDeleted (flagsOf ?s 3)"
    by (simp_all add: demo_state_def demo_thread_def isDeleted_def)
  moreover have "notReadyThreads ?s = [2, 3]" "freed ?s = []" by (simp_all add: demo_state_def)
  ultimately show ?thesis
    by (intro exI[of _ ?s]) (simp add: removeDeadThreads_spec)
qed

end
