(* ===== verification/Thread_Ops.thy ===== *)
theory Thread_Ops
  imports Priority_Scheduler
begin

text \<open>
  The operations of \<^verbatim>\<open>class Thread\<close> on top of the priority scheduler
  (\<^verbatim>\<open>kernel/thread.cpp\<close>): the flag transitions, waking and sleeping, the timer interrupt
  that wakes sleeping threads, termination, detach and join, and the processor affinity.

  An operation that blocks is cut at the context switch: the part up to it and the part after it are
  two definitions. What runs in between is other threads and interrupts.
\<close>

section \<open>Flag transitions\<close>

definition set_flag :: "8 word \<Rightarrow> tid \<Rightarrow> kstate \<Rightarrow> kstate" where
  "set_flag m t s = upd_thread t (\<lambda>th. th\<lparr>tflags := tflags th OR m\<rparr>) s"

text \<open>Clearing flags hands the thread to the scheduler when that makes it ready.\<close>

definition clear_flag :: "8 word \<Rightarrow> tid \<Rightarrow> kstate \<Rightarrow> kstate result" where
  "clear_flag m t s =
     (let wasReady = isReady (flagsOf s t);
          s1 = upd_thread t (\<lambda>th. th\<lparr>tflags := tflags th AND NOT m\<rparr>) s
      in if \<not> wasReady \<and> isReady (flagsOf s1 t) then IRQwokenThread t s1 else Inr s1)"

definition IRQsetWait :: "tid \<Rightarrow> kstate \<Rightarrow> kstate" where
  "IRQsetWait = set_flag WAIT"

definition IRQclearWait :: "tid \<Rightarrow> kstate \<Rightarrow> kstate result" where
  "IRQclearWait = clear_flag WAIT"

definition IRQsetSleep :: "tid \<Rightarrow> kstate \<Rightarrow> kstate" where
  "IRQsetSleep = set_flag SLEEP"

definition IRQclearSleepAndWait :: "tid \<Rightarrow> kstate \<Rightarrow> kstate result" where
  "IRQclearSleepAndWait = clear_flag (WAIT OR SLEEP)"

definition IRQsetJoinWait :: "tid \<Rightarrow> kstate \<Rightarrow> kstate" where
  "IRQsetJoinWait = set_flag WAIT_JOIN"

definition IRQclearJoinWait :: "tid \<Rightarrow> kstate \<Rightarrow> kstate result" where
  "IRQclearJoinWait = clear_flag WAIT_JOIN"

definition IRQsetDeleted :: "tid \<Rightarrow> kstate \<Rightarrow> kstate" where
  "IRQsetDeleted = set_flag DELETED"

definition IRQsetDeleting :: "tid \<Rightarrow> kstate \<Rightarrow> kstate" where
  "IRQsetDeleting = set_flag DELETING"

definition IRQsetDetached :: "tid \<Rightarrow> kstate \<Rightarrow> kstate" where
  "IRQsetDetached = set_flag DETACHED"

definition IRQsetUserspace :: "bool \<Rightarrow> tid \<Rightarrow> kstate \<Rightarrow> kstate" where
  "IRQsetUserspace us t s =
     (if us then set_flag USERSPACE t s
      else upd_thread t (\<lambda>th. th\<lparr>tflags := tflags th AND NOT USERSPACE\<rparr>) s)"

section \<open>Rescheduling after a wakeup\<close>

datatype Hlb = FromFirst | FromLast

text \<open>The first core in the given order the thread may run on and that runs a lower priority.\<close>

fun first_lower :: "config \<Rightarrow> kstate \<Rightarrow> tid \<Rightarrow> nat list \<Rightarrow> nat option" where
  "first_lower cfg s t [] = None"
| "first_lower cfg s t (i # is) =
     (if with_affinity cfg \<and> with_smp cfg \<and> \<not> affine (affinity (threads s t)) i
      then first_lower cfg s t is
      else if prio s (runningThreads s ! i) < prio s t then Some i
      else first_lower cfg s t is)"

definition IRQconsiderRescheduling :: "config \<Rightarrow> Hlb \<Rightarrow> tid \<Rightarrow> nat \<Rightarrow> kstate \<Rightarrow> bool \<times> kstate" where
  "IRQconsiderRescheduling cfg b t excludedCoreId s =
     (let order = (case b of FromFirst \<Rightarrow> [0..<CPU_NUM_CORES s] | FromLast \<Rightarrow> rev [0..<CPU_NUM_CORES s])
      in case first_lower cfg s t order of
           None \<Rightarrow> (False, s)
         | Some i \<Rightarrow> if i = excludedCoreId then (True, s) else (False, IRQinvokeSchedulerOnCore i s))"

definition consider_and_invoke :: "config \<Rightarrow> Hlb \<Rightarrow> tid \<Rightarrow> nat \<Rightarrow> kstate \<Rightarrow> kstate" where
  "consider_and_invoke cfg b t core s =
     (let (need, s1) = IRQconsiderRescheduling cfg b t core s
      in if need then IRQinvokeScheduler core s1 else s1)"

definition IRQwakeup :: "config \<Rightarrow> nat \<Rightarrow> tid \<Rightarrow> kstate \<Rightarrow> kstate result" where
  "IRQwakeup cfg core t s = rbind (IRQclearWait t s) (\<lambda>s1.
     Inr (consider_and_invoke cfg FromFirst t core s1))"

text \<open>With the kernel paused the scheduler cannot run on this core: the request stays pending.\<close>

definition PKwakeup :: "config \<Rightarrow> nat \<Rightarrow> tid \<Rightarrow> kstate \<Rightarrow> kstate result" where
  "PKwakeup cfg core t s = rbind (IRQclearWait t s) (\<lambda>s1.
     let (need, s2) = IRQconsiderRescheduling cfg FromFirst t core s1
     in Inr (if need then s2\<lparr>pendingWakeup := True\<rparr> else s2))"

definition thread_yield :: "nat \<Rightarrow> kstate \<Rightarrow> kstate" where
  "thread_yield core s = IRQinvokeScheduler core s"

section \<open>Creation\<close>

text \<open>\<open>alloc\<close> is what the allocation in \<^verbatim>\<open>doCreate\<close> gives: None when there is no
  memory for the thread. The result None is the null pointer.\<close>

definition STACK_MIN :: nat where "STACK_MIN = 256"

definition new_thread :: "bool \<Rightarrow> kstate \<Rightarrow> thread" where
  "new_thread detached s = \<lparr>priority = 1, savedPriority = 0,
     affinity = of_nat (2 ^ CPU_NUM_CORES s - 1), tflags = (if detached then DETACHED else 0),
     mutexLocked = None, mutexWaiting = None, joinData = WaitingForJoin None, stackOk = True\<rparr>"

definition thread_create :: "config \<Rightarrow> nat \<Rightarrow> tid option \<Rightarrow> nat \<Rightarrow> int \<Rightarrow> bool \<Rightarrow> kstate \<Rightarrow> (tid option \<times> kstate) result" where
  "thread_create cfg core alloc stacksize p detached s =
     (if \<not> validate_priority s p \<or> stacksize < STACK_MIN then Inr (None, s)
      else case alloc of
        None \<Rightarrow> Inr (None, s)
      | Some t \<Rightarrow>
          (let s1 = upd_thread t (\<lambda>_. new_thread detached s) s
           in rbind (IRQaddThread cfg t p s1) (\<lambda>(ok, s2).
                if ok then Inr (Some t, consider_and_invoke cfg FromLast t core s2)
                else Inr (None, s2))))"

section \<open>Sleeping and waiting\<close>

definition MIN_SLEEP :: int where "MIN_SLEEP = 100000"

text \<open>With a unified timer on a single core the scheduler, which is about to run, sets the timer.\<close>

definition IRQupdateOsTimer :: "config \<Rightarrow> kstate \<Rightarrow> kstate result" where
  "IRQupdateOsTimer cfg s =
     (if \<not> unified_timer cfg \<or> with_smp cfg then
        (case sleepingList s of
           [] \<Rightarrow> Inl (if extraChecks cfg = Kernel then UNEXPECTED else NullDereference)
         | (t, w) # _ \<Rightarrow> Inr (if w < osTimer s then s\<lparr>osTimer := w\<rparr> else s))
      else Inr s)"

definition enqueue_token :: "config \<Rightarrow> sleepToken \<Rightarrow> kstate \<Rightarrow> kstate result" where
  "enqueue_token cfg st s =
     IRQupdateOsTimer cfg (s\<lparr>sleepingList := ts_enqueue snd st (sleepingList s)\<rparr>)"

definition nanoSleepUntil_begin :: "config \<Rightarrow> nat \<Rightarrow> int \<Rightarrow> kstate \<Rightarrow> kstate result" where
  "nanoSleepUntil_begin cfg core absoluteTimeNs s =
     (let cur = runningThreads s ! core; at = max absoluteTimeNs MIN_SLEEP
      in rbind (enqueue_token cfg (cur, at) (IRQsetSleep cur s)) (\<lambda>s1.
         Inr (IRQinvokeScheduler core s1)))"

definition nanoSleepUntil_end :: "tid \<Rightarrow> int \<Rightarrow> kstate \<Rightarrow> kstate" where
  "nanoSleepUntil_end cur absoluteTimeNs s =
     s\<lparr>sleepingList := snd (ts_remove (cur, max absoluteTimeNs MIN_SLEEP) (sleepingList s))\<rparr>"

definition thread_wait_begin :: "nat \<Rightarrow> kstate \<Rightarrow> kstate" where
  "thread_wait_begin core s = IRQinvokeScheduler core (IRQsetWait (runningThreads s ! core) s)"

datatype TimedWaitResult = NoTimeout | Timeout

definition timedWait_begin :: "config \<Rightarrow> nat \<Rightarrow> int \<Rightarrow> kstate \<Rightarrow> kstate result" where
  "timedWait_begin cfg core absoluteTimeNs s =
     (let cur = runningThreads s ! core; at = max absoluteTimeNs MIN_SLEEP
      in rbind (enqueue_token cfg (cur, at) (IRQsetWait cur s)) (\<lambda>s1.
         Inr (IRQinvokeScheduler core s1)))"

definition timedWait_end :: "tid \<Rightarrow> int \<Rightarrow> kstate \<Rightarrow> TimedWaitResult \<times> kstate" where
  "timedWait_end cur absoluteTimeNs s =
     (let (removed, l) = ts_remove (cur, max absoluteTimeNs MIN_SLEEP) (sleepingList s)
      in (if removed then NoTimeout else Timeout, s\<lparr>sleepingList := l\<rparr>))"

text \<open>The waits called with the kernel paused give up the pause kernel lock before the context switch
  and take it again after it.\<close>

definition irqDisabledFastLock :: "config \<Rightarrow> nat \<Rightarrow> kstate \<Rightarrow> kstate" where
  "irqDisabledFastLock cfg core s = s\<lparr>holdingCore := Some (if with_smp cfg then core else 0)\<rparr>"

definition irqDisabledFastUnlock :: "kstate \<Rightarrow> kstate" where
  "irqDisabledFastUnlock s = s\<lparr>holdingCore := None\<rparr>"

definition PKrestartKernelAndWait_begin :: "nat \<Rightarrow> kstate \<Rightarrow> kstate" where
  "PKrestartKernelAndWait_begin core s =
     IRQinvokeScheduler core (irqDisabledFastUnlock (IRQsetWait (runningThreads s ! core) s))"

definition PKrestartKernelAndWait_end :: "config \<Rightarrow> nat \<Rightarrow> kstate \<Rightarrow> kstate result" where
  "PKrestartKernelAndWait_end cfg core s = FastPauseKernelLock_lock cfg core s"

definition PKrestartKernelAndTimedWait_begin :: "config \<Rightarrow> nat \<Rightarrow> int \<Rightarrow> kstate \<Rightarrow> kstate result" where
  "PKrestartKernelAndTimedWait_begin cfg core absoluteTimeNs s =
     (let cur = runningThreads s ! core; at = max absoluteTimeNs MIN_SLEEP
      in rbind (enqueue_token cfg (cur, at) (IRQsetWait cur s)) (\<lambda>s1.
         Inr (IRQinvokeScheduler core (irqDisabledFastUnlock s1))))"

definition PKrestartKernelAndTimedWait_end :: "config \<Rightarrow> nat \<Rightarrow> tid \<Rightarrow> int \<Rightarrow> kstate \<Rightarrow> TimedWaitResult \<times> kstate" where
  "PKrestartKernelAndTimedWait_end cfg core cur absoluteTimeNs s =
     timedWait_end cur absoluteTimeNs (irqDisabledFastLock cfg core s)"

section \<open>The timer interrupt\<close>

lemma clear_flag_sleepingList:
  "clear_flag m t s = Inr s' \<Longrightarrow> sleepingList s' = sleepingList s"
  by (auto simp: clear_flag_def IRQwokenThread_def ready_push_def Let_def rbind_eq_Inr ensure_eq_Inr
      split: if_splits)

lemma consider_sleepingList:
  "IRQconsiderRescheduling cfg b t c s = (need, s') \<Longrightarrow> sleepingList s' = sleepingList s"
  by (auto simp: IRQconsiderRescheduling_def Let_def split: option.splits if_splits)

function wake_expired :: "config \<Rightarrow> int \<Rightarrow> bool \<Rightarrow> kstate \<Rightarrow> (bool \<times> kstate) result" where
  "wake_expired cfg now hptw s =
     (case ts_dequeueTime snd now (sleepingList s) of
        (None, _) \<Rightarrow> Inr (hptw, s)
      | (Some (t, w), rest) \<Rightarrow>
          rbind (IRQclearSleepAndWait t (s\<lparr>sleepingList := rest\<rparr>)) (\<lambda>s1.
            let (need, s2) = IRQconsiderRescheduling cfg FromLast t (WAKEUP_HANDLING_CORE s1) s1
            in wake_expired cfg now (hptw \<or> need) s2))"
  by pat_completeness auto
termination
  by (relation "measure (\<lambda>(cfg, now, hptw, s). length (sleepingList s))")
     (auto simp: ts_dequeueTime_def IRQclearSleepAndWait_def dest!: clear_flag_sleepingList
        consider_sleepingList[OF sym] split: list.splits if_splits)

declare wake_expired.simps [simp del]

definition IRQwakeThreads :: "config \<Rightarrow> int \<Rightarrow> nat \<Rightarrow> kstate \<Rightarrow> kstate result" where
  "IRQwakeThreads cfg now core s =
     ensure (extraChecks cfg = Kernel \<longrightarrow> core = WAKEUP_HANDLING_CORE s) UNEXPECTED
      (rbind (wake_expired cfg now False s) (\<lambda>(hptw, s1).
         let s2 = (if hptw then IRQinvokeScheduler core s1 else s1)
         in if unified_timer cfg then
              (if hptw then Inr s2
               else if nextPreemption s2 \<le> now then Inr (IRQinvokeScheduler core s2)
               else Inr (s2\<lparr>osTimer := min (firstWakeup s2) (nextPreemption s2)\<rparr>))
            else Inr (if sleepingList s2 = [] then s2 else s2\<lparr>osTimer := firstWakeup s2\<rparr>)))"

section \<open>Termination, detach and join\<close>

definition terminate :: "tid \<Rightarrow> kstate \<Rightarrow> kstate result" where
  "terminate t s =
     (if isDeleting (flagsOf s t) then Inr s
      else IRQclearSleepAndWait t (IRQsetDeleting t s))"

definition testTerminate :: "nat \<Rightarrow> kstate \<Rightarrow> bool" where
  "testTerminate core s = isDeleting (flagsOf s (runningThreads s ! core))"

text \<open>Reading \<^verbatim>\<open>waitingForJoin\<close> of a terminated thread reads the result as a pointer.\<close>

definition waitingForJoin :: "thread \<Rightarrow> tid option" where
  "waitingForJoin th = (case joinData th of WaitingForJoin j \<Rightarrow> j | JoinResult r \<Rightarrow> (if r = 0 then None else Some r))"

definition detach :: "config \<Rightarrow> nat \<Rightarrow> tid \<Rightarrow> kstate \<Rightarrow> kstate result" where
  "detach cfg core t s =
     (if extraChecks cfg \<noteq> NoChecks \<and> t \<noteq> runningThreads s ! core \<and> \<not> IRQexists t s then Inr s
      else let s1 = IRQsetDetached t s;
               s2 = (if isZombie (flagsOf s1 t) then s1\<lparr>existDeleted := True\<rparr> else s1)
           in case waitingForJoin (threads s2 t) of
                None \<Rightarrow> Inr s2
              | Some j \<Rightarrow> if isZombie (flagsOf s2 t) then Inr s2
                          else rbind (IRQclearJoinWait j s2) (\<lambda>s3.
                            Inr (consider_and_invoke cfg FromLast j core s3)))"

datatype joinOutcome = JoinReturns "nat option" | JoinBlocks

text \<open>The completion of a join once the thread has terminated; the lock is then released and the
  dead threads reclaimed.\<close>

definition join_complete :: "tid \<Rightarrow> kstate \<Rightarrow> joinOutcome \<times> kstate" where
  "join_complete t s =
     (let s1 = IRQsetDetached t s
      in (JoinReturns (Some (case joinData (threads s t) of JoinResult r \<Rightarrow> r | WaitingForJoin _ \<Rightarrow> 0)),
          removeDeadThreads s1))"

definition join_begin :: "config \<Rightarrow> nat \<Rightarrow> tid \<Rightarrow> kstate \<Rightarrow> joinOutcome \<times> kstate" where
  "join_begin cfg core t s =
     (let cur = runningThreads s ! core in
      if t = cur then (JoinReturns None, s)
      else if extraChecks cfg \<noteq> NoChecks \<and> \<not> IRQexists t s then (JoinReturns None, s)
      else if isDetached (flagsOf s t) then (JoinReturns None, s)
      else if isZombie (flagsOf s t) then join_complete t s
      else if waitingForJoin (threads s t) \<noteq> None then (JoinReturns None, s)
      else (JoinBlocks, IRQinvokeScheduler core (IRQsetJoinWait cur
              (upd_thread t (\<lambda>th. th\<lparr>joinData := WaitingForJoin (Some cur)\<rparr>) s))))"

text \<open>One turn of the loop after a context switch back to the waiting thread.\<close>

definition join_resume :: "config \<Rightarrow> nat \<Rightarrow> tid \<Rightarrow> kstate \<Rightarrow> joinOutcome \<times> kstate" where
  "join_resume cfg core t s =
     (let cur = runningThreads s ! core in
      if extraChecks cfg \<noteq> NoChecks \<and> \<not> IRQexists t s then (JoinReturns None, s)
      else if isDetached (flagsOf s t) then (JoinReturns None, s)
      else if isZombie (flagsOf s t) then join_complete t s
      else (JoinBlocks, IRQinvokeScheduler core (IRQsetJoinWait cur s)))"

text \<open>The end of \<^verbatim>\<open>threadLauncher\<close>, when the entry point has returned.\<close>

definition thread_exit :: "nat \<Rightarrow> nat \<Rightarrow> kstate \<Rightarrow> kstate result" where
  "thread_exit core res s =
     (let cur = runningThreads s ! core; s1 = IRQsetDeleted cur s in
      rbind (if \<not> isDetached (flagsOf s1 cur) then
               rbind (case waitingForJoin (threads s1 cur) of
                        None \<Rightarrow> Inr s1
                      | Some j \<Rightarrow> IRQclearJoinWait j s1)
                 (\<lambda>s2. Inr (upd_thread cur (\<lambda>th. th\<lparr>joinData := JoinResult res\<rparr>) s2))
             else Inr (s1\<lparr>existDeleted := True\<rparr>))
        (\<lambda>s3. Inr (IRQinvokeScheduler core s3)))"

section \<open>Affinity\<close>

definition unrestrictedAffinityMask :: "kstate \<Rightarrow> 8 word" where
  "unrestrictedAffinityMask s = of_nat (2 ^ CPU_NUM_CORES s - 1)"

text \<open>The core the thread is running on, if any: the loop over the cores.\<close>

fun running_on :: "tid \<Rightarrow> tid list \<Rightarrow> nat \<Rightarrow> nat option" where
  "running_on t [] i = None"
| "running_on t (r # rs) i = (if r \<noteq> t then running_on t rs (Suc i) else Some i)"

definition setAffinity :: "config \<Rightarrow> nat \<Rightarrow> tid \<Rightarrow> 8 word \<Rightarrow> kstate \<Rightarrow> bool \<times> kstate" where
  "setAffinity cfg core t a s =
     (if with_affinity cfg \<and> with_smp cfg then
        if a = 0 then (False, s)
        else if a > unrestrictedAffinityMask s then (False, s)
        else if extraChecks cfg \<noteq> NoChecks \<and> t \<noteq> runningThreads s ! core \<and> \<not> IRQexists t s then (False, s)
        else let s1 = upd_thread t (\<lambda>th. th\<lparr>affinity := a\<rparr>) s
             in (True, case running_on t (runningThreads s1) 0 of
                   None \<Rightarrow> s1
                 | Some i \<Rightarrow> if affine a i then s1
                             else if i = core then IRQinvokeScheduler core s1
                             else IRQinvokeSchedulerOnCore i s1)
      else (a = unrestrictedAffinityMask s, s))"

definition getAffinity :: "config \<Rightarrow> tid \<Rightarrow> kstate \<Rightarrow> 8 word" where
  "getAffinity cfg t s =
     (if with_affinity cfg \<and> with_smp cfg then affinity (threads s t) else unrestrictedAffinityMask s)"

section \<open>Flag transitions keep the scheduler invariant\<close>

definition known :: "kstate \<Rightarrow> tid \<Rightarrow> bool" where
  "known s t = (t \<in> set (concat (readyThreads s)) \<union> set (notReadyThreads s) \<union> set (busy s))"

text \<open>The masks of the clear operations do not contain the bit of a terminated thread.\<close>

definition wait_mask :: "8 word \<Rightarrow> bool" where
  "wait_mask m = (\<not> bit m 2)"

lemma wait_masks [simp]: "wait_mask WAIT" "wait_mask (WAIT OR SLEEP)" "wait_mask WAIT_JOIN"
  by (simp_all add: wait_mask_def flag_defs bit_or_iff bit_numeral_rec bit_1_iff)

lemma isReady_clear: "isReady f \<Longrightarrow> isReady (f AND NOT m)"
  by (simp add: flag_bits bit_and_iff)

lemma isZombie_clear: "wait_mask m \<Longrightarrow> isZombie (f AND NOT m) = isZombie f"
  by (simp add: flag_bits wait_mask_def bit_and_iff bit_not_iff)

lemma known_not_ready:
  assumes "sched_inv n s" "known s t" "\<not> isReady (flagsOf s t)"
  shows "t \<in> set (notReadyThreads s) \<union> set (busy s)"
  using assms sched_invD(7)[OF assms(1)] by (auto simp: known_def list_all_iff)

lemma known_ready:
  assumes "sched_inv n s" "known s t" "isReady (flagsOf s t)"
  shows "t \<in> set (concat (readyThreads s)) \<union> set (busy s)"
  using assms sched_invD(8)[OF assms(1)] by (auto simp: known_def list_all_iff)

lemma clear_flag_inv:
  assumes inv: "sched_inv n s" and t: "known s t" and m: "wait_mask m"
  shows "\<exists>s'. clear_flag m t s = Inr s' \<and> sched_inv n s' \<and> mset (all_threads s') = mset (all_threads s)
           \<and> threads s' = (threads s)(t := (threads s t)\<lparr>tflags := flagsOf s t AND NOT m\<rparr>)
           \<and> s' = s\<lparr>threads := threads s', readyThreads := readyThreads s', notReadyThreads := notReadyThreads s'\<rparr>"
proof -
  let ?f = "flagsOf s t AND NOT m"
  let ?s = "upd_thread t (\<lambda>th. th\<lparr>tflags := tflags th AND NOT m\<rparr>) s"
  have u: "?s = upd_thread t (\<lambda>th. th\<lparr>tflags := ?f\<rparr>) s" by (simp add: upd_thread_def)
  show ?thesis
  proof (cases "\<not> isReady (flagsOf s t) \<and> isReady ?f")
    case True
    then have "t \<in> set (notReadyThreads s) \<union> set (busy s)"
      using known_not_ready[OF inv t] by blast
    with IRQwokenThread_inv[OF inv this, of ?f] True show ?thesis
      by (simp add: clear_flag_def u)
  next
    case False
    have "sched_inv n ?s"
    proof (cases "isReady (flagsOf s t)")
      case True
      then show ?thesis
        using known_ready[OF inv t] isReady_clear[of "flagsOf s t" m] inv
        unfolding u by (intro sched_inv_upd_flags) auto
    next
      case nr: False
      then show ?thesis
        using known_not_ready[OF inv t] False isZombie_clear[OF m, of "flagsOf s t"] inv
        unfolding u by (intro sched_inv_upd_flags) auto
    qed
    moreover have "clear_flag m t s = Inr ?s" using False by (auto simp: clear_flag_def)
    moreover have "?s = s\<lparr>threads := (threads s)(t := (threads s t)\<lparr>tflags := ?f\<rparr>)\<rparr>"
      by (simp add: upd_thread_def)
    ultimately show ?thesis by (intro exI[of _ ?s]) (simp add: all_threads_def busy_def)
  qed
qed

lemma set_flag_running_inv:
  assumes "sched_inv n s" "t \<in> set (busy s)"
  shows "sched_inv n (set_flag m t s)"
  using sched_inv_upd_flags[OF assms(1), of t "flagsOf s t OR m"] assms(2)
  by (simp add: set_flag_def upd_thread_def)

text \<open>Setting a flag that is neither a reason to wait nor the bit of a terminated thread.\<close>

lemma set_flag_other_inv:
  assumes "sched_inv n s" "known s t" "m = DETACHED \<or> m = DELETING \<or> m = USERSPACE"
  shows "sched_inv n (set_flag m t s)"
proof -
  let ?f = "flagsOf s t OR m"
  have f: "isReady ?f = isReady (flagsOf s t)" "isZombie ?f = isZombie (flagsOf s t)"
    using assms(3) by (auto simp: flag_bits flag_update_bits)
  have "set_flag m t s = upd_thread t (\<lambda>th. th\<lparr>tflags := ?f\<rparr>) s"
    by (simp add: set_flag_def upd_thread_def)
  moreover have "sched_inv n (upd_thread t (\<lambda>th. th\<lparr>tflags := ?f\<rparr>) s)"
    using known_not_ready[OF assms(1,2)] known_ready[OF assms(1,2)] f assms(1)
    by (intro sched_inv_upd_flags) auto
  ultimately show ?thesis by simp
qed

section \<open>Rescheduling\<close>

definition may_run :: "config \<Rightarrow> kstate \<Rightarrow> tid \<Rightarrow> nat \<Rightarrow> bool" where
  "may_run cfg s t i = (with_affinity cfg \<and> with_smp cfg \<longrightarrow> affine (affinity (threads s t)) i)"

lemma first_lower_Some:
  "first_lower cfg s t is = Some i \<Longrightarrow>
     i \<in> set is \<and> may_run cfg s t i \<and> prio s (runningThreads s ! i) < prio s t"
  by (induction "is") (auto simp: may_run_def split: if_splits)

lemma first_lower_None:
  "first_lower cfg s t is = None \<Longrightarrow> i \<in> set is \<Longrightarrow> may_run cfg s t i \<Longrightarrow>
     prio s t \<le> prio s (runningThreads s ! i)"
  by (induction "is") (auto simp: may_run_def split: if_splits)

text \<open>A reschedule is requested exactly when some core the thread may run on runs a lower
  priority, and then on one such core.\<close>

lemma consider_cases:
  assumes "IRQconsiderRescheduling cfg b t c s = (need, s')"
  obtains (none) "\<not> need" "s' = s"
      "\<forall>i < CPU_NUM_CORES s. may_run cfg s t i \<longrightarrow> prio s t \<le> prio s (runningThreads s ! i)"
  | (this_core) "need" "s' = s" "c < CPU_NUM_CORES s" "may_run cfg s t c" "prio s (runningThreads s ! c) < prio s t"
  | (other) i where "\<not> need" "s' = IRQinvokeSchedulerOnCore i s" "i \<noteq> c" "i < CPU_NUM_CORES s"
      "may_run cfg s t i" "prio s (runningThreads s ! i) < prio s t"
proof -
  let ?o = "case b of FromFirst \<Rightarrow> [0..<CPU_NUM_CORES s] | FromLast \<Rightarrow> rev [0..<CPU_NUM_CORES s]"
  have o: "set ?o = {0..<CPU_NUM_CORES s}" by (cases b) auto
  show thesis
  proof (cases "first_lower cfg s t ?o")
    case None
    then have "\<forall>i < CPU_NUM_CORES s. may_run cfg s t i \<longrightarrow> prio s t \<le> prio s (runningThreads s ! i)"
      using first_lower_None[OF None] o by auto
    with none assms None show thesis by (simp add: IRQconsiderRescheduling_def Let_def)
  next
    case (Some i)
    with first_lower_Some[OF Some] o
    have i: "i < CPU_NUM_CORES s" "may_run cfg s t i" "prio s (runningThreads s ! i) < prio s t" by auto
    with this_core other assms Some show thesis
      by (auto simp: IRQconsiderRescheduling_def Let_def split: if_splits)
  qed
qed

lemma consider_invoke_fields [simp]:
  "threads (consider_and_invoke cfg b t c s) = threads s"
  "runningThreads (consider_and_invoke cfg b t c s) = runningThreads s"
  "idle (consider_and_invoke cfg b t c s) = idle s"
  "readyThreads (consider_and_invoke cfg b t c s) = readyThreads s"
  "notReadyThreads (consider_and_invoke cfg b t c s) = notReadyThreads s"
  "sleepingList (consider_and_invoke cfg b t c s) = sleepingList s"
  "osTimer (consider_and_invoke cfg b t c s) = osTimer s"
  "nextPreemption (consider_and_invoke cfg b t c s) = nextPreemption s"
  by (auto simp: consider_and_invoke_def IRQinvokeScheduler_def IRQinvokeSchedulerOnCore_def
      IRQconsiderRescheduling_def Let_def split: option.splits)

lemma sched_inv_consider [simp]:
  "sched_inv n (consider_and_invoke cfg b t c s) = sched_inv n s"
  "all_threads (consider_and_invoke cfg b t c s) = all_threads s"
  by (intro sched_inv_cong; simp)+

lemma consider_invoke_requests:
  "(schedRequests (consider_and_invoke cfg b t c s) = schedRequests s
     \<and> (\<forall>i < CPU_NUM_CORES s. may_run cfg s t i \<longrightarrow> prio s t \<le> prio s (runningThreads s ! i)))
 \<or> (\<exists>i < CPU_NUM_CORES s. schedRequests (consider_and_invoke cfg b t c s) = schedRequests s @ [i]
     \<and> may_run cfg s t i \<and> prio s (runningThreads s ! i) < prio s t)"
proof -
  obtain need s1 where c: "IRQconsiderRescheduling cfg b t c s = (need, s1)" by fastforce
  from c show ?thesis
    by (cases rule: consider_cases) (auto simp: consider_and_invoke_def IRQinvokeScheduler_def c)
qed

lemma known_cong:
  assumes "mset (all_threads s') = mset (all_threads s)" "idle s' = idle s" "sched_inv n s" "sched_inv n s'"
  shows "known s' t = known s t"
proof -
  have k: "known s t \<longleftrightarrow> t \<in> set (all_threads s) \<and> t \<notin> set (idle s)" if "sched_inv n s" for s
    using sched_inv_idle_notin[OF that] by (auto simp: known_def all_threads_def simp del: set_concat)
  show ?thesis using k[OF assms(3)] k[OF assms(4)] assms(2) mset_eq_setD[OF assms(1)] by simp
qed

lemma IRQwakeup_spec:
  assumes "sched_inv n s" "known s t"
  shows "\<exists>s1. IRQclearWait t s = Inr s1 \<and> IRQwakeup cfg core t s = Inr (consider_and_invoke cfg FromFirst t core s1)
      \<and> sched_inv n s1 \<and> mset (all_threads s1) = mset (all_threads s)
      \<and> threads s1 = (threads s)(t := (threads s t)\<lparr>tflags := flagsOf s t AND NOT WAIT\<rparr>)
      \<and> s1 = s\<lparr>threads := threads s1, readyThreads := readyThreads s1, notReadyThreads := notReadyThreads s1\<rparr>"
  using clear_flag_inv[OF assms, of WAIT] by (auto simp: IRQwakeup_def IRQclearWait_def)

section \<open>The timer interrupt\<close>

text \<open>Every sleeping thread is one the scheduler knows, and the list is sorted.\<close>

definition sleep_inv :: "kstate \<Rightarrow> bool" where
  "sleep_inv s = (sorted (map snd (sleepingList s)) \<and> list_all (\<lambda>(t, w). known s t) (sleepingList s))"

definition expired :: "int \<Rightarrow> sleepToken list \<Rightarrow> tid set" where
  "expired now l = {t. \<exists>w. (t, w) \<in> set l \<and> w \<le> now}"

lemma wake_expired_spec:
  assumes "sched_inv n s" "sleep_inv s"
  shows "\<exists>h s'. wake_expired cfg now hptw s = Inr (h, s') \<and> sched_inv n s' \<and> sleep_inv s'
      \<and> mset (all_threads s') = mset (all_threads s)
      \<and> sleepingList s' = filter (\<lambda>(t, w). now < w) (sleepingList s)
      \<and> (\<forall>t. threads s' t = (threads s t)\<lparr>tflags := (if t \<in> expired now (sleepingList s)
              then flagsOf s t AND NOT (WAIT OR SLEEP) else flagsOf s t)\<rparr>)
      \<and> runningThreads s' = runningThreads s \<and> idle s' = idle s
      \<and> nextPreemption s' = nextPreemption s \<and> (\<exists>r. schedRequests s' = schedRequests s @ r)"
  using assms
proof (induction cfg now hptw s rule: wake_expired.induct)
  case (1 cfg now hptw s)
  show ?case
  proof (cases "sleepingList s")
    case Nil
    then show ?thesis
      using "1.prems" by (subst wake_expired.simps) (auto simp: ts_dequeueTime_def expired_def)
  next
    case (Cons tw rest)
    obtain t w where tw: "tw = (t, w)" by (cases tw)
    have srt: "sorted (w # map snd rest)" and kn: "known s t" "list_all (\<lambda>(t, w). known s t) rest"
      using "1.prems"(2) Cons tw by (simp_all add: sleep_inv_def)
    show ?thesis
    proof (cases "now < w")
      case True
      have "\<forall>(t', w') \<in> set ((t, w) # rest). now < w'" using srt True by fastforce
      then have "filter (\<lambda>(t, w). now < w) (sleepingList s) = sleepingList s"
        and "expired now (sleepingList s) = {}"
        using Cons tw by (auto simp: expired_def filter_id_conv)
      then show ?thesis
        using "1.prems" True Cons tw
        by (subst wake_expired.simps) (simp add: ts_dequeueTime_def)
    next
      case False
      let ?s0 = "s\<lparr>sleepingList := rest\<rparr>"
      have inv0: "sched_inv n ?s0" "known ?s0 t" "mset (all_threads ?s0) = mset (all_threads s)"
        using "1.prems"(1) kn by (simp_all add: sched_inv_def all_threads_def busy_def idle_home_def
            prio_ok_def[abs_def] known_def)
      have deq: "ts_dequeueTime snd now (sleepingList s) = (Some (t, w), rest)"
        using Cons tw False by (simp add: ts_dequeueTime_def)
      obtain s1 where s1: "clear_flag (WAIT OR SLEEP) t ?s0 = Inr s1" "sched_inv n s1"
          "mset (all_threads s1) = mset (all_threads ?s0)"
          "threads s1 = (threads ?s0)(t := (threads ?s0 t)\<lparr>tflags := flagsOf ?s0 t AND NOT (WAIT OR SLEEP)\<rparr>)"
          and fr: "s1 = ?s0\<lparr>threads := threads s1, readyThreads := readyThreads s1, notReadyThreads := notReadyThreads s1\<rparr>"
        using clear_flag_inv[OF inv0(1,2) wait_masks(2)] by blast
      have f1: "sleepingList s1 = rest" "runningThreads s1 = runningThreads s" "idle s1 = idle s"
          "nextPreemption s1 = nextPreemption s" "schedRequests s1 = schedRequests s"
        by (subst fr, simp)+
      obtain need s2 where c: "IRQconsiderRescheduling cfg FromLast t (WAKEUP_HANDLING_CORE s1) s1 = (need, s2)"
        by fastforce
      have f2: "threads s2 = threads s1 \<and> runningThreads s2 = runningThreads s1 \<and> idle s2 = idle s1
          \<and> readyThreads s2 = readyThreads s1 \<and> notReadyThreads s2 = notReadyThreads s1
          \<and> sleepingList s2 = sleepingList s1 \<and> nextPreemption s2 = nextPreemption s1
          \<and> (\<exists>r. schedRequests s2 = schedRequests s1 @ r)"
        using c by (cases rule: consider_cases) (auto simp: IRQinvokeSchedulerOnCore_def)
      have inv2: "sched_inv n s2" "mset (all_threads s2) = mset (all_threads s)"
        using sched_inv_cong[of s2 s1] f2 s1(2,3) inv0(3) by auto
      have k2: "known s2 x = known s x" for x
        using known_cong[OF inv2(2) _ "1.prems"(1) inv2(1), of x] f1 f2 by simp
      have sl2: "sleep_inv s2"
        using srt kn(2) f1 f2 by (simp add: sleep_inv_def k2)
      have "\<exists>h s'. wake_expired cfg now (hptw \<or> need) s2 = Inr (h, s') \<and> sched_inv n s' \<and> sleep_inv s'
          \<and> mset (all_threads s') = mset (all_threads s2)
          \<and> sleepingList s' = filter (\<lambda>(t, w). now < w) (sleepingList s2)
          \<and> (\<forall>t. threads s' t = (threads s2 t)\<lparr>tflags := (if t \<in> expired now (sleepingList s2)
                  then flagsOf s2 t AND NOT (WAIT OR SLEEP) else flagsOf s2 t)\<rparr>)
          \<and> runningThreads s' = runningThreads s2 \<and> idle s' = idle s2
          \<and> nextPreemption s' = nextPreemption s2 \<and> (\<exists>r. schedRequests s' = schedRequests s2 @ r)"
        using "1.IH" deq s1(1) c inv2(1) sl2 by (auto simp: IRQclearSleepAndWait_def)
      then obtain h s' where s': "wake_expired cfg now (hptw \<or> need) s2 = Inr (h, s')" "sched_inv n s'" "sleep_inv s'"
          "mset (all_threads s') = mset (all_threads s2)"
          "sleepingList s' = filter (\<lambda>(t, w). now < w) (sleepingList s2)"
          and th: "\<And>t. threads s' t = (threads s2 t)\<lparr>tflags := (if t \<in> expired now (sleepingList s2)
                  then flagsOf s2 t AND NOT (WAIT OR SLEEP) else flagsOf s2 t)\<rparr>"
          and fs: "runningThreads s' = runningThreads s2" "idle s' = idle s2"
          "nextPreemption s' = nextPreemption s2" "\<exists>r. schedRequests s' = schedRequests s2 @ r"
        by blast
      have run: "wake_expired cfg now hptw s = Inr (h, s')"
        using deq s1(1) c s'(1) by (subst wake_expired.simps) (simp add: IRQclearSleepAndWait_def)
      have ex: "expired now (sleepingList s) = insert t (expired now rest)"
        using Cons tw False by (auto simp: expired_def)
      have "threads s' x = (threads s x)\<lparr>tflags := (if x \<in> expired now (sleepingList s)
              then flagsOf s x AND NOT (WAIT OR SLEEP) else flagsOf s x)\<rparr>" for x
        unfolding th ex using f1 f2 s1(4) by (auto simp: and.assoc)
      moreover have "sleepingList s' = filter (\<lambda>(t, w). now < w) (sleepingList s)"
        using s'(5) f1 f2 Cons tw False by simp
      moreover have "\<exists>r. schedRequests s' = schedRequests s @ r"
        using fs(4) f1 f2 by auto
      ultimately show ?thesis
        using run s' fs f1 f2 inv2(2) by auto
    qed
  qed
qed

lemma firstWakeup_le: "sleep_inv s \<Longrightarrow> (t, w) \<in> set (sleepingList s) \<Longrightarrow> firstWakeup s \<le> w"
  by (cases "sleepingList s") (auto simp: firstWakeup_def sleep_inv_def)

section \<open>Sleeping\<close>

lemma sorted_map_ts_enqueue: "sorted (map tm q) \<Longrightarrow> sorted (map tm (ts_enqueue tm x q))"
  by (induction q) (auto simp: set_ts_enqueue)

lemma enqueue_token_spec:
  assumes "sleep_inv s" "known s t"
  shows "\<exists>s'. enqueue_token cfg (t, w) s = Inr s' \<and> sleep_inv s' \<and> (t, w) \<in> set (sleepingList s')
      \<and> set (sleepingList s') = insert (t, w) (set (sleepingList s))
      \<and> (\<not> unified_timer cfg \<or> with_smp cfg \<longrightarrow> osTimer s' \<le> firstWakeup s')
      \<and> s' = s\<lparr>sleepingList := sleepingList s', osTimer := osTimer s'\<rparr>"
proof -
  let ?l = "ts_enqueue snd (t, w) (sleepingList s)"
  have set: "set ?l = insert (t, w) (set (sleepingList s))" by (rule set_ts_enqueue)
  then obtain x r where l: "?l = x # r" by (cases ?l) auto
  have srt: "sorted (map snd ?l)"
    using assms(1) by (simp add: sleep_inv_def sorted_map_ts_enqueue)
  have si: "sleep_inv (s\<lparr>sleepingList := ?l, osTimer := o1\<rparr>)" for o1
    using assms srt unfolding sleep_inv_def list_all_iff
    by (auto simp: set known_def busy_def simp del: set_concat)
  obtain t' w' where x: "x = (t', w')" by (cases x)
  let ?s' = "if (\<not> unified_timer cfg \<or> with_smp cfg) \<and> w' < osTimer s then s\<lparr>sleepingList := ?l, osTimer := w'\<rparr>
             else s\<lparr>sleepingList := ?l\<rparr>"
  have "enqueue_token cfg (t, w) s = Inr ?s'"
    using l x by (auto simp: enqueue_token_def IRQupdateOsTimer_def)
  moreover have "sleep_inv ?s'" using si[of w'] si[of "osTimer s"] by simp
  moreover have "\<not> unified_timer cfg \<or> with_smp cfg \<longrightarrow> osTimer ?s' \<le> firstWakeup ?s'"
    using l x by (auto simp: firstWakeup_def)
  ultimately show ?thesis using set by (intro exI[of _ ?s']) auto
qed

lemma set_flag_fields [simp]:
  "threads (set_flag m t s) = (threads s)(t := (threads s t)\<lparr>tflags := flagsOf s t OR m\<rparr>)"
  "runningThreads (set_flag m t s) = runningThreads s" "idle (set_flag m t s) = idle s"
  "readyThreads (set_flag m t s) = readyThreads s" "notReadyThreads (set_flag m t s) = notReadyThreads s"
  "sleepingList (set_flag m t s) = sleepingList s" "osTimer (set_flag m t s) = osTimer s"
  "schedRequests (set_flag m t s) = schedRequests s" "freed (set_flag m t s) = freed s"
  "all_threads (set_flag m t s) = all_threads s" "busy (set_flag m t s) = busy s"
  "known (set_flag m t s) = known s" "sleep_inv (set_flag m t s) = sleep_inv s"
  by (simp_all add: set_flag_def known_def[abs_def] sleep_inv_def)

lemma known_busy: "t \<in> set (busy s) \<Longrightarrow> known s t"
  by (simp add: known_def)

lemma IRQinvokeScheduler_fields [simp]:
  "threads (IRQinvokeScheduler c s) = threads s" "runningThreads (IRQinvokeScheduler c s) = runningThreads s"
  "idle (IRQinvokeScheduler c s) = idle s" "readyThreads (IRQinvokeScheduler c s) = readyThreads s"
  "notReadyThreads (IRQinvokeScheduler c s) = notReadyThreads s"
  "sleepingList (IRQinvokeScheduler c s) = sleepingList s" "osTimer (IRQinvokeScheduler c s) = osTimer s"
  "nextPreemption (IRQinvokeScheduler c s) = nextPreemption s" "freed (IRQinvokeScheduler c s) = freed s"
  "firstWakeup (IRQinvokeScheduler c s) = firstWakeup s"
  "schedRequests (IRQinvokeScheduler c s) = schedRequests s @ [c]"
  by (simp_all add: IRQinvokeScheduler_def IRQinvokeSchedulerOnCore_def firstWakeup_def)

lemma sched_inv_timer [simp]:
  "sched_inv n (s\<lparr>sleepingList := l\<rparr>) = sched_inv n s"
  "sched_inv n (IRQinvokeScheduler c s) = sched_inv n s"
  "sched_inv n (s\<lparr>osTimer := w\<rparr>) = sched_inv n s"
  "all_threads (s\<lparr>sleepingList := l\<rparr>) = all_threads s"
  "all_threads (IRQinvokeScheduler c s) = all_threads s"
  "all_threads (s\<lparr>osTimer := w\<rparr>) = all_threads s"
  by (intro sched_inv_cong; simp)+

lemma sleep_inv_invoke [simp]: "sleep_inv (IRQinvokeScheduler c s) = sleep_inv s"
  by (simp add: sleep_inv_def known_def busy_def)

text \<open>Blocking with a deadline: what the two operations that do it share.\<close>

lemma block_with_token:
  assumes inv: "sched_inv n s" "sleep_inv s" and cur: "cur \<in> set (busy s)"
    and smp: "\<not> with_smp cfg \<longrightarrow> core = WAKEUP_HANDLING_CORE s"
  shows "\<exists>s1. enqueue_token cfg (cur, w) (set_flag m cur s) = Inr s1
      \<and> sched_inv n (IRQinvokeScheduler core s1) \<and> sleep_inv (IRQinvokeScheduler core s1)
      \<and> (cur, w) \<in> set (sleepingList (IRQinvokeScheduler core s1))
      \<and> schedRequests (IRQinvokeScheduler core s1) = schedRequests s @ [core]
      \<and> threads (IRQinvokeScheduler core s1) = threads (set_flag m cur s)
      \<and> (osTimer (IRQinvokeScheduler core s1) \<le> firstWakeup (IRQinvokeScheduler core s1)
           \<or> unified_timer cfg \<and> core = WAKEUP_HANDLING_CORE s)"
proof -
  let ?s = "set_flag m cur s"
  have k: "sleep_inv ?s" "known ?s cur" using inv(2) known_busy[OF cur] by simp_all
  obtain s1 where s1: "enqueue_token cfg (cur, w) ?s = Inr s1" "sleep_inv s1"
      "(cur, w) \<in> set (sleepingList s1)"
      "\<not> unified_timer cfg \<or> with_smp cfg \<longrightarrow> osTimer s1 \<le> firstWakeup s1"
      and fr: "s1 = ?s\<lparr>sleepingList := sleepingList s1, osTimer := osTimer s1\<rparr>"
    using enqueue_token_spec[OF k] by blast
  have f: "threads s1 = threads ?s" "schedRequests s1 = schedRequests s" by (subst fr, simp)+
  have "sched_inv n s1"
    using set_flag_running_inv[OF inv(1) cur, of m] by (subst fr) simp
  then show ?thesis using s1 f smp by (intro exI[of _ s1]) auto
qed

section \<open>Join\<close>

text \<open>A thread \<open>j\<close> is blocked in a join of \<open>t\<close>.\<close>

definition joining :: "tid \<Rightarrow> tid \<Rightarrow> kstate \<Rightarrow> bool" where
  "joining t j s = (j \<noteq> t \<and> joinData (threads s t) = WaitingForJoin (Some j)
     \<and> \<not> isZombie (flagsOf s t) \<and> \<not> isDetached (flagsOf s t) \<and> isWaitingJoin (flagsOf s j))"

lemma set_bits [simp]:
  "isZombie (f OR DELETED)" "isDetached (f OR DETACHED)" "isWaitingJoin (f OR WAIT_JOIN)"
  "isDetached (f OR DELETED) = isDetached f" "isZombie (f OR DETACHED) = isZombie f"
  "isZombie (f OR WAIT_JOIN) = isZombie f" "isDetached (f OR WAIT_JOIN) = isDetached f"
  "isWaitingJoin (f OR DETACHED) = isWaitingJoin f" "isWaitingJoin (f OR DELETED) = isWaitingJoin f"
  "\<not> isWaitingJoin (f AND NOT WAIT_JOIN)" "isZombie (f AND NOT WAIT_JOIN) = isZombie f"
  "isDetached (f AND NOT WAIT_JOIN) = isDetached f"
  "isWaitingJoin (f AND NOT WAIT) = isWaitingJoin f"
  by (simp_all add: flag_bits flag_update_bits)

lemma joining_exists:
  assumes "sched_inv n s" "known s t" "\<not> isDeleted (flagsOf s t)"
  shows "IRQexists t s"
  using assms by (auto simp: IRQexists_def known_def busy_def)

lemma joining_exit:
  assumes inv: "sched_inv n s" and k: "known s j" and jn: "joining t j s"
    and run: "runningThreads s ! core = t" "t \<in> set (busy s)"
  shows "\<exists>s'. thread_exit core res s = Inr s' \<and> sched_inv n s' \<and> \<not> isWaitingJoin (flagsOf s' j)
      \<and> isZombie (flagsOf s' t) \<and> \<not> isDetached (flagsOf s' t) \<and> joinData (threads s' t) = JoinResult res
      \<and> IRQexists t s'"
proof -
  let ?s1 = "IRQsetDeleted t s"
  have inv1: "sched_inv n ?s1" using set_flag_running_inv[OF inv run(2)] by (simp add: IRQsetDeleted_def)
  have k1: "known ?s1 j" using k by (simp add: IRQsetDeleted_def)
  obtain s2 where s2: "clear_flag WAIT_JOIN j ?s1 = Inr s2" "sched_inv n s2"
      "threads s2 = (threads ?s1)(j := (threads ?s1 j)\<lparr>tflags := flagsOf ?s1 j AND NOT WAIT_JOIN\<rparr>)"
      and fr: "s2 = ?s1\<lparr>threads := threads s2, readyThreads := readyThreads s2, notReadyThreads := notReadyThreads s2\<rparr>"
    using clear_flag_inv[OF inv1 k1 wait_masks(3)] by blast
  have r2: "runningThreads s2 = runningThreads s" by (subst fr) (simp add: IRQsetDeleted_def)
  let ?s3 = "upd_thread t (\<lambda>th. th\<lparr>joinData := JoinResult res\<rparr>) s2"
  have jt: "j \<noteq> t" "joinData (threads s t) = WaitingForJoin (Some j)" "\<not> isDetached (flagsOf s t)"
    using jn by (simp_all add: joining_def)
  have ex: "thread_exit core res s = Inr (IRQinvokeScheduler core ?s3)"
    using jt run s2(1) by (simp add: thread_exit_def IRQclearJoinWait_def waitingForJoin_def Let_def IRQsetDeleted_def)
  have inv3: "sched_inv n ?s3" using s2(2) by (subst sched_inv_upd_other) simp_all
  have fl: "flagsOf ?s3 t = flagsOf s t OR DELETED" "flagsOf ?s3 j = flagsOf s j AND NOT WAIT_JOIN"
    using s2(3) jt(1) by (simp_all add: IRQsetDeleted_def)
  have "t \<in> set (runningThreads s)" using run(2) by (simp add: busy_def)
  then have "IRQexists t (IRQinvokeScheduler core ?s3)"
    using jt(3) fl(1) r2 by (simp add: IRQexists_def flag_bits flag_update_bits)
  with ex inv3 fl jt show ?thesis by simp
qed

lemma joining_detach:
  assumes inv: "sched_inv n s" and k: "known s t" "known s j" and jn: "joining t j s"
  shows "\<exists>s'. detach cfg core t s = Inr s' \<and> sched_inv n s' \<and> \<not> isWaitingJoin (flagsOf s' j)
      \<and> isDetached (flagsOf s' t)"
proof -
  have jt: "j \<noteq> t" "joinData (threads s t) = WaitingForJoin (Some j)" "\<not> isZombie (flagsOf s t)" "\<not> isDetached (flagsOf s t)"
    using jn by (simp_all add: joining_def)
  have ex: "IRQexists t s" using joining_exists[OF inv k(1)] jt(3) by (simp add: flag_bits)
  let ?s1 = "IRQsetDetached t s"
  have inv1: "sched_inv n ?s1" using set_flag_other_inv[OF inv k(1)] by (simp add: IRQsetDetached_def)
  have k1: "known ?s1 j" using k by (simp add: IRQsetDetached_def)
  obtain s2 where s2: "clear_flag WAIT_JOIN j ?s1 = Inr s2" "sched_inv n s2"
      "threads s2 = (threads ?s1)(j := (threads ?s1 j)\<lparr>tflags := flagsOf ?s1 j AND NOT WAIT_JOIN\<rparr>)"
    using clear_flag_inv[OF inv1 k1 wait_masks(3)] by blast
  have "detach cfg core t s = Inr (consider_and_invoke cfg FromLast j core s2)"
    using ex jt s2(1)
    by (simp add: detach_def IRQclearJoinWait_def waitingForJoin_def Let_def IRQsetDetached_def)
  with s2 jt show ?thesis by (simp add: IRQsetDetached_def)
qed

section \<open>Properties\<close>

text \<open>C12. The timer interrupt that wakes sleeping threads: it succeeds, keeps the scheduler
  invariant, takes exactly the threads whose time has come off the sleeping list and clears their
  wait and sleep flags, leaves every other thread alone, and afterwards either no thread sleeps, or
  the timer is set no later than the earliest wakeup, or (with the unified timer) the scheduler has
  been requested on this core, which sets the timer.\<close>

theorem wake_threads_correct:
  assumes "sched_inv n s" "sleep_inv s" "core = WAKEUP_HANDLING_CORE s"
  shows "\<exists>s' r. IRQwakeThreads cfg now core s = Inr s' \<and> sched_inv n s'
      \<and> mset (all_threads s') = mset (all_threads s)
      \<and> sleepingList s' = filter (\<lambda>(t, w). now < w) (sleepingList s)
      \<and> (\<forall>t. flagsOf s' t = (if t \<in> expired now (sleepingList s) then flagsOf s t AND NOT (WAIT OR SLEEP)
                              else flagsOf s t))
      \<and> schedRequests s' = schedRequests s @ r
      \<and> (sleepingList s' = [] \<or> osTimer s' \<le> firstWakeup s' \<or> unified_timer cfg \<and> core \<in> set r)"
proof -
  obtain h s1 r1 where s1: "wake_expired cfg now False s = Inr (h, s1)" "sched_inv n s1"
      "mset (all_threads s1) = mset (all_threads s)"
      "sleepingList s1 = filter (\<lambda>(t, w). now < w) (sleepingList s)"
      and th: "\<forall>t. threads s1 t = (threads s t)\<lparr>tflags := (if t \<in> expired now (sleepingList s)
              then flagsOf s t AND NOT (WAIT OR SLEEP) else flagsOf s t)\<rparr>"
      and r1: "schedRequests s1 = schedRequests s @ r1"
    using wake_expired_spec[OF assms(1,2), of cfg now False] by blast
  have fl: "flagsOf s1 t = (if t \<in> expired now (sleepingList s) then flagsOf s t AND NOT (WAIT OR SLEEP)
                              else flagsOf s t)" for t
    using th by simp
  define s' where "s' = (let s2 = (if h then IRQinvokeScheduler core s1 else s1)
         in if unified_timer cfg then
              (if h then s2
               else if nextPreemption s2 \<le> now then IRQinvokeScheduler core s2
               else s2\<lparr>osTimer := min (firstWakeup s2) (nextPreemption s2)\<rparr>)
            else if sleepingList s2 = [] then s2 else s2\<lparr>osTimer := firstWakeup s2\<rparr>)"
  have run: "IRQwakeThreads cfg now core s = Inr s'"
    using s1(1) assms(3) by (simp add: IRQwakeThreads_def s'_def Let_def)
  have f: "threads s' = threads s1" "sleepingList s' = sleepingList s1" "all_threads s' = all_threads s1"
      "sched_inv n s'" "firstWakeup s' = firstWakeup s1"
    using s1(2) by (auto simp: s'_def Let_def firstWakeup_def)
  have "\<exists>r. schedRequests s' = schedRequests s @ r
      \<and> (sleepingList s' = [] \<or> osTimer s' \<le> firstWakeup s' \<or> unified_timer cfg \<and> core \<in> set r)"
    using r1 f(5) by (auto simp: s'_def Let_def)
  with run f s1 fl show ?thesis by auto
qed

definition demo_sleep :: kstate where
  "demo_sleep = (demo_state (\<lambda>t. if t = 0 then demo_thread (-1) 1 0
     else if t = 1 then demo_thread 2 1 SLEEP else demo_thread 1 1 0) [2] [[], [3], []] [1])
     \<lparr>sleepingList := [(1, 500)]\<rparr>"

lemma demo_sleep_inv: "sched_inv 3 demo_sleep" "sleep_inv demo_sleep"
  by (simp_all add: sched_inv_def demo_sleep_def demo_state_def demo_thread_def pq_inv_def
      all_threads_def busy_def idle_home_def prio_ok_def upt_rec numeral_eq_Suc All_less_Suc isReady_def
      SLEEP_def sleep_inv_def known_def)

theorem wake_threads_correct_witness:
  "\<exists>s'. IRQwakeThreads (demo_cfg False) 600 0 demo_sleep = Inr s' \<and> sleepingList s' = []"
proof -
  have "0 = WAKEUP_HANDLING_CORE demo_sleep"
    by (simp add: WAKEUP_HANDLING_CORE_def CPU_NUM_CORES_def demo_sleep_def demo_state_def)
  moreover have "filter (\<lambda>(t, w). 600 < w) (sleepingList demo_sleep) = []"
    by (simp add: demo_sleep_def)
  ultimately show ?thesis
    using wake_threads_correct[OF demo_sleep_inv, of 0 "demo_cfg False" 600] by metis
qed

text \<open>C30. Going to sleep, or waiting with a timeout: the running thread gets its flag and a token
  at its wakeup time (never earlier than 100000 ns), the sleeping list stays sorted, the scheduler is
  requested on this core, and the timer is set no later than the earliest wakeup, unless the
  scheduler that is about to run on the core that handles wakeups sets it.\<close>

theorem sleep_is_armed:
  assumes "sched_inv n s" "sleep_inv s" "runningThreads s ! core \<in> set (busy s)"
    "\<not> with_smp cfg \<longrightarrow> core = WAKEUP_HANDLING_CORE s"
    "op = nanoSleepUntil_begin \<and> m = SLEEP \<or> op = timedWait_begin \<and> m = WAIT"
  shows "\<exists>s'. op cfg core at s = Inr s' \<and> sched_inv n s' \<and> sleep_inv s'
      \<and> (runningThreads s ! core, max at 100000) \<in> set (sleepingList s')
      \<and> flagsOf s' (runningThreads s ! core) = flagsOf s (runningThreads s ! core) OR m
      \<and> schedRequests s' = schedRequests s @ [core]
      \<and> (osTimer s' \<le> firstWakeup s' \<or> unified_timer cfg \<and> core = WAKEUP_HANDLING_CORE s)"
proof -
  have op: "op cfg core at s = rbind (enqueue_token cfg (runningThreads s ! core, max at MIN_SLEEP)
      (set_flag m (runningThreads s ! core) s)) (\<lambda>s1. Inr (IRQinvokeScheduler core s1))"
    using assms(5) by (auto simp: nanoSleepUntil_begin_def timedWait_begin_def IRQsetSleep_def
        IRQsetWait_def Let_def)
  from block_with_token[OF assms(1-4), of "max at MIN_SLEEP" m] show ?thesis
    unfolding op by (auto simp: MIN_SLEEP_def)
qed

theorem sleep_is_armed_witness:
  "\<exists>s'. nanoSleepUntil_begin (demo_cfg False) 0 700000 demo_sleep = Inr s' \<and> (2, 700000) \<in> set (sleepingList s')"
proof -
  have "runningThreads demo_sleep ! 0 = 2" "2 \<in> set (busy demo_sleep)"
    by (simp_all add: demo_sleep_def demo_state_def busy_def)
  with sleep_is_armed[OF demo_sleep_inv, of 0 "demo_cfg False" nanoSleepUntil_begin SLEEP 700000]
  show ?thesis by (auto simp: demo_cfg_def)
qed



text \<open>Waking a thread: \<^verbatim>\<open>IRQwakeup\<close> succeeds, keeps the scheduler invariant, clears the
  wait flag, and requests a rescheduling exactly when a core the thread may run on runs a lower
  priority, on one such core. \<^verbatim>\<open>PKwakeup\<close> does the same except that a request for the
  calling core, where the kernel is paused, is remembered in \<^verbatim>\<open>pendingWakeup\<close>.\<close>

theorem wakeup_reschedules:
  assumes "sched_inv n s" "known s t"
  shows "\<exists>s'. IRQwakeup cfg core t s = Inr s' \<and> sched_inv n s' \<and> mset (all_threads s') = mset (all_threads s)
      \<and> flagsOf s' t = flagsOf s t AND NOT WAIT
      \<and> (schedRequests s' = schedRequests s \<and> (\<forall>i < CPU_NUM_CORES s. may_run cfg s t i \<longrightarrow>
             prio s t \<le> prio s (runningThreads s ! i))
         \<or> (\<exists>i < CPU_NUM_CORES s. schedRequests s' = schedRequests s @ [i] \<and> may_run cfg s t i
             \<and> prio s (runningThreads s ! i) < prio s t))
      \<and> (\<exists>s''. PKwakeup cfg core t s = Inr s'' \<and> threads s'' = threads s' \<and> sched_inv n s''
         \<and> (if schedRequests s' = schedRequests s @ [core] then pendingWakeup s'' \<and> schedRequests s'' = schedRequests s
            else schedRequests s'' = schedRequests s'))"
proof -
  obtain s1 where s1: "IRQclearWait t s = Inr s1" "IRQwakeup cfg core t s = Inr (consider_and_invoke cfg FromFirst t core s1)"
      "sched_inv n s1" "mset (all_threads s1) = mset (all_threads s)"
      "threads s1 = (threads s)(t := (threads s t)\<lparr>tflags := flagsOf s t AND NOT WAIT\<rparr>)"
      and fr: "s1 = s\<lparr>threads := threads s1, readyThreads := readyThreads s1, notReadyThreads := notReadyThreads s1\<rparr>"
    using IRQwakeup_spec[OF assms] by blast
  have f: "runningThreads s1 = runningThreads s" "schedRequests s1 = schedRequests s" by (subst fr, simp)+
  have p: "prio s1 x = prio s x" "may_run cfg s1 t i = may_run cfg s t i" "CPU_NUM_CORES s1 = CPU_NUM_CORES s" for x i
    using s1(5) f by (simp_all add: may_run_def CPU_NUM_CORES_def)
  let ?s' = "consider_and_invoke cfg FromFirst t core s1"
  obtain need s2 where c: "IRQconsiderRescheduling cfg FromFirst t core s1 = (need, s2)" by fastforce
  let ?s'' = "if need then s2\<lparr>pendingWakeup := True\<rparr> else s2"
  have pk: "PKwakeup cfg core t s = Inr ?s''" using s1(1) c by (simp add: PKwakeup_def)
  have s': "?s' = (if need then IRQinvokeScheduler core s2 else s2)"
    by (simp add: consider_and_invoke_def c)
  from c have f2: "need \<and> s2 = s1 \<or> \<not> need \<and> (s2 = s1 \<or> (\<exists>i. i \<noteq> core \<and> s2 = IRQinvokeSchedulerOnCore i s1))"
    by (cases rule: consider_cases) auto
  then have f3: "threads s2 = threads s1" "sched_inv n s2"
    using s1(3) by (auto simp: sched_inv_cong(1)[of "IRQinvokeSchedulerOnCore i s1" s1 n for i])
  then have "sched_inv n ?s''"
    using sched_inv_cong(1)[of "s2\<lparr>pendingWakeup := True\<rparr>" s2 n] by simp
  moreover have "if schedRequests ?s' = schedRequests s @ [core]
      then pendingWakeup ?s'' \<and> schedRequests ?s'' = schedRequests s
      else schedRequests ?s'' = schedRequests ?s'"
    using f2 f(2) s' by auto
  moreover have "threads ?s'' = threads ?s'" using f3(1) by simp
  ultimately have "\<exists>s''. PKwakeup cfg core t s = Inr s'' \<and> threads s'' = threads ?s' \<and> sched_inv n s''
         \<and> (if schedRequests ?s' = schedRequests s @ [core] then pendingWakeup s'' \<and> schedRequests s'' = schedRequests s
            else schedRequests s'' = schedRequests ?s')"
    using pk by blast
  moreover have "flagsOf ?s' t = flagsOf s t AND NOT WAIT" using s1(5) by simp
  moreover have "sched_inv n ?s'" "mset (all_threads ?s') = mset (all_threads s)" using s1(3,4) by simp_all
  ultimately show ?thesis
    using s1(2) consider_invoke_requests[of cfg FromFirst t core s1] unfolding p f by blast
qed

theorem wakeup_reschedules_witness:
  "\<exists>s'. IRQwakeup (demo_cfg False) 0 1 demo_blocked = Inr s' \<and> schedRequests s' = [0]"
proof -
  have k: "known demo_blocked 1" by (simp add: known_def demo_blocked_def demo_state_def)
  have e: "CPU_NUM_CORES demo_blocked = 1" "schedRequests demo_blocked = []" "runningThreads demo_blocked = [2]"
      "prio demo_blocked 1 = 2" "prio demo_blocked 2 = 1" "may_run (demo_cfg False) demo_blocked 1 0"
    by (simp_all add: CPU_NUM_CORES_def demo_blocked_def demo_state_def demo_thread_def may_run_def demo_cfg_def)
  show ?thesis
    using wakeup_reschedules[OF demo_blocked_inv k, of "demo_cfg False" 0] e by auto
qed

text \<open>C13. The join protocol, for a thread \<open>j\<close> blocked in a join of \<open>t\<close>: when \<open>t\<close> terminates,
  \<open>j\<close> is woken and its join returns the result of \<open>t\<close>; when somebody detaches \<open>t\<close>, \<open>j\<close> is
  woken and its join fails; a second join of \<open>t\<close> fails at once and changes nothing; after a spurious
  wakeup \<open>j\<close> goes back to wait and is still the registered waiter.\<close>

theorem join_protocol:
  assumes inv: "sched_inv n s" and k: "known s t" "known s j" and jn: "joining t j s"
  shows "(runningThreads s ! core = t \<and> t \<in> set (busy s) \<longrightarrow>
            (\<exists>s'. thread_exit core res s = Inr s' \<and> sched_inv n s' \<and> \<not> isWaitingJoin (flagsOf s' j)
               \<and> fst (join_resume cfg core' t s') = JoinReturns (Some res)))
       \<and> (\<exists>s'. detach cfg core t s = Inr s' \<and> sched_inv n s' \<and> \<not> isWaitingJoin (flagsOf s' j)
               \<and> fst (join_resume cfg core' t s') = JoinReturns None)
       \<and> join_begin cfg core t s = (JoinReturns None, s)
       \<and> (runningThreads s ! core' = j \<longrightarrow>
            fst (join_resume cfg core' t s) = JoinBlocks \<and> joining t j (snd (join_resume cfg core' t s)))"
proof -
  have jt: "j \<noteq> t" "joinData (threads s t) = WaitingForJoin (Some j)" "\<not> isZombie (flagsOf s t)"
      "\<not> isDetached (flagsOf s t)" "isWaitingJoin (flagsOf s j)"
    using jn by (simp_all add: joining_def)
  have ex: "IRQexists t s" using joining_exists[OF inv k(1)] jt(3) by (simp add: flag_bits)
  have a: "\<exists>s'. thread_exit core res s = Inr s' \<and> sched_inv n s' \<and> \<not> isWaitingJoin (flagsOf s' j)
               \<and> fst (join_resume cfg core' t s') = JoinReturns (Some res)"
    if "runningThreads s ! core = t" "t \<in> set (busy s)"
  proof -
    from joining_exit[OF inv k(2) jn that, of res] obtain s' where "thread_exit core res s = Inr s'"
      "sched_inv n s'" "\<not> isWaitingJoin (flagsOf s' j)" "isZombie (flagsOf s' t)"
      "\<not> isDetached (flagsOf s' t)" "joinData (threads s' t) = JoinResult res" "IRQexists t s'" by blast
    then show ?thesis by (intro exI[of _ s']) (simp add: join_resume_def join_complete_def Let_def)
  qed
  have b: "\<exists>s'. detach cfg core t s = Inr s' \<and> sched_inv n s' \<and> \<not> isWaitingJoin (flagsOf s' j)
               \<and> fst (join_resume cfg core' t s') = JoinReturns None"
  proof -
    from joining_detach[OF inv k jn, of cfg core] obtain s' where "detach cfg core t s = Inr s'"
      "sched_inv n s'" "\<not> isWaitingJoin (flagsOf s' j)" "isDetached (flagsOf s' t)" by blast
    then show ?thesis by (intro exI[of _ s']) (simp add: join_resume_def Let_def)
  qed
  have c: "join_begin cfg core t s = (JoinReturns None, s)"
    using jt by (simp add: join_begin_def waitingForJoin_def Let_def)
  have d: "fst (join_resume cfg core' t s) = JoinBlocks \<and> joining t j (snd (join_resume cfg core' t s))"
    if "runningThreads s ! core' = j"
    using that jt ex by (simp add: join_resume_def joining_def Let_def IRQsetJoinWait_def)
  show ?thesis using a b c d by (intro conjI impI) simp_all
qed

definition demo_join :: kstate where
  "demo_join = demo_state (\<lambda>t. if t = 0 then demo_thread (-1) 1 0
     else if t = 1 then demo_thread 2 1 WAIT_JOIN
     else (demo_thread 1 1 0)\<lparr>joinData := WaitingForJoin (Some 1)\<rparr>) [2] [[], [], []] [1]"

lemma wait_join_bits: "isWaitingJoin WAIT_JOIN" "\<not> isReady WAIT_JOIN" "\<not> isDeleted WAIT_JOIN"
    "\<not> isZombie WAIT_JOIN" "isReady 0" "\<not> isZombie 0" "\<not> isDetached 0" "\<not> isDeleted 0"
  by code_simp+

lemma demo_join_inv: "sched_inv 3 demo_join" "known demo_join 2" "known demo_join 1" "joining 2 1 demo_join"
  by (simp_all add: sched_inv_def demo_join_def demo_state_def demo_thread_def pq_inv_def
      all_threads_def busy_def idle_home_def prio_ok_def upt_rec numeral_eq_Suc All_less_Suc
      known_def joining_def wait_join_bits)

theorem join_protocol_witness:
  "\<exists>s'. thread_exit 0 42 demo_join = Inr s' \<and> fst (join_resume (demo_cfg False) 0 2 s') = JoinReturns (Some 42)"
  using join_protocol[OF demo_join_inv, of 0 42 "demo_cfg False" 0]
  by (auto simp: demo_join_def demo_state_def busy_def)

text \<open>Pausing the kernel defers preemption and does not lose it: while a core holds the lock, a
  run of the scheduler on it switches no thread and only sets \<^verbatim>\<open>pendingWakeup\<close>, and the unlock
  then requests the scheduler on that core and clears the flag.\<close>

theorem paused_preemption_deferred:
  assumes "FastPauseKernelLock_lock cfg core s = Inr s1" "with_smp cfg \<or> core = 0"
    "stackOk (threads s (runningThreads s ! core))"
  shows "\<exists>s2. IRQrunScheduler cfg now core s1 = Inr s2 \<and> runningThreads s2 = runningThreads s
      \<and> readyThreads s2 = readyThreads s
      \<and> (let s3 = FastPauseKernelLock_unlock core s2 in schedRequests s3 = schedRequests s @ [core]
           \<and> \<not> pendingWakeup s3 \<and> holdingCore s3 = None)"
  using assms by (auto simp: FastPauseKernelLock_lock_def FastPauseKernelLock_unlock_def IRQrunScheduler_def
      IRQstackOverflowCheck_def IRQinvokeScheduler_def IRQinvokeSchedulerOnCore_def ensure_eq_Inr Let_def)

theorem paused_preemption_deferred_witness:
  "\<exists>s2. IRQrunScheduler (demo_cfg False) 0 1 (demo_smp\<lparr>holdingCore := Some 1\<rparr>) = Inr s2
      \<and> schedRequests (FastPauseKernelLock_unlock 1 s2) = [1]"
  using paused_preemption_deferred[of "demo_cfg False" 1 demo_smp "demo_smp\<lparr>holdingCore := Some 1\<rparr>" 0]
  by (auto simp: FastPauseKernelLock_lock_def demo_cfg_def demo_smp_def demo_state_def demo_threads_def
      demo_thread_def Let_def)

end
