(* ===== verification/Sync_Mutex.thy ===== *)
theory Sync_Mutex
  imports Thread_Ops
begin

text \<open>
  The wait queues of \<^verbatim>\<open>kernel/sched_data_structures.h\<close> with the priority scheduler, the
  classes \<^verbatim>\<open>FastMutex\<close>, \<^verbatim>\<open>Mutex\<close> (with priority inheritance) and
  \<^verbatim>\<open>ConditionVariable\<close> of \<^verbatim>\<open>kernel/sync.cpp\<close>, and
  \<^verbatim>\<open>Thread::setPriority\<close>.

  The bodies run with the kernel paused. A lock operation that blocks is cut at the context switch:
  its result says whether the caller has the mutex, and the part after the switch is a definition of
  its own. The loops over linked mutexes and threads are \<open>partial_function\<close>s: \<open>None\<close> is a
  loop that does not end.
\<close>

section \<open>Computations that may not end\<close>

type_synonym 'a run = "'a result option"

definition run_bind :: "'a run \<Rightarrow> ('a \<Rightarrow> 'b run) \<Rightarrow> 'b run" where
  "run_bind r f = (case r of None \<Rightarrow> None | Some (Inl e) \<Rightarrow> Some (Inl e) | Some (Inr x) \<Rightarrow> f x)"

lemma run_bind_simps [simp]:
  "run_bind None f = None" "run_bind (Some (Inl e)) f = Some (Inl e)" "run_bind (Some (Inr x)) f = f x"
  by (simp_all add: run_bind_def)

section \<open>Wait queues\<close>

datatype PriorityPolicy = ConsiderInheritedPriority | IgnoreInheritedPriority

definition wq_key :: "PriorityPolicy \<Rightarrow> kstate \<Rightarrow> tid \<Rightarrow> int" where
  "wq_key pp s t = (case pp of ConsiderInheritedPriority \<Rightarrow> prio s t
     | IgnoreInheritedPriority \<Rightarrow> savedPriority (threads s t))"

definition PKempty :: "waitQueue \<Rightarrow> bool" where
  "PKempty q = (case q of None \<Rightarrow> True | Some q' \<Rightarrow> pq_empty q')"

definition PKfront :: "waitQueue \<Rightarrow> tid result" where
  "PKfront q = (case q of None \<Rightarrow> Inl NullDereference
     | Some q' \<Rightarrow> (case pq_front q' of None \<Rightarrow> Inl NullDereference | Some t \<Rightarrow> Inr t))"

definition PKenqueue :: "PriorityPolicy \<Rightarrow> tid \<Rightarrow> kstate \<Rightarrow> waitQueue \<Rightarrow> waitQueue result" where
  "PKenqueue pp t s q =
     rbind (pq_enqueue t (wq_key pp s t) (case q of None \<Rightarrow> pq_new (NUM_PRIORITIES s) | Some q' \<Rightarrow> q'))
       (\<lambda>q'. Inr (Some q'))"

definition PKwakeOne :: "config \<Rightarrow> nat \<Rightarrow> waitQueue \<Rightarrow> kstate \<Rightarrow> (tid option \<times> waitQueue \<times> kstate) result" where
  "PKwakeOne cfg core q s = (case q of
      None \<Rightarrow> Inr (None, q, s)
    | Some q' \<Rightarrow> (case pq_dequeueOne q' of
          (None, q'') \<Rightarrow> Inr (None, Some q'', s)
        | (Some t, q'') \<Rightarrow> rbind (PKwakeup cfg core t s) (\<lambda>s1. Inr (Some t, Some q'', s1))))"

definition PKwakeAll :: "config \<Rightarrow> nat \<Rightarrow> waitQueue \<Rightarrow> kstate \<Rightarrow> (waitQueue \<times> kstate) result" where
  "PKwakeAll cfg core q s = (case q of
      None \<Rightarrow> Inr (q, s)
    | Some q' \<Rightarrow> rbind (pq_dequeueAll (PKwakeup cfg core) q' s) (\<lambda>(q'', s1). Inr (Some q'', s1)))"

definition PKremove :: "PriorityPolicy \<Rightarrow> tid \<Rightarrow> kstate \<Rightarrow> waitQueue \<Rightarrow> waitQueue result" where
  "PKremove pp t s q = (case q of
      None \<Rightarrow> Inr None
    | Some q' \<Rightarrow> rbind (pq_remove t (wq_key pp s t) q') (\<lambda>q''. Inr (Some q'')))"

section \<open>FastMutex\<close>

record FastMutex =
  fowner :: "tid option"
  recursiveDepth :: int
  fqueue :: waitQueue

definition FastMutex_new :: "bool \<Rightarrow> nat \<Rightarrow> FastMutex" where
  "FastMutex_new recursive n =
     \<lparr>fowner = None, recursiveDepth = (if recursive then 0 else -1), fqueue = Some (pq_new n)\<rparr>"

text \<open>\<^verbatim>\<open>lock\<close> and \<^verbatim>\<open>PKlockToDepth\<close> differ in the depth they leave: the next
  one, or the given one. The flag of the result says whether the caller owns the mutex; if not it is
  in the queue and has started to wait.\<close>

definition FastMutex_lock :: "nat \<Rightarrow> FastMutex \<Rightarrow> kstate \<Rightarrow> (bool \<times> FastMutex \<times> kstate) result" where
  "FastMutex_lock core m s =
     (let cur = runningThreads s ! core in
      if fowner m = None then Inr (True, m\<lparr>fowner := Some cur\<rparr>, s)
      else if fowner m = Some cur then
        (if recursiveDepth m \<ge> 0 then Inr (True, m\<lparr>recursiveDepth := recursiveDepth m + 1\<rparr>, s)
         else Inl MUTEX_ERROR)
      else rbind (PKenqueue IgnoreInheritedPriority cur s (fqueue m)) (\<lambda>q.
        Inr (False, m\<lparr>fqueue := q\<rparr>, PKrestartKernelAndWait_begin core s)))"

text \<open>One turn of the loop \<^verbatim>\<open>while(owner!=cur)\<close> after the context switch.\<close>

definition FastMutex_lock_resume :: "config \<Rightarrow> nat \<Rightarrow> FastMutex \<Rightarrow> kstate \<Rightarrow> (bool \<times> FastMutex \<times> kstate) result" where
  "FastMutex_lock_resume cfg core m s = rbind (PKrestartKernelAndWait_end cfg core s) (\<lambda>s1.
     if fowner m = Some (runningThreads s1 ! core) then Inr (True, m, s1)
     else Inr (False, m, PKrestartKernelAndWait_begin core s1))"

definition FastMutex_tryLock :: "nat \<Rightarrow> FastMutex \<Rightarrow> kstate \<Rightarrow> bool \<times> FastMutex" where
  "FastMutex_tryLock core m s =
     (let cur = runningThreads s ! core in
      if fowner m = None then (True, m\<lparr>fowner := Some cur\<rparr>)
      else if fowner m = Some cur \<and> recursiveDepth m \<ge> 0
      then (True, m\<lparr>recursiveDepth := recursiveDepth m + 1\<rparr>)
      else (False, m))"

definition FastMutex_unlock :: "config \<Rightarrow> nat \<Rightarrow> FastMutex \<Rightarrow> kstate \<Rightarrow> (FastMutex \<times> kstate) result" where
  "FastMutex_unlock cfg core m s =
     ensure (extraChecks cfg \<noteq> NoChecks \<longrightarrow> fowner m = Some (runningThreads s ! core)) MUTEX_ERROR
      (if recursiveDepth m > 0 then Inr (m\<lparr>recursiveDepth := recursiveDepth m - 1\<rparr>, s)
       else rbind (PKwakeOne cfg core (fqueue m) s) (\<lambda>(t, q, s1).
         Inr (m\<lparr>fowner := t, fqueue := q\<rparr>, s1)))"

definition FastMutex_PKlockToDepth :: "nat \<Rightarrow> nat \<Rightarrow> FastMutex \<Rightarrow> kstate \<Rightarrow> (bool \<times> FastMutex \<times> kstate) result" where
  "FastMutex_PKlockToDepth core depth m s =
     (let cur = runningThreads s ! core;
          todepth = (\<lambda>m. if recursiveDepth m \<ge> 0 then m\<lparr>recursiveDepth := int depth\<rparr> else m) in
      if fowner m = None then Inr (True, todepth (m\<lparr>fowner := Some cur\<rparr>), s)
      else if fowner m = Some cur then
        (if recursiveDepth m \<ge> 0 then Inr (True, m\<lparr>recursiveDepth := int depth\<rparr>, s) else Inl MUTEX_ERROR)
      else rbind (PKenqueue IgnoreInheritedPriority cur s (fqueue m)) (\<lambda>q.
        Inr (False, m\<lparr>fqueue := q\<rparr>, PKrestartKernelAndWait_begin core s)))"

definition FastMutex_lockToDepth_resume :: "config \<Rightarrow> nat \<Rightarrow> nat \<Rightarrow> FastMutex \<Rightarrow> kstate \<Rightarrow> (bool \<times> FastMutex \<times> kstate) result" where
  "FastMutex_lockToDepth_resume cfg core depth m s = rbind (PKrestartKernelAndWait_end cfg core s) (\<lambda>s1.
     if fowner m = Some (runningThreads s1 ! core)
     then Inr (True, if recursiveDepth m \<ge> 0 then m\<lparr>recursiveDepth := int depth\<rparr> else m, s1)
     else Inr (False, m, PKrestartKernelAndWait_begin core s1))"

definition FastMutex_PKunlockAllDepthLevels :: "config \<Rightarrow> nat \<Rightarrow> FastMutex \<Rightarrow> kstate \<Rightarrow> (nat \<times> FastMutex \<times> kstate) result" where
  "FastMutex_PKunlockAllDepthLevels cfg core m s =
     ensure (extraChecks cfg \<noteq> NoChecks \<longrightarrow> fowner m = Some (runningThreads s ! core)) MUTEX_ERROR
      (rbind (PKwakeOne cfg core (fqueue m) s) (\<lambda>(t, q, s1).
         let m1 = m\<lparr>fowner := t, fqueue := q\<rparr>
         in if recursiveDepth m1 < 0 then Inr (0, m1, s1)
            else Inr (nat (recursiveDepth m1), m1\<lparr>recursiveDepth := 0\<rparr>, s1)))"

section \<open>Mutex: the list of the mutexes a thread has locked\<close>

definition addToLockedList :: "mid \<Rightarrow> tid \<Rightarrow> kstate \<Rightarrow> kstate" where
  "addToLockedList m t s =
     (let s1 = upd_mutex m (\<lambda>x. x\<lparr>mnext := mutexLocked (threads s t)\<rparr>) s
      in upd_thread t (\<lambda>th. th\<lparr>mutexLocked := Some m\<rparr>) s1)"

partial_function (option) remove_walk :: "mid \<Rightarrow> mid option \<Rightarrow> kstate \<Rightarrow> kstate run" where
  "remove_walk m walk s = (case walk of
      None \<Rightarrow> Some (Inl NullDereference)
    | Some w \<Rightarrow>
        (if mnext (mutexes s w) = None then Some (Inl UNEXPECTED)
         else if mnext (mutexes s w) = Some m
         then Some (Inr (upd_mutex w (\<lambda>x. x\<lparr>mnext := mnext (mutexes s m)\<rparr>) s))
         else remove_walk m (mnext (mutexes s w)) s))"

definition removeFromLockedList :: "mid \<Rightarrow> tid \<Rightarrow> kstate \<Rightarrow> kstate run" where
  "removeFromLockedList m t s =
     (if mutexLocked (threads s t) = Some m
      then Some (Inr (upd_thread t (\<lambda>th. th\<lparr>mutexLocked := mnext (mutexes s m)\<rparr>) s))
      else remove_walk m (mutexLocked (threads s t)) s)"

partial_function (option) inherit_walk :: "mid option \<Rightarrow> int \<Rightarrow> kstate \<Rightarrow> int run" where
  "inherit_walk walk pr s = (case walk of
      None \<Rightarrow> Some (Inr pr)
    | Some w \<Rightarrow>
        (if PKempty (mqueue (mutexes s w)) then inherit_walk (mnext (mutexes s w)) pr s
         else (case PKfront (mqueue (mutexes s w)) of
             Inl e \<Rightarrow> Some (Inl e)
           | Inr f \<Rightarrow> inherit_walk (mnext (mutexes s w)) (if pr < prio s f then prio s f else pr) s)))"

definition inheritPriorityFromLockedList :: "tid \<Rightarrow> int \<Rightarrow> kstate \<Rightarrow> int run" where
  "inheritPriorityFromLockedList t pr s = inherit_walk (mutexLocked (threads s t)) pr s"

section \<open>Mutex: priority inheritance\<close>

text \<open>The loop along the chain of owners. A thread that waits for a mutex leaves its wait queue
  while its priority changes.\<close>

partial_function (option) inherit_towards :: "ExtraChecks \<Rightarrow> tid \<Rightarrow> int \<Rightarrow> kstate \<Rightarrow> kstate run" where
  "inherit_towards ck walk pr s =
     (if prio s walk < pr then
        (case (case mutexWaiting (threads s walk) of
                 None \<Rightarrow> Inr s
               | Some m \<Rightarrow> rbind (PKremove ConsiderInheritedPriority walk s (mqueue (mutexes s m)))
                   (\<lambda>q. Inr (upd_mutex m (\<lambda>x. x\<lparr>mqueue := q\<rparr>) s))) of
           Inl e \<Rightarrow> Some (Inl e)
         | Inr s1 \<Rightarrow> (case IRQsetPriority ck walk pr s1 of
             Inl e \<Rightarrow> Some (Inl e)
           | Inr s2 \<Rightarrow> (case mutexWaiting (threads s2 walk) of
               None \<Rightarrow> Some (Inr s2)
             | Some m \<Rightarrow> (case PKenqueue ConsiderInheritedPriority walk s2 (mqueue (mutexes s2 m)) of
                 Inl e \<Rightarrow> Some (Inl e)
               | Inr q \<Rightarrow> (case mowner (mutexes s2 m) of
                   None \<Rightarrow> Some (Inl NullDereference)
                 | Some w \<Rightarrow> inherit_towards ck w pr (upd_mutex m (\<lambda>x. x\<lparr>mqueue := q\<rparr>) s2))))))
      else Some (Inr s))"

definition inheritPriorityTowardsMutexOwner :: "ExtraChecks \<Rightarrow> mid \<Rightarrow> int \<Rightarrow> kstate \<Rightarrow> kstate run" where
  "inheritPriorityTowardsMutexOwner ck m pr s = (case mowner (mutexes s m) of
      None \<Rightarrow> Some (Inl NullDereference)
    | Some w \<Rightarrow> inherit_towards ck w pr s)"

definition deInheritPriority :: "ExtraChecks \<Rightarrow> mid \<Rightarrow> kstate \<Rightarrow> kstate run" where
  "deInheritPriority ck m s = (case mowner (mutexes s m) of
      None \<Rightarrow> Some (Inl NullDereference)
    | Some t \<Rightarrow>
        run_bind (removeFromLockedList m t s) (\<lambda>s1.
        run_bind (if mutexLocked (threads s1 t) = None then Some (Inr (savedPriority (threads s1 t)))
                  else inheritPriorityFromLockedList t (savedPriority (threads s1 t)) s1) (\<lambda>pr.
        if pr \<noteq> prio s1 t then Some (IRQsetPriority ck t pr s1) else Some (Inr s1))))"

definition chooseNextOwner :: "config \<Rightarrow> nat \<Rightarrow> mid \<Rightarrow> kstate \<Rightarrow> kstate result" where
  "chooseNextOwner cfg core m s =
     rbind (PKwakeOne cfg core (mqueue (mutexes s m)) s) (\<lambda>(t, q, s1).
       let s2 = upd_mutex m (\<lambda>x. x\<lparr>mowner := t, mqueue := q\<rparr>) s1
       in case t of
            None \<Rightarrow> Inr s2
          | Some w \<Rightarrow>
              ensure (mutexWaiting (threads s2 w) = Some m) UNEXPECTED
               (Inr (addToLockedList m w (upd_thread w (\<lambda>th. th\<lparr>mutexWaiting := None\<rparr>) s2))))"

section \<open>Mutex: lock and unlock\<close>

definition lock_contended :: "config \<Rightarrow> nat \<Rightarrow> mid \<Rightarrow> kstate \<Rightarrow> (bool \<times> kstate) run" where
  "lock_contended cfg core m s =
     (let cur = runningThreads s ! core in
      if mutexWaiting (threads s cur) \<noteq> None then Some (Inl UNEXPECTED)
      else let s1 = upd_thread cur (\<lambda>th. th\<lparr>mutexWaiting := Some m\<rparr>) s in
        run_bind (inheritPriorityTowardsMutexOwner (extraChecks cfg) m (prio s1 cur) s1) (\<lambda>s2.
        run_bind (Some (PKenqueue ConsiderInheritedPriority cur s2 (mqueue (mutexes s2 m)))) (\<lambda>q.
          Some (Inr (False, PKrestartKernelAndWait_begin core (upd_mutex m (\<lambda>x. x\<lparr>mqueue := q\<rparr>) s2))))))"

definition Mutex_lock :: "config \<Rightarrow> nat \<Rightarrow> mid \<Rightarrow> kstate \<Rightarrow> (bool \<times> kstate) run" where
  "Mutex_lock cfg core m s =
     (let cur = runningThreads s ! core in
      if mowner (mutexes s m) = None
      then Some (Inr (True, addToLockedList m cur (upd_mutex m (\<lambda>x. x\<lparr>mowner := Some cur\<rparr>) s)))
      else if mowner (mutexes s m) = Some cur then
        (if mdepth (mutexes s m) \<ge> 0
         then Some (Inr (True, upd_mutex m (\<lambda>x. x\<lparr>mdepth := mdepth x + 1\<rparr>) s))
         else Some (Inl MUTEX_ERROR))
      else lock_contended cfg core m s)"

definition Mutex_lock_resume :: "config \<Rightarrow> nat \<Rightarrow> mid \<Rightarrow> kstate \<Rightarrow> (bool \<times> kstate) result" where
  "Mutex_lock_resume cfg core m s = rbind (PKrestartKernelAndWait_end cfg core s) (\<lambda>s1.
     if mowner (mutexes s1 m) = Some (runningThreads s1 ! core) then Inr (True, s1)
     else Inr (False, PKrestartKernelAndWait_begin core s1))"

definition Mutex_tryLock :: "nat \<Rightarrow> mid \<Rightarrow> kstate \<Rightarrow> bool \<times> kstate" where
  "Mutex_tryLock core m s =
     (let cur = runningThreads s ! core in
      if mowner (mutexes s m) = None
      then (True, addToLockedList m cur (upd_mutex m (\<lambda>x. x\<lparr>mowner := Some cur\<rparr>) s))
      else if mowner (mutexes s m) = Some cur \<and> mdepth (mutexes s m) \<ge> 0
      then (True, upd_mutex m (\<lambda>x. x\<lparr>mdepth := mdepth x + 1\<rparr>) s)
      else (False, s))"

definition Mutex_unlock :: "config \<Rightarrow> nat \<Rightarrow> mid \<Rightarrow> kstate \<Rightarrow> kstate run" where
  "Mutex_unlock cfg core m s =
     (if extraChecks cfg \<noteq> NoChecks \<and> mowner (mutexes s m) \<noteq> Some (runningThreads s ! core)
      then Some (Inl MUTEX_ERROR)
      else if mdepth (mutexes s m) > 0 then Some (Inr (upd_mutex m (\<lambda>x. x\<lparr>mdepth := mdepth x - 1\<rparr>) s))
      else run_bind (deInheritPriority (extraChecks cfg) m s) (\<lambda>s1. Some (chooseNextOwner cfg core m s1)))"

definition to_depth :: "mid \<Rightarrow> nat \<Rightarrow> kstate \<Rightarrow> kstate" where
  "to_depth m depth s = upd_mutex m (\<lambda>x. if mdepth x \<ge> 0 then x\<lparr>mdepth := int depth\<rparr> else x) s"

definition Mutex_PKlockToDepth :: "config \<Rightarrow> nat \<Rightarrow> nat \<Rightarrow> mid \<Rightarrow> kstate \<Rightarrow> (bool \<times> kstate) run" where
  "Mutex_PKlockToDepth cfg core depth m s =
     (let cur = runningThreads s ! core in
      if mowner (mutexes s m) = None
      then Some (Inr (True, addToLockedList m cur
             (to_depth m depth (upd_mutex m (\<lambda>x. x\<lparr>mowner := Some cur\<rparr>) s))))
      else if mowner (mutexes s m) = Some cur then
        (if mdepth (mutexes s m) \<ge> 0 then Some (Inr (True, to_depth m depth s))
         else Some (Inl MUTEX_ERROR))
      else lock_contended cfg core m s)"

definition Mutex_lockToDepth_resume :: "config \<Rightarrow> nat \<Rightarrow> nat \<Rightarrow> mid \<Rightarrow> kstate \<Rightarrow> (bool \<times> kstate) result" where
  "Mutex_lockToDepth_resume cfg core depth m s = rbind (PKrestartKernelAndWait_end cfg core s) (\<lambda>s1.
     if mowner (mutexes s1 m) = Some (runningThreads s1 ! core) then Inr (True, to_depth m depth s1)
     else Inr (False, PKrestartKernelAndWait_begin core s1))"

definition Mutex_PKunlockAllDepthLevels :: "config \<Rightarrow> nat \<Rightarrow> mid \<Rightarrow> kstate \<Rightarrow> (nat \<times> kstate) run" where
  "Mutex_PKunlockAllDepthLevels cfg core m s =
     (if extraChecks cfg \<noteq> NoChecks \<and> mowner (mutexes s m) \<noteq> Some (runningThreads s ! core)
      then Some (Inl MUTEX_ERROR)
      else run_bind (deInheritPriority (extraChecks cfg) m s) (\<lambda>s1.
           run_bind (Some (chooseNextOwner cfg core m s1)) (\<lambda>s2.
           if mdepth (mutexes s2 m) < 0 then Some (Inr (0, s2))
           else Some (Inr (nat (mdepth (mutexes s2 m)), upd_mutex m (\<lambda>x. x\<lparr>mdepth := 0\<rparr>) s2)))))"

section \<open>Thread::setPriority\<close>

definition set_actual_priority :: "config \<Rightarrow> tid \<Rightarrow> int \<Rightarrow> kstate \<Rightarrow> kstate result" where
  "set_actual_priority cfg cur pr s =
     (let oldActualPrio = prio s cur in
      if pr = oldActualPrio then Inr s
      else let s1 = (if mutexLocked (threads s cur) = None
                     then upd_thread cur (\<lambda>th. th\<lparr>savedPriority := pr\<rparr>) s else s)
           in rbind (IRQsetPriority (extraChecks cfg) cur pr s1) (\<lambda>s2.
              Inr (if pr < oldActualPrio then s2\<lparr>pendingWakeup := True\<rparr> else s2)))"

definition setPriority :: "config \<Rightarrow> nat \<Rightarrow> int \<Rightarrow> kstate \<Rightarrow> kstate run" where
  "setPriority cfg core pr s =
     (let cur = runningThreads s ! core in
      if \<not> validate_priority s pr then Some (Inr s)
      else if mutexLocked (threads s cur) \<noteq> None then
        (if savedPriority (threads s cur) = pr then Some (Inr s)
         else let s1 = upd_thread cur (\<lambda>th. th\<lparr>savedPriority := pr\<rparr>) s
              in run_bind (inheritPriorityFromLockedList cur pr s1) (\<lambda>pr'.
                 Some (set_actual_priority cfg cur pr' s1)))
      else Some (set_actual_priority cfg cur pr s))"

section \<open>ConditionVariable\<close>

text \<open>The parts of \<^verbatim>\<open>wait\<close> and \<^verbatim>\<open>timedWait\<close> before the context switch, and
  after it up to the call that locks the mutex again.\<close>

definition cond_wait_begin :: "config \<Rightarrow> nat \<Rightarrow> mid \<Rightarrow> waitQueue \<Rightarrow> kstate \<Rightarrow> (nat \<times> waitQueue \<times> kstate) run" where
  "cond_wait_begin cfg core m cv s =
     run_bind (Mutex_PKunlockAllDepthLevels cfg core m s) (\<lambda>(depth, s1).
     run_bind (Some (PKenqueue IgnoreInheritedPriority (runningThreads s1 ! core) s1 cv)) (\<lambda>cv'.
       Some (Inr (depth, cv', PKrestartKernelAndWait_begin core s1))))"

definition cond_wait_end :: "config \<Rightarrow> nat \<Rightarrow> nat \<Rightarrow> mid \<Rightarrow> waitQueue \<Rightarrow> kstate \<Rightarrow> (waitQueue \<times> bool \<times> kstate) run" where
  "cond_wait_end cfg core depth m cv s =
     run_bind (Some (PKrestartKernelAndWait_end cfg core s)) (\<lambda>s1.
     run_bind (Some (PKremove IgnoreInheritedPriority (runningThreads s1 ! core) s1 cv)) (\<lambda>cv'.
     run_bind (Mutex_PKlockToDepth cfg core depth m s1) (\<lambda>(got, s2). Some (Inr (cv', got, s2)))))"

definition cond_wait_begin_fast :: "config \<Rightarrow> nat \<Rightarrow> FastMutex \<Rightarrow> waitQueue \<Rightarrow> kstate
    \<Rightarrow> (nat \<times> FastMutex \<times> waitQueue \<times> kstate) result" where
  "cond_wait_begin_fast cfg core m cv s =
     rbind (FastMutex_PKunlockAllDepthLevels cfg core m s) (\<lambda>(depth, m1, s1).
     rbind (PKenqueue IgnoreInheritedPriority (runningThreads s1 ! core) s1 cv) (\<lambda>cv'.
       Inr (depth, m1, cv', PKrestartKernelAndWait_begin core s1)))"

definition cond_wait_end_fast :: "config \<Rightarrow> nat \<Rightarrow> nat \<Rightarrow> FastMutex \<Rightarrow> waitQueue \<Rightarrow> kstate
    \<Rightarrow> (waitQueue \<times> bool \<times> FastMutex \<times> kstate) result" where
  "cond_wait_end_fast cfg core depth m cv s =
     rbind (PKrestartKernelAndWait_end cfg core s) (\<lambda>s1.
     rbind (PKremove IgnoreInheritedPriority (runningThreads s1 ! core) s1 cv) (\<lambda>cv'.
     rbind (FastMutex_PKlockToDepth core depth m s1) (\<lambda>r. Inr (cv', r))))"

definition cond_timedWait_begin :: "config \<Rightarrow> nat \<Rightarrow> int \<Rightarrow> mid \<Rightarrow> waitQueue \<Rightarrow> kstate \<Rightarrow> (nat \<times> waitQueue \<times> kstate) run" where
  "cond_timedWait_begin cfg core absTime m cv s =
     run_bind (Mutex_PKunlockAllDepthLevels cfg core m s) (\<lambda>(depth, s1).
     run_bind (Some (PKenqueue IgnoreInheritedPriority (runningThreads s1 ! core) s1 cv)) (\<lambda>cv'.
     run_bind (Some (PKrestartKernelAndTimedWait_begin cfg core absTime s1)) (\<lambda>s2.
       Some (Inr (depth, cv', s2)))))"

definition cond_timedWait_end :: "config \<Rightarrow> nat \<Rightarrow> int \<Rightarrow> nat \<Rightarrow> mid \<Rightarrow> waitQueue \<Rightarrow> kstate
    \<Rightarrow> (TimedWaitResult \<times> waitQueue \<times> bool \<times> kstate) run" where
  "cond_timedWait_end cfg core absTime depth m cv s =
     (let cur = runningThreads s ! core;
          (res, s1) = PKrestartKernelAndTimedWait_end cfg core cur absTime s in
      run_bind (Some (PKremove IgnoreInheritedPriority cur s1 cv)) (\<lambda>cv'.
      run_bind (Mutex_PKlockToDepth cfg core depth m s1) (\<lambda>(got, s2). Some (Inr (res, cv', got, s2)))))"

definition cond_timedWait_begin_fast :: "config \<Rightarrow> nat \<Rightarrow> int \<Rightarrow> FastMutex \<Rightarrow> waitQueue \<Rightarrow> kstate
    \<Rightarrow> (nat \<times> FastMutex \<times> waitQueue \<times> kstate) result" where
  "cond_timedWait_begin_fast cfg core absTime m cv s =
     rbind (FastMutex_PKunlockAllDepthLevels cfg core m s) (\<lambda>(depth, m1, s1).
     rbind (PKenqueue IgnoreInheritedPriority (runningThreads s1 ! core) s1 cv) (\<lambda>cv'.
     rbind (PKrestartKernelAndTimedWait_begin cfg core absTime s1) (\<lambda>s2.
       Inr (depth, m1, cv', s2))))"

definition cond_timedWait_end_fast :: "config \<Rightarrow> nat \<Rightarrow> int \<Rightarrow> nat \<Rightarrow> FastMutex \<Rightarrow> waitQueue \<Rightarrow> kstate
    \<Rightarrow> (TimedWaitResult \<times> waitQueue \<times> bool \<times> FastMutex \<times> kstate) result" where
  "cond_timedWait_end_fast cfg core absTime depth m cv s =
     (let cur = runningThreads s ! core;
          (res, s1) = PKrestartKernelAndTimedWait_end cfg core cur absTime s in
      rbind (PKremove IgnoreInheritedPriority cur s1 cv) (\<lambda>cv'.
      rbind (FastMutex_PKlockToDepth core depth m s1) (\<lambda>r. Inr (res, cv', r))))"

definition cond_signal :: "config \<Rightarrow> nat \<Rightarrow> waitQueue \<Rightarrow> kstate \<Rightarrow> (waitQueue \<times> kstate) result" where
  "cond_signal cfg core cv s = rbind (PKwakeOne cfg core cv s) (\<lambda>(_, cv', s1). Inr (cv', s1))"

definition cond_broadcast :: "config \<Rightarrow> nat \<Rightarrow> waitQueue \<Rightarrow> kstate \<Rightarrow> (waitQueue \<times> kstate) result" where
  "cond_broadcast cfg core cv s = PKwakeAll cfg core cv s"

definition cond_empty :: "waitQueue \<Rightarrow> bool" where
  "cond_empty cv = PKempty cv"

end
