(* ===== verification/Mutex_Inheritance.thy ===== *)
theory Mutex_Inheritance
  imports Sync_Mutex
begin

text \<open>
  The invariant of the mutexes with priority inheritance, and that raising the priorities along the
  chain of owners (\<^verbatim>\<open>Mutex::inheritPriorityTowardsMutexOwner\<close>) ends and restores it.
\<close>

section \<open>The invariant of the mutexes\<close>

text \<open>The mutexes reached from a pointer along the \<^verbatim>\<open>next\<close> links.\<close>

fun chain :: "kstate \<Rightarrow> mid option \<Rightarrow> mid list \<Rightarrow> bool" where
  "chain s p [] = (p = None)"
| "chain s p (m # ms) = (p = Some m \<and> chain s (mnext (mutexes s m)) ms)"

definition wq_items :: "waitQueue \<Rightarrow> tid list" where
  "wq_items q = (case q of None \<Rightarrow> [] | Some q' \<Rightarrow> pq_items q')"

definition queued :: "kstate \<Rightarrow> mid \<Rightarrow> tid list" where
  "queued s m = wq_items (mqueue (mutexes s m))"

definition waiters :: "kstate \<Rightarrow> mid \<Rightarrow> tid set" where
  "waiters s m = {t. mutexWaiting (threads s t) = Some m}"

definition wq_inv :: "nat \<Rightarrow> (tid \<Rightarrow> int) \<Rightarrow> waitQueue \<Rightarrow> bool" where
  "wq_inv n key q = (case q of None \<Rightarrow> True | Some q' \<Rightarrow> pq_inv n key q')"

text \<open>A thread that locks or waits is known to the scheduler and has not terminated.\<close>

definition live :: "kstate \<Rightarrow> tid \<Rightarrow> bool" where
  "live s t = (known s t \<and> \<not> isZombie (flagsOf s t))"

text \<open>The structure: \<open>L t\<close> lists the mutexes \<open>t\<close> owns, the queue of a mutex holds the threads
  that wait for it except the one in \<open>X\<close>, which has not been enqueued yet.\<close>

definition mutex_struct :: "nat \<Rightarrow> (tid \<Rightarrow> mid list) \<Rightarrow> tid set \<Rightarrow> kstate \<Rightarrow> bool" where
  "mutex_struct n L X s =
     ((\<forall>t. chain s (mutexLocked (threads s t)) (L t) \<and> distinct (L t))
      \<and> (\<forall>t m. m \<in> set (L t) \<longrightarrow> mowner (mutexes s m) = Some t)
      \<and> (\<forall>m. wq_inv n (prio s) (mqueue (mutexes s m)))
      \<and> (\<forall>m. set (queued s m) = waiters s m - X)
      \<and> (\<forall>m. waiters s m \<noteq> {} \<longrightarrow> mowner (mutexes s m) \<noteq> None)
      \<and> (\<forall>m t. mowner (mutexes s m) = Some t \<or> t \<in> waiters s m \<longrightarrow> live s t)
      \<and> (\<forall>t. known s t \<longrightarrow> 0 \<le> savedPriority (threads s t) \<and> savedPriority (threads s t) < int n))"

text \<open>The threads that wait for a mutex of a list.\<close>

definition waiting_on :: "kstate \<Rightarrow> mid list \<Rightarrow> tid set" where
  "waiting_on s ms = (\<Union>m \<in> set ms. waiters s m)"

text \<open>The priority of a thread is the highest of its own and of those that wait for its mutexes.\<close>

definition inherits :: "kstate \<Rightarrow> mid list \<Rightarrow> tid \<Rightarrow> bool" where
  "inherits s ms t =
     (savedPriority (threads s t) \<le> prio s t
      \<and> (\<forall>w \<in> waiting_on s ms. prio s w \<le> prio s t)
      \<and> (prio s t = savedPriority (threads s t) \<or> (\<exists>w \<in> waiting_on s ms. prio s w = prio s t)))"

definition mutex_inv_with :: "nat \<Rightarrow> (tid \<Rightarrow> mid list) \<Rightarrow> kstate \<Rightarrow> bool" where
  "mutex_inv_with n L s =
     (mutex_struct n L {} s \<and> (\<forall>m t. mowner (mutexes s m) = Some t \<longrightarrow> m \<in> set (L t))
      \<and> (\<forall>t. known s t \<longrightarrow> inherits s (L t) t))"

definition mutex_inv :: "nat \<Rightarrow> kstate \<Rightarrow> bool" where
  "mutex_inv n s = (\<exists>L. mutex_inv_with n L s)"

text \<open>With the mutexes a thread owns in the place of the list, the invariant says that its priority
  is a maximum.\<close>

definition owned :: "kstate \<Rightarrow> tid \<Rightarrow> mid set" where
  "owned s t = {m. mowner (mutexes s m) = Some t}"

lemma inherits_Max:
  assumes "inherits s ms t" "finite (waiting_on s ms)"
  shows "prio s t = Max (insert (savedPriority (threads s t)) (prio s ` waiting_on s ms))"
  using assms by (intro Max_eqI[symmetric]) (auto simp: inherits_def image_iff, metis)

lemma upd_mutex_fields [simp]:
  "threads (upd_mutex m f s) = threads s" "runningThreads (upd_mutex m f s) = runningThreads s"
  "idle (upd_mutex m f s) = idle s" "readyThreads (upd_mutex m f s) = readyThreads s"
  "notReadyThreads (upd_mutex m f s) = notReadyThreads s" "sleepingList (upd_mutex m f s) = sleepingList s"
  "mutexes (upd_mutex m f s) = (mutexes s)(m := f (mutexes s m))"
  "busy (upd_mutex m f s) = busy s" "known (upd_mutex m f s) t = known s t"
  "sched_inv n (upd_mutex m f s) = sched_inv n s" "NUM_PRIORITIES (upd_mutex m f s) = NUM_PRIORITIES s"
  by (simp_all add: upd_mutex_def busy_def known_def NUM_PRIORITIES_def
      sched_inv_cong(1)[of "s\<lparr>mutexes := x\<rparr>" s for x])

lemma upd_thread_mutexes [simp]: "mutexes (upd_thread t f s) = mutexes s"
  by (simp add: upd_thread_def)

lemma chain_cong:
  assumes "\<And>m. m \<in> set ms \<Longrightarrow> mnext (mutexes s' m) = mnext (mutexes s m)"
  shows "chain s' p ms = chain s p ms"
  using assms by (induction ms arbitrary: p) auto

lemma known_upd_thread [simp]: "known (upd_thread t f s) = known s"
  by (simp add: known_def busy_def upd_thread_def fun_eq_iff)

lemma waiters_upd_mutex [simp]: "waiters (upd_mutex m f s) = waiters s" "waiting_on (upd_mutex m f s) = waiting_on s"
  by (simp_all add: waiters_def waiting_on_def fun_eq_iff)

lemma live_upd_mutex [simp]: "live (upd_mutex m f s) = live s"
  by (simp add: live_def fun_eq_iff)

lemma inherits_upd_mutex [simp]: "inherits (upd_mutex m f s) = inherits s"
  by (simp add: inherits_def fun_eq_iff)

section \<open>Waiting queues hold their threads\<close>

text \<open>The four queue operations on the queue of one mutex, with the key the code uses.\<close>

lemma PKenqueue_spec:
  assumes "wq_inv n (wq_key pp s) q" "0 \<le> wq_key pp s t" "wq_key pp s t < int n" "NUM_PRIORITIES s = n"
    "t \<notin> set (wq_items q)"
  shows "\<exists>q'. PKenqueue pp t s q = Inr (Some q') \<and> pq_inv n (wq_key pp s) q'
           \<and> set (pq_items q') = insert t (set (wq_items q))"
proof -
  let ?q = "case q of None \<Rightarrow> pq_new (NUM_PRIORITIES s) | Some q' \<Rightarrow> q'"
  have i: "pq_inv n (wq_key pp s) ?q"
    using assms(1,4) by (auto simp: wq_inv_def pq_inv_new split: option.splits)
  have e: "pq_items ?q = (wq_items q)"
    by (auto simp: wq_items_def pq_items_def pq_new_def split: option.splits)
  obtain q' where q': "pq_enqueue t (wq_key pp s t) ?q = Inr q'" "pq_inv n (wq_key pp s) q'"
      "mset (pq_items q') = add_mset t (mset (pq_items ?q))"
    using pq.enq_law[OF i, of t] assms(2,3,5) e by auto
  have "set (pq_items q') = insert t (set (pq_items ?q))"
    using q'(3) by (metis set_mset_add_mset_insert set_mset_mset)
  with q' e show ?thesis by (simp add: PKenqueue_def del: set_pq_items)
qed

lemma PKremove_spec:
  assumes "wq_inv n (wq_key pp s) q" "0 \<le> wq_key pp s t" "wq_key pp s t < int n"
  shows "\<exists>q'. PKremove pp t s q = Inr q' \<and> wq_inv n (wq_key pp s) q'
           \<and> set (wq_items q') = set (wq_items q) - {t}"
proof (cases q)
  case (Some x)
  then have i: "pq_inv n (wq_key pp s) x" using assms by (simp add: wq_inv_def)
  obtain x' where x': "pq_remove t (wq_key pp s t) x = Inr x'" "pq_inv n (wq_key pp s) x'"
      "pq_items x' = remove1 t (pq_items x)"
    using pq.rem_law[OF i, of t] assms(2,3) by auto
  have "set (pq_items x') = set (pq_items x) - {t}"
    using x'(3) pq_inv_distinct[OF i] by (simp add: set_remove1_eq del: set_pq_items)
  with x'(1,2) Some show ?thesis by (auto simp: PKremove_def wq_inv_def wq_items_def simp del: set_pq_items)
qed (simp add: PKremove_def wq_inv_def wq_items_def)

lemma wq_inv_cong:
  assumes "\<And>t. t \<in> set (wq_items q) \<Longrightarrow> key' t = key t"
  shows "wq_inv n key' q = wq_inv n key q"
  using assms by (auto simp: wq_inv_def wq_items_def simp del: set_concat split: option.splits intro: pq_inv_cong[THEN iffD1])

lemma queue_cases: "wq_inv n key q \<Longrightarrow> distinct (wq_items q)"
  by (auto simp: wq_inv_def wq_items_def pq_inv_distinct split: option.splits)

lemma wq_key_simps [simp]:
  "wq_key ConsiderInheritedPriority s = prio s"
  "wq_key IgnoreInheritedPriority s = (\<lambda>t. savedPriority (threads s t))"
  by (simp_all add: wq_key_def fun_eq_iff)

section \<open>Inheritance along the chain of owners\<close>

text \<open>Two states that differ in priorities and in the order of the queues only.\<close>

definition same_but_prio :: "kstate \<Rightarrow> kstate \<Rightarrow> bool" where
  "same_but_prio s s' =
     ((\<forall>t. threads s' t = (threads s t)\<lparr>priority := prio s' t\<rparr>)
      \<and> (\<forall>m. mutexes s' m = (mutexes s m)\<lparr>mqueue := mqueue (mutexes s' m)\<rparr>)
      \<and> known s' = known s \<and> runningThreads s' = runningThreads s \<and> idle s' = idle s
      \<and> NUM_PRIORITIES s' = NUM_PRIORITIES s)"

lemma same_but_prioD:
  assumes "same_but_prio s s'"
  shows "mutexWaiting (threads s' t) = mutexWaiting (threads s t)"
    "mutexLocked (threads s' t) = mutexLocked (threads s t)"
    "savedPriority (threads s' t) = savedPriority (threads s t)"
    "flagsOf s' t = flagsOf s t" "known s' = known s" "runningThreads s' = runningThreads s"
    "mowner (mutexes s' m) = mowner (mutexes s m)" "mnext (mutexes s' m) = mnext (mutexes s m)"
    "mdepth (mutexes s' m) = mdepth (mutexes s m)" "NUM_PRIORITIES s' = NUM_PRIORITIES s"
    "waiters s' = waiters s" "waiting_on s' = waiting_on s" "live s' = live s"
    "chain s' q ms = chain s q ms" "idle s' = idle s"
proof -
  have t: "threads s' t = (threads s t)\<lparr>priority := prio s' t\<rparr>" for t
    using assms by (simp add: same_but_prio_def)
  have m: "mutexes s' m = (mutexes s m)\<lparr>mqueue := mqueue (mutexes s' m)\<rparr>" for m
    using assms by (simp add: same_but_prio_def)
  show k: "known s' = known s" "runningThreads s' = runningThreads s" "NUM_PRIORITIES s' = NUM_PRIORITIES s"
    "idle s' = idle s"
    using assms by (simp_all add: same_but_prio_def)
  have w: "mutexWaiting (threads s' t) = mutexWaiting (threads s t)" for t by (subst t) simp
  have f: "flagsOf s' t = flagsOf s t" for t by (subst t) simp
  have nx: "mnext (mutexes s' m) = mnext (mutexes s m)" for m by (subst m) simp
  show "mutexWaiting (threads s' t) = mutexWaiting (threads s t)" by (rule w)
  show "mutexLocked (threads s' t) = mutexLocked (threads s t)" by (subst t) simp
  show "savedPriority (threads s' t) = savedPriority (threads s t)" by (subst t) simp
  show "flagsOf s' t = flagsOf s t" by (rule f)
  show "mowner (mutexes s' m) = mowner (mutexes s m)" by (subst m) simp
  show "mnext (mutexes s' m) = mnext (mutexes s m)" by (rule nx)
  show "mdepth (mutexes s' m) = mdepth (mutexes s m)" by (subst m) simp
  show "waiters s' = waiters s" by (simp add: waiters_def w fun_eq_iff)
  then show "waiting_on s' = waiting_on s" by (simp add: waiting_on_def fun_eq_iff)
  show "live s' = live s" by (simp add: live_def f k fun_eq_iff)
  show "chain s' q ms = chain s q ms" by (rule chain_cong) (rule nx)
qed

lemma same_but_prio_trans: "same_but_prio s s' \<Longrightarrow> same_but_prio s' s'' \<Longrightarrow> same_but_prio s s''"
  unfolding same_but_prio_def by (metis (no_types, lifting) mutex.update_convs(3) mutex.surjective
      mutex.select_convs thread.update_convs(1) thread.surjective thread.select_convs)

lemma struct_frame:
  assumes "mutex_struct n L X s" "same_but_prio s s'"
    "\<And>m. wq_inv n (prio s') (mqueue (mutexes s' m))" "\<And>m. set (queued s' m) = waiters s m - Y"
  shows "mutex_struct n L Y s'"
  using assms(1,3,4) unfolding mutex_struct_def same_but_prioD[OF assms(2)] by blast

lemma mutex_structD:
  assumes "mutex_struct n L X s"
  shows "chain s (mutexLocked (threads s t)) (L t)" "distinct (L t)"
    "m \<in> set (L t) \<Longrightarrow> mowner (mutexes s m) = Some t"
    "wq_inv n (prio s) (mqueue (mutexes s m))" "set (queued s m) = waiters s m - X"
    "waiters s m \<noteq> {} \<Longrightarrow> mowner (mutexes s m) \<noteq> None"
    "mowner (mutexes s m) = Some t \<Longrightarrow> live s t" "t \<in> waiters s m \<Longrightarrow> live s t"
    "known s t \<Longrightarrow> 0 \<le> savedPriority (threads s t) \<and> savedPriority (threads s t) < int n"
  using assms unfolding mutex_struct_def by blast+

text \<open>Changing the priority of a thread that is in no wait queue.\<close>

lemma known_setPriority:
  assumes inv: "sched_inv n s" and l: "live s t" and p: "0 \<le> p" "p < int n"
    and nq: "\<And>m. t \<notin> set (queued s m)" and st: "\<And>m. wq_inv n (prio s) (mqueue (mutexes s m))"
  shows "\<exists>s'. IRQsetPriority ck t p s = Inr s' \<and> sched_inv n s' \<and> prio s' = (prio s)(t := p)
           \<and> same_but_prio s s' \<and> mutexes s' = mutexes s"
    and "\<And>m s'. IRQsetPriority ck t p s = Inr s' \<Longrightarrow> wq_inv n (prio s') (mqueue (mutexes s' m))"
proof -
  obtain q where q: "IRQsetPriority ck t p s = Inr (upd_thread t (\<lambda>th. th\<lparr>priority := p\<rparr>) (s\<lparr>readyThreads := q\<rparr>))"
      "sched_inv n (upd_thread t (\<lambda>th. th\<lparr>priority := p\<rparr>) (s\<lparr>readyThreads := q\<rparr>))"
      "mset (concat q) = mset (concat (readyThreads s))"
    using IRQsetPriority_inv[OF inv _ p, of t ck] l by (auto simp: live_def known_def simp del: set_concat)
  let ?s' = "upd_thread t (\<lambda>th. th\<lparr>priority := p\<rparr>) (s\<lparr>readyThreads := q\<rparr>)"
  have k: "known ?s' = known s"
    using mset_eq_setD[OF q(3)] by (simp add: known_def busy_def fun_eq_iff del: set_concat)
  have n: "length q = length (readyThreads s)"
    using sched_invD(12)[OF inv] sched_invD(12)[OF q(2)] by simp
  have pr: "prio ?s' = (prio s)(t := p)" by (simp add: fun_eq_iff)
  have "same_but_prio s ?s'" using n k by (simp add: same_but_prio_def NUM_PRIORITIES_def)
  with q pr show "\<exists>s'. IRQsetPriority ck t p s = Inr s' \<and> sched_inv n s' \<and> prio s' = (prio s)(t := p)
           \<and> same_but_prio s s' \<and> mutexes s' = mutexes s" by (intro exI[of _ ?s']) simp
  fix m s' assume "IRQsetPriority ck t p s = Inr s'"
  then have s': "s' = ?s'" using q(1) by simp
  have "wq_inv n ((prio s)(t := p)) (mqueue (mutexes s m)) = wq_inv n (prio s) (mqueue (mutexes s m))"
    using nq[of m] by (intro wq_inv_cong) (auto simp: queued_def)
  then show "wq_inv n (prio s') (mqueue (mutexes s' m))"
    unfolding s' pr using st[of m] by simp
qed

lemma queued_upd_mutex: "queued (upd_mutex m (\<lambda>x. x\<lparr>mqueue := q\<rparr>) s) m' = (if m' = m then wq_items q else queued s m')"
  by (simp add: queued_def)

lemma same_but_prio_queue: "same_but_prio s s' \<Longrightarrow> same_but_prio s (upd_mutex m (\<lambda>x. x\<lparr>mqueue := q\<rparr>) s')"
  "same_but_prio s s"
proof -
  assume a: "same_but_prio s s'"
  then have "mutexes s' m = (mutexes s m)\<lparr>mqueue := mqueue (mutexes s' m)\<rparr>" by (simp add: same_but_prio_def)
  then have "(mutexes s' m)\<lparr>mqueue := q\<rparr> = (mutexes s m)\<lparr>mqueue := mqueue (mutexes s' m)\<rparr>\<lparr>mqueue := q\<rparr>"
    by (rule arg_cong)
  then have "(mutexes s' m)\<lparr>mqueue := q\<rparr> = (mutexes s m)\<lparr>mqueue := q\<rparr>" by simp
  with a show "same_but_prio s (upd_mutex m (\<lambda>x. x\<lparr>mqueue := q\<rparr>) s')"
    by (simp add: same_but_prio_def fun_eq_iff)
qed (simp add: same_but_prio_def)

lemma live_prio: "sched_inv n s \<Longrightarrow> live s t \<Longrightarrow> 0 \<le> prio s t \<and> prio s t < int n"
  using pq_inv_member[OF sched_invD(2), of n s t] sched_inv_prioD[of n s t]
  by (auto simp: live_def known_def prio_ok_def simp del: set_concat)

text \<open>One turn of the loop.\<close>

lemma boost_one:
  assumes inv: "sched_inv n s" and st: "mutex_struct n L X s" and l: "live s walk" and nX: "walk \<notin> X"
    and p: "0 \<le> p" "p < int n" and lt: "prio s walk < p"
  shows "\<exists>s1. sched_inv n s1 \<and> mutex_struct n L X s1 \<and> same_but_prio s s1 \<and> prio s1 = (prio s)(walk := p)
     \<and> inherit_towards ck walk p s = (case mutexWaiting (threads s walk) of None \<Rightarrow> Some (Inr s1)
         | Some m \<Rightarrow> inherit_towards ck (the (mowner (mutexes s m))) p s1)"
proof (cases "mutexWaiting (threads s walk)")
  case None
  then have nq: "walk \<notin> set (queued s m)" for m
    unfolding mutex_structD(5)[OF st] by (simp add: waiters_def)
  obtain s1 where s1: "IRQsetPriority ck walk p s = Inr s1" "sched_inv n s1" "prio s1 = (prio s)(walk := p)"
      "same_but_prio s s1" "mutexes s1 = mutexes s"
    using known_setPriority(1)[OF inv l p nq mutex_structD(4)[OF st]] by blast
  have "mutex_struct n L X s1"
    using known_setPriority(2)[OF inv l p nq mutex_structD(4)[OF st] s1(1)] mutex_structD(5)[OF st]
    by (intro struct_frame[OF st s1(4)]) (simp_all add: s1(5) queued_def)
  moreover have "inherit_towards ck walk p s = Some (Inr s1)"
    by (subst inherit_towards.simps) (simp add: lt None s1(1) same_but_prioD(1)[OF s1(4)])
  ultimately show ?thesis using s1 None by auto
next
  case (Some m)
  note pr = live_prio[OF inv l]
  have w: "walk \<in> waiters s m" "walk \<in> set (queued s m)" "\<And>m'. m' \<noteq> m \<Longrightarrow> walk \<notin> set (queued s m')"
    unfolding mutex_structD(5)[OF st] using Some nX by (auto simp: waiters_def)
  obtain q1 where q1: "PKremove ConsiderInheritedPriority walk s (mqueue (mutexes s m)) = Inr q1"
      "wq_inv n (prio s) q1" "set (wq_items q1) = set (queued s m) - {walk}"
    using PKremove_spec[of n ConsiderInheritedPriority s "mqueue (mutexes s m)" walk] pr
      mutex_structD(4)[OF st] by (auto simp: queued_def)
  let ?sa = "upd_mutex m (\<lambda>x. x\<lparr>mqueue := q1\<rparr>) s"
  have a: "sched_inv n ?sa" "live ?sa walk" "same_but_prio s ?sa"
    using inv l by (simp_all add: same_but_prio_queue)
  have aq: "\<And>m'. walk \<notin> set (queued ?sa m')" "\<And>m'. wq_inv n (prio ?sa) (mqueue (mutexes ?sa m'))"
    using w(3) q1(2,3) mutex_structD(4)[OF st] by (auto simp: queued_upd_mutex)
  obtain sb where sb: "IRQsetPriority ck walk p ?sa = Inr sb" "sched_inv n sb" "prio sb = (prio ?sa)(walk := p)"
      "same_but_prio ?sa sb" "mutexes sb = mutexes ?sa"
    using known_setPriority(1)[OF a(1,2) p aq] by blast
  note bq = known_setPriority(2)[OF a(1,2) p aq sb(1)]
  have nb: "NUM_PRIORITIES sb = n" using sched_invD(12)[OF sb(2)] by (simp add: NUM_PRIORITIES_def)
  have wb: "walk \<notin> set (wq_items (mqueue (mutexes sb m)))" using q1(3) sb(5) by simp
  obtain q2 where q2: "PKenqueue ConsiderInheritedPriority walk sb (mqueue (mutexes sb m)) = Inr (Some q2)"
      "pq_inv n (prio sb) q2" "set (pq_items q2) = insert walk (set (wq_items (mqueue (mutexes sb m))))"
    using PKenqueue_spec[of n ConsiderInheritedPriority sb "mqueue (mutexes sb m)" walk] bq[of m] nb p sb(3) wb
    by (auto simp: fun_eq_iff)
  let ?sc = "upd_mutex m (\<lambda>x. x\<lparr>mqueue := Some q2\<rparr>) sb"
  have sc: "same_but_prio s ?sc" using same_but_prio_trans[OF a(3) sb(4)] by (rule same_but_prio_queue)
  have qs: "set (queued ?sc m') = set (queued s m')" for m'
    using q1(3) q2(3) w(2) sb(5) by (auto simp: queued_upd_mutex queued_def wq_items_def simp del: set_pq_items split: if_splits option.splits)
  have "mutex_struct n L X ?sc"
    using bq q2(2) qs mutex_structD(5)[OF st]
    by (intro struct_frame[OF st sc]) (simp_all add: wq_inv_def)
  moreover obtain w' where w': "mowner (mutexes s m) = Some w'"
    using mutex_structD(6)[OF st, of m] w(1) by blast
  moreover have "inherit_towards ck walk p s = inherit_towards ck w' p ?sc"
    using Some q1(1) sb(1,5) q2(1) w' same_but_prioD(1)[OF same_but_prio_trans[OF a(3) sb(4)], of walk]
    by (subst inherit_towards.simps) (simp add: lt)
  moreover have "prio ?sc = (prio s)(walk := p)" using sb(3) by simp
  ultimately show ?thesis using sb(2) sc Some by (intro exI[of _ ?sc]) simp
qed

lemma inherits_raise_other:
  assumes "same_but_prio s s1" "\<And>x. prio s1 x = (if x = w then p else prio s x)" "w \<notin> waiting_on s ms" "t \<noteq> w"
  shows "inherits s1 ms t = inherits s ms t"
proof -
  have "prio s1 x = prio s x" if "x \<in> waiting_on s ms \<or> x = t" for x using assms that by auto
  then show ?thesis unfolding inherits_def same_but_prioD[OF assms(1)] by (metis (no_types, lifting))
qed

lemma inherits_raise_self:
  assumes "same_but_prio s s1" "\<And>x. prio s1 x = (if x = w then p else prio s x)" "prio s w < p"
    "savedPriority (threads s w) \<le> prio s w" "\<forall>x \<in> waiting_on s ms. prio s x \<le> max (prio s w) p"
    "\<exists>x \<in> waiting_on s ms. prio s x = p"
  shows "inherits s1 ms w"
proof -
  have "\<forall>x \<in> waiting_on s ms. prio s1 x \<le> p" using assms(2,3,5) by auto
  moreover have "\<exists>x \<in> waiting_on s ms. prio s1 x = p" using assms(2,3,6) by fastforce
  ultimately show ?thesis using assms(2-4) unfolding inherits_def same_but_prioD[OF assms(1)] by auto
qed

lemma inherits_raise_waiter:
  assumes "same_but_prio s s1" "\<And>x. prio s1 x = (if x = w then p else prio s x)" "prio s w < p" "p \<le> prio s t" "inherits s ms t"
  shows "inherits s1 ms t"
proof -
  have t: "prio s1 t = prio s t" using assms(2-4) by auto
  have "\<forall>x \<in> waiting_on s ms. prio s1 x \<le> prio s t" using assms(2,4,5) by (auto simp: inherits_def)
  moreover have "prio s t = savedPriority (threads s t) \<or> (\<exists>x \<in> waiting_on s ms. prio s1 x = prio s t)"
    using assms(2-5) unfolding inherits_def by (metis linorder_not_less)
  ultimately show ?thesis using assms(5) t unfolding inherits_def same_but_prioD[OF assms(1)] by simp
qed

lemma finite_known: "finite {t. known s t}"
proof -
  have "{t. known s t} = set (concat (readyThreads s)) \<union> set (notReadyThreads s) \<union> set (busy s)"
    by (auto simp: known_def simp del: set_concat)
  then show ?thesis by (simp del: set_concat)
qed

lemma waiting_on_owner:
  assumes "mutex_struct n L X s" "\<And>m t. mowner (mutexes s m) = Some t \<Longrightarrow> m \<in> set (L t)"
    "mutexWaiting (threads s w) = Some m"
  shows "w \<in> waiting_on s (L t) \<longleftrightarrow> mowner (mutexes s m) = Some t"
proof -
  have "w \<in> waiting_on s (L t) \<longleftrightarrow> m \<in> set (L t)" using assms(3) by (auto simp: waiting_on_def waiters_def)
  then show ?thesis using assms(2) mutex_structD(3)[OF assms(1)] by blast
qed

text \<open>The loop ends and restores the inheritance: at each turn one more thread has at least the
  priority that is propagated. This also holds when the threads wait for each other in a circle.\<close>

lemma inherit_towards_correct:
  assumes "sched_inv n s" "mutex_struct n L X s"
    "\<And>m t. mowner (mutexes s m) = Some t \<Longrightarrow> m \<in> set (L t)"
    "live s walk" "0 \<le> p" "p < int n" "\<And>t. t \<in> X \<Longrightarrow> prio s t = p"
    "\<And>t. known s t \<Longrightarrow> t \<noteq> walk \<Longrightarrow> inherits s (L t) t"
    "savedPriority (threads s walk) \<le> prio s walk"
    "\<forall>w \<in> waiting_on s (L walk). prio s w \<le> max (prio s walk) p"
    "\<exists>w \<in> waiting_on s (L walk). prio s w = p"
    "prio s walk < p \<or> inherits s (L walk) walk"
  shows "\<exists>s'. inherit_towards ck walk p s = Some (Inr s') \<and> sched_inv n s' \<and> mutex_struct n L X s'
     \<and> same_but_prio s s' \<and> (\<forall>t. known s t \<longrightarrow> inherits s' (L t) t)
     \<and> (\<forall>t. prio s' t = prio s t \<or> prio s t < p \<and> prio s' t = p)"
  using assms
proof (induction "card {t. known s t \<and> prio s t < p}" arbitrary: s walk rule: less_induct)
  case less
  note inv = less.prems(1) and st = less.prems(2) and ow = less.prems(3)
  show ?case
  proof (cases "prio s walk < p")
    case False
    then have "inherit_towards ck walk p s = Some (Inr s)" by (subst inherit_towards.simps) simp
    moreover have "inherits s (L t) t" if "known s t" for t using less.prems(8,12) False that by metis
    ultimately show ?thesis using inv st by (auto simp: same_but_prio_queue)
  next
    case True
    have "walk \<notin> X" using less.prems(7) True by auto
    then obtain s1 where s1: "sched_inv n s1" "mutex_struct n L X s1" "same_but_prio s s1" "\<And>x. prio s1 x = (if x = walk then p else prio s x)"
      and go: "inherit_towards ck walk p s = (case mutexWaiting (threads s walk) of None \<Rightarrow> Some (Inr s1)
         | Some m \<Rightarrow> inherit_towards ck (the (mowner (mutexes s m))) p s1)"
    proof -
      obtain s1 where s1: "sched_inv n s1" "mutex_struct n L X s1" "same_but_prio s s1" "prio s1 = (prio s)(walk := p)"
        and go: "inherit_towards ck walk p s = (case mutexWaiting (threads s walk) of None \<Rightarrow> Some (Inr s1)
         | Some m \<Rightarrow> inherit_towards ck (the (mowner (mutexes s m))) p s1)"
        using boost_one[OF inv st less.prems(4) \<open>walk \<notin> X\<close> less.prems(5,6) True, of ck] by blast
      have "prio s1 x = (if x = walk then p else prio s x)" for x
        using fun_cong[OF s1(4), of x] by simp
      with s1(1-3) go that show ?thesis by blast
    qed
    note f = same_but_prioD[OF s1(3)]
    have self: "inherits s1 (L walk) walk"
      using inherits_raise_self[OF s1(3,4) True less.prems(9-11)] .
    have oth: "inherits s1 (L t) t" if "known s t" "walk \<notin> waiting_on s (L t)" for t
      using inherits_raise_other[OF s1(3,4)] less.prems(8) self that by metis
    have pr: "prio s1 t = prio s t \<or> prio s t < p \<and> prio s1 t = p" for t using s1(4) True by simp
    show ?thesis
    proof (cases "mutexWaiting (threads s walk)")
      case None
      then have "walk \<notin> waiting_on s ms" for ms by (simp add: waiting_on_def waiters_def)
      with oth go None s1 pr show ?thesis by (intro exI[of _ s1]) simp
    next
      case (Some m)
      then have "walk \<in> waiters s m" by (simp add: waiters_def)
      then obtain t where t: "mowner (mutexes s m) = Some t" using mutex_structD(6)[OF st, of m] by blast
      have wo: "walk \<in> waiting_on s (L x) \<longleftrightarrow> x = t" for x
        using waiting_on_owner[OF st ow Some, of x] t by auto
      have lt: "live s t" using mutex_structD(7)[OF st t] .
      have inh: "prio s1 t < p \<or> inherits s1 (L t) t"
      proof (cases "t = walk")
        case False
        then have "inherits s (L t) t" using less.prems(8) lt by (simp add: live_def)
        then show ?thesis using inherits_raise_waiter[OF s1(3,4) True, of t "L t"] False s1(4)
          by (cases "p \<le> prio s t") auto
      qed (use self in simp)
      have le: "savedPriority (threads s1 t) \<le> prio s1 t"
        "\<forall>w \<in> waiting_on s1 (L t). prio s1 w \<le> max (prio s1 t) p"
      proof -
        have "savedPriority (threads s t) \<le> prio s t" "\<forall>w \<in> waiting_on s (L t). prio s w \<le> max (prio s t) p"
          using less.prems(8)[of t] less.prems(9,10) lt by (cases "t = walk"; fastforce simp: live_def inherits_def)+
        then show "savedPriority (threads s1 t) \<le> prio s1 t"
          "\<forall>w \<in> waiting_on s1 (L t). prio s1 w \<le> max (prio s1 t) p"
          using True unfolding f s1(4) by fastforce+
      qed
      have ex: "\<exists>w \<in> waiting_on s1 (L t). prio s1 w = p"
        using wo[of t] unfolding f s1(4) by (intro bexI[of _ walk]) auto
      have sub: "{x. known s1 x \<and> prio s1 x < p} \<subset> {x. known s x \<and> prio s x < p}"
        using True less.prems(4) unfolding f s1(4) by (auto simp: live_def)
      have card: "card {x. known s1 x \<and> prio s1 x < p} < card {x. known s x \<and> prio s x < p}"
        using finite_known[of s] by (intro psubset_card_mono sub) simp
      obtain s' where s': "inherit_towards ck t p s1 = Some (Inr s')" "sched_inv n s'" "mutex_struct n L X s'"
          "same_but_prio s1 s'" "\<forall>t. known s1 t \<longrightarrow> inherits s' (L t) t"
          "\<forall>t. prio s' t = prio s1 t \<or> prio s1 t < p \<and> prio s' t = p"
      proof -
        have "prio s1 x = p" if "x \<in> X" for x using less.prems(7)[OF that] pr[of x] by auto
        moreover have "inherits s1 (L x) x" if "known s1 x" "x \<noteq> t" for x
          using oth[of x] wo[of x] that by (simp add: f)
        moreover have "m \<in> set (L x)" if "mowner (mutexes s1 m) = Some x" for m x
          using ow[of m x] that by (simp add: f)
        moreover have "live s1 t" using lt by (simp add: f)
        ultimately show ?thesis
          using less.hyps[OF card s1(1,2) _ _ less.prems(5,6) _ _ le ex inh] that by blast
      qed
      have "\<forall>t. prio s' t = prio s t \<or> prio s t < p \<and> prio s' t = p" using s'(6) pr by metis
      with s' same_but_prio_trans[OF s1(3) s'(4)] go Some t f(5) show ?thesis by (intro exI[of _ s']) simp
    qed
  qed
qed

end
