(* ===== verification/Mutex_Correct.thy ===== *)
theory Mutex_Correct
  imports Mutex_Inheritance
begin

text \<open>
  Locking, unlocking, waiting on a condition variable and changing a priority keep the invariant of
  theory Mutex_Inheritance.
\<close>

section \<open>The locked lists\<close>

lemma chain_append: "chain s p (as @ m # bs) \<Longrightarrow> chain s (mnext (mutexes s m)) bs"
  by (induction as arbitrary: p) auto

lemma remove_walk_chain:
  assumes "chain s p (as @ m # bs)" "as \<noteq> []" "distinct (as @ m # bs)"
  shows "remove_walk m p s = Some (Inr (upd_mutex (last as) (\<lambda>x. x\<lparr>mnext := mnext (mutexes s m)\<rparr>) s))"
  using assms
proof (induction as arbitrary: p)
  case (Cons a as)
  show ?case
  proof (cases as)
    case Nil
    then show ?thesis using Cons.prems by (subst remove_walk.simps) simp
  next
    case (Cons b cs)
    then have "mnext (mutexes s a) \<noteq> Some m" "mnext (mutexes s a) \<noteq> None" using Cons.prems by auto
    then show ?thesis using Cons Cons.IH[of "mnext (mutexes s a)"] Cons.prems by (subst remove_walk.simps) simp
  qed
qed simp

lemma chain_unlink:
  assumes "chain s p (as @ m # bs)" "as \<noteq> []" "distinct (as @ m # bs)"
  shows "chain (upd_mutex (last as) (\<lambda>x. x\<lparr>mnext := mnext (mutexes s m)\<rparr>) s) p (as @ bs)"
  using assms
proof (induction as arbitrary: p)
  case (Cons a as)
  let ?s = "\<lambda>l. upd_mutex l (\<lambda>x. x\<lparr>mnext := mnext (mutexes s m)\<rparr>) s"
  show ?case
  proof (cases as)
    case Nil
    have "chain (?s a) (mnext (mutexes s m)) bs = chain s (mnext (mutexes s m)) bs"
      using Cons.prems Nil by (intro chain_cong) auto
    then show ?thesis using Cons.prems Nil by simp
  next
    case (Cons b cs)
    then have "a \<noteq> last as" using Cons.prems by auto
    then show ?thesis using Cons Cons.IH[of "mnext (mutexes s a)"] Cons.prems by simp
  qed
qed simp

lemma removeFromLockedList_spec:
  assumes c: "chain s (mutexLocked (threads s t)) ms" "distinct ms" and m: "m \<in> set ms"
  shows "\<exists>s'. removeFromLockedList m t s = Some (Inr s')
     \<and> s' = s\<lparr>threads := threads s', mutexes := mutexes s'\<rparr>
     \<and> threads s' = (threads s)(t := (threads s t)\<lparr>mutexLocked := mutexLocked (threads s' t)\<rparr>)
     \<and> (\<forall>k. mutexes s' k = (mutexes s k)\<lparr>mnext := mnext (mutexes s' k)\<rparr>)
     \<and> (\<forall>k. k \<notin> set ms \<longrightarrow> mutexes s' k = mutexes s k)
     \<and> chain s' (mutexLocked (threads s' t)) (remove1 m ms)"
proof -
  obtain as bs where sp: "ms = as @ m # bs" "m \<notin> set as" using m by (metis split_list_first)
  show ?thesis
  proof (cases "as = []")
    case True
    let ?s = "upd_thread t (\<lambda>th. th\<lparr>mutexLocked := mnext (mutexes s m)\<rparr>) s"
    have "chain ?s (mnext (mutexes s m)) bs = chain s (mnext (mutexes s m)) bs" by (rule chain_cong) simp
    moreover have "removeFromLockedList m t s = Some (Inr ?s)" using c True sp by (simp add: removeFromLockedList_def)
    ultimately show ?thesis using c True sp by (intro exI[of _ ?s]) (auto simp: upd_thread_def)
  next
    case False
    let ?s = "upd_mutex (last as) (\<lambda>x. x\<lparr>mnext := mnext (mutexes s m)\<rparr>) s"
    have "mutexLocked (threads s t) \<noteq> Some m" using c sp False by (cases as) auto
    then have "removeFromLockedList m t s = Some (Inr ?s)"
      using remove_walk_chain[of s _ as m bs] c sp False by (simp add: removeFromLockedList_def)
    moreover have "chain ?s (mutexLocked (threads ?s t)) (remove1 m ms)"
      using chain_unlink[of s _ as m bs] c sp False by (simp add: remove1_split)
    moreover have "last as \<in> set ms" using sp(1) False by simp
    ultimately show ?thesis by (intro exI[of _ ?s]) (auto simp: upd_mutex_def)
  qed
qed

lemma PKfront_max:
  assumes "wq_inv n key q" "wq_items q \<noteq> []"
  shows "\<exists>f. PKfront q = Inr f \<and> f \<in> set (wq_items q) \<and> (\<forall>w \<in> set (wq_items q). key w \<le> key f)"
proof -
  obtain q' where q: "q = Some q'" using assms(2) by (cases q) (auto simp: wq_items_def)
  then have i: "pq_inv n key q'" "pq_items q' \<noteq> []" using assms by (simp_all add: wq_inv_def wq_items_def)
  then obtain f fs where f: "pq_items q' = f # fs" by (cases "pq_items q'") auto
  then have "pq_front q' = Some f" by (simp add: pq_front_items)
  moreover have "key w \<le> key f" if "w \<in> set (pq_items q')" for w
    using pq.front_most_urgent[OF i(1) \<open>pq_front q' = Some f\<close> that] by (cases "w = f") auto
  moreover have "f \<in> set (pq_items q')" using f by (simp del: set_pq_items)
  ultimately show ?thesis using q by (simp add: PKfront_def wq_items_def del: set_pq_items)
qed

lemma PKempty_items: "PKempty q \<longleftrightarrow> wq_items q = []"
  by (auto simp: PKempty_def wq_items_def pq_empty_items split: option.splits)

lemma inherit_walk_spec:
  assumes "chain s p ms" "\<And>m. wq_inv n (prio s) (mqueue (mutexes s m))"
  shows "\<exists>pr'. inherit_walk p pr s = Some (Inr pr') \<and> pr \<le> pr'
     \<and> (\<forall>m \<in> set ms. \<forall>w \<in> set (queued s m). prio s w \<le> pr')
     \<and> (pr' = pr \<or> (\<exists>m \<in> set ms. \<exists>w \<in> set (queued s m). prio s w = pr'))"
  using assms(1)
proof (induction ms arbitrary: p pr)
  case Nil
  then show ?case by (subst inherit_walk.simps) simp
next
  case (Cons m ms)
  then have c: "p = Some m" "chain s (mnext (mutexes s m)) ms" by auto
  show ?case
  proof (cases "queued s m = []")
    case True
    then have "inherit_walk p pr s = inherit_walk (mnext (mutexes s m)) pr s"
      using c(1) by (subst inherit_walk.simps) (simp add: PKempty_items queued_def)
    then show ?thesis using Cons.IH[OF c(2), of pr] True by auto
  next
    case False
    then obtain f where f: "PKfront (mqueue (mutexes s m)) = Inr f" "f \<in> set (queued s m)"
        "\<forall>w \<in> set (queued s m). prio s w \<le> prio s f"
      using PKfront_max[OF assms(2), of m] by (auto simp: queued_def)
    have e: "inherit_walk p pr s = inherit_walk (mnext (mutexes s m)) (if pr < prio s f then prio s f else pr) s"
      using c(1) f(1) False by (subst inherit_walk.simps) (simp add: PKempty_items queued_def)
    obtain pr' where "inherit_walk p pr s = Some (Inr pr')" "max pr (prio s f) \<le> pr'"
        "\<forall>m \<in> set ms. \<forall>w \<in> set (queued s m). prio s w \<le> pr'"
        "pr' = max pr (prio s f) \<or> (\<exists>m \<in> set ms. \<exists>w \<in> set (queued s m). prio s w = pr')"
      using Cons.IH[OF c(2), of "if pr < prio s f then prio s f else pr"] unfolding e
      by (auto simp: max_def split: if_splits)
    moreover from this(2) f(3) have "pr \<le> pr'" "\<forall>w \<in> set (queued s m). prio s w \<le> pr'" by fastforce+
    moreover from calculation(4) f(2) have "pr' = pr \<or> (\<exists>m' \<in> set (m # ms). \<exists>w \<in> set (queued s m'). prio s w = pr')"
      by (auto simp: max_def split: if_splits)
    ultimately show ?thesis by (intro exI[of _ pr']) simp
  qed
qed

section \<open>Releasing a mutex\<close>

text \<open>Two states with the same owners and waiting threads.\<close>

definition same_owners :: "kstate \<Rightarrow> kstate \<Rightarrow> bool" where
  "same_owners s s' =
     ((\<forall>x. mutexWaiting (threads s' x) = mutexWaiting (threads s x)
          \<and> savedPriority (threads s' x) = savedPriority (threads s x) \<and> flagsOf s' x = flagsOf s x)
      \<and> (\<forall>m. mowner (mutexes s' m) = mowner (mutexes s m) \<and> mdepth (mutexes s' m) = mdepth (mutexes s m)
          \<and> mqueue (mutexes s' m) = mqueue (mutexes s m))
      \<and> known s' = known s \<and> runningThreads s' = runningThreads s \<and> idle s' = idle s)"

lemma same_ownersD:
  assumes "same_owners s s'"
  shows "mutexWaiting (threads s' x) = mutexWaiting (threads s x)"
    "savedPriority (threads s' x) = savedPriority (threads s x)" "flagsOf s' x = flagsOf s x"
    "mowner (mutexes s' m) = mowner (mutexes s m)" "mdepth (mutexes s' m) = mdepth (mutexes s m)"
    "mqueue (mutexes s' m) = mqueue (mutexes s m)" "known s' = known s" "runningThreads s' = runningThreads s"
    "queued s' = queued s" "waiters s' = waiters s" "waiting_on s' = waiting_on s" "live s' = live s"
    "idle s' = idle s"
  using assms by (simp_all add: same_owners_def queued_def waiters_def waiting_on_def live_def fun_eq_iff)

lemma same_owners_trans: "same_owners s s' \<Longrightarrow> same_owners s' s'' \<Longrightarrow> same_owners s s''"
  by (simp add: same_owners_def)

lemma struct_transfer:
  assumes st: "mutex_struct n L X s" and o: "same_owners s s'"
    and p: "\<And>m x. x \<in> set (queued s m) \<Longrightarrow> prio s' x = prio s x"
    and l: "\<And>t. chain s' (mutexLocked (threads s' t)) (L' t)" "\<And>t. distinct (L' t)"
      "\<And>t. set (L' t) \<subseteq> set (L t)"
  shows "mutex_struct n L' X s'"
proof -
  have "wq_inv n (prio s') (mqueue (mutexes s' m))" for m
    using wq_inv_cong[of "mqueue (mutexes s m)" "prio s'" "prio s" n] p[of _ m] mutex_structD(4)[OF st, of m]
    by (simp add: same_ownersD[OF o] queued_def)
  then show ?thesis using st l unfolding mutex_struct_def same_ownersD[OF o] by (meson subset_iff)
qed

lemma inherits_transfer:
  assumes "same_owners s s'" "\<And>x. x = t \<or> x \<in> waiting_on s ms \<Longrightarrow> prio s' x = prio s x"
  shows "inherits s' ms t = inherits s ms t"
  unfolding inherits_def same_ownersD[OF assms(1)] using assms(2) by (metis (no_types, lifting))

lemma mutex_inv_withD:
  assumes "mutex_inv_with n L s"
  shows "mutex_struct n L {} s" "mowner (mutexes s m) = Some t \<Longrightarrow> m \<in> set (L t)"
    "known s t \<Longrightarrow> inherits s (L t) t"
  using assms unfolding mutex_inv_with_def by blast+

lemma removed_struct:
  assumes mi: "mutex_inv_with n L s" and ow: "mowner (mutexes s m) = Some t"
  shows "\<exists>s'. removeFromLockedList m t s = Some (Inr s') \<and> same_owners s s' \<and> (\<forall>x. prio s' x = prio s x)
     \<and> s' = s\<lparr>threads := threads s', mutexes := mutexes s'\<rparr>
     \<and> mutex_struct n (L(t := remove1 m (L t))) {} s'"
proof -
  note st = mutex_inv_withD(1)[OF mi]
  have m: "m \<in> set (L t)" using mutex_inv_withD(2)[OF mi ow] .
  obtain s' where s': "removeFromLockedList m t s = Some (Inr s')" "s' = s\<lparr>threads := threads s', mutexes := mutexes s'\<rparr>"
      "threads s' = (threads s)(t := (threads s t)\<lparr>mutexLocked := mutexLocked (threads s' t)\<rparr>)"
      "\<forall>k. mutexes s' k = (mutexes s k)\<lparr>mnext := mnext (mutexes s' k)\<rparr>"
      "\<forall>k. k \<notin> set (L t) \<longrightarrow> mutexes s' k = mutexes s k"
      "chain s' (mutexLocked (threads s' t)) (remove1 m (L t))"
    using removeFromLockedList_spec[OF mutex_structD(1,2)[OF st] m] by blast
  have th: "threads s' x = (if x = t then (threads s t)\<lparr>mutexLocked := mutexLocked (threads s' t)\<rparr> else threads s x)" for x
    by (subst s'(3)) simp
  have f: "mutexWaiting (threads s' x) = mutexWaiting (threads s x)"
    "savedPriority (threads s' x) = savedPriority (threads s x)" "flagsOf s' x = flagsOf s x" "prio s' x = prio s x" for x
    by (subst th, simp)+
  have g: "mowner (mutexes s' k) = mowner (mutexes s k)" "mdepth (mutexes s' k) = mdepth (mutexes s k)"
    "mqueue (mutexes s' k) = mqueue (mutexes s k)" for k
    by (subst spec[OF s'(4), of k], simp)+
  have "known s' = known s" "runningThreads s' = runningThreads s" "idle s' = idle s"
    by (subst s'(2), simp add: known_def busy_def fun_eq_iff)+
  with f g have o: "same_owners s s'" by (simp add: same_owners_def)
  have "chain s' (mutexLocked (threads s' x)) ((L(t := remove1 m (L t))) x)" for x
  proof (cases "x = t")
    case False
    have "k \<notin> set (L t)" if "k \<in> set (L x)" for k
      using mutex_structD(3)[OF st that] mutex_structD(3)[OF st, of k t] False by auto
    then have "chain s' (mutexLocked (threads s x)) (L x) = chain s (mutexLocked (threads s x)) (L x)"
      using s'(5) by (intro chain_cong) simp
    then show ?thesis using False mutex_structD(1)[OF st, of x] th[of x] by simp
  qed (use s'(6) in simp)
  moreover have "distinct ((L(t := remove1 m (L t))) x)" "set ((L(t := remove1 m (L t))) x) \<subseteq> set (L x)" for x
    using mutex_structD(2)[OF st] by (simp_all add: set_remove1_subset)
  ultimately have "mutex_struct n (L(t := remove1 m (L t))) {} s'"
    by (intro struct_transfer[OF st o]) (simp_all only: f)
  with s'(1,2) o f show ?thesis by blast
qed

lemma sched_inv_fields:
  assumes "\<And>x. prio s' x = prio s x" "\<And>x. flagsOf s' x = flagsOf s x"
    "runningThreads s' = runningThreads s" "idle s' = idle s" "readyThreads s' = readyThreads s"
    "notReadyThreads s' = notReadyThreads s"
  shows "sched_inv n s' = sched_inv n s"
  by (simp only: sched_inv_def busy_def all_threads_def idle_home_def prio_ok_def[abs_def] assms)

lemma same_owners_prio:
  assumes "same_but_prio s s'" "mutexes s' = mutexes s"
  shows "same_owners s s'"
  using assms(2) by (simp add: same_owners_def same_but_prioD[OF assms(1)])

text \<open>The priority a thread falls back to is the one it has to have.\<close>

lemma fallback_priority:
  assumes st: "mutex_struct n L {} s" and k: "known s t" and inv: "sched_inv n s"
  shows "\<exists>pr. (if mutexLocked (threads s t) = None then Some (Inr base)
               else inheritPriorityFromLockedList t base s) = Some (Inr pr)
     \<and> base \<le> pr \<and> (\<forall>w \<in> waiting_on s (L t). prio s w \<le> pr)
     \<and> (pr = base \<or> (\<exists>w \<in> waiting_on s (L t). prio s w = pr))"
proof (cases "mutexLocked (threads s t) = None")
  case True
  then have "L t = []" using mutex_structD(1)[OF st, of t] by (cases "L t") auto
  then show ?thesis using True by (simp add: waiting_on_def)
next
  case False
  have "waiting_on s (L t) = (\<Union>m \<in> set (L t). set (queued s m))"
    using mutex_structD(5)[OF st] by (simp add: waiting_on_def)
  then show ?thesis
    using inherit_walk_spec[OF mutex_structD(1)[OF st, of t] mutex_structD(4)[OF st], of base] False
    by (auto simp: inheritPriorityFromLockedList_def)
qed

lemma pr_range:
  assumes st: "mutex_struct n L X s" and inv: "sched_inv n s"
    and b: "0 \<le> base" "base < int n" "base \<le> pr" and pr: "pr = base \<or> (\<exists>w \<in> waiting_on s ms. prio s w = pr)"
  shows "0 \<le> pr \<and> pr < int n"
proof (cases "pr = base")
  case False
  then obtain w where w: "w \<in> waiting_on s ms" "prio s w = pr" using pr by blast
  then have "live s w" using mutex_structD(8)[OF st] by (auto simp: waiting_on_def)
  then show ?thesis using live_prio[OF inv] w(2) by blast
qed (use b in simp)

text \<open>Setting the priority of a thread that does not wait for a mutex to what it has to inherit.\<close>

lemma settle_priority:
  assumes inv: "sched_inv n s" and st: "mutex_struct n L {} s" and l: "live s t"
    and nw: "mutexWaiting (threads s t) = None"
    and oth: "\<And>x. known s x \<Longrightarrow> x \<noteq> t \<Longrightarrow> inherits s (L x) x"
    and pr: "savedPriority (threads s t) \<le> pr" "\<forall>w \<in> waiting_on s (L t). prio s w \<le> pr"
      "pr = savedPriority (threads s t) \<or> (\<exists>w \<in> waiting_on s (L t). prio s w = pr)"
  shows "\<exists>s'. (if pr \<noteq> prio s t then IRQsetPriority ck t pr s else Inr s) = Inr s' \<and> sched_inv n s'
     \<and> mutex_struct n L {} s' \<and> same_owners s s' \<and> (\<forall>x. prio s' x = (if x = t then pr else prio s x))
     \<and> (\<forall>x. known s x \<longrightarrow> inherits s' (L x) x)"
proof -
  have nq: "t \<notin> set (queued s m)" "t \<notin> waiting_on s ms" for m ms
    unfolding mutex_structD(5)[OF st] using nw by (simp_all add: waiters_def waiting_on_def)
  have "known s t" using l by (simp add: live_def)
  then have r: "0 \<le> pr" "pr < int n"
    using pr_range[OF st inv _ _ pr(1,3)] mutex_structD(9)[OF st] by blast+
  obtain s' where s': "(if pr \<noteq> prio s t then IRQsetPriority ck t pr s else Inr s) = Inr s'" "sched_inv n s'"
      "same_owners s s'" "\<And>x. prio s' x = (if x = t then pr else prio s x)" "same_but_prio s s'"
  proof (cases "pr = prio s t")
    case True
    then show ?thesis using that[of s] inv same_but_prio_queue(2) by (simp add: same_owners_def)
  next
    case False
    obtain s' where s': "IRQsetPriority ck t pr s = Inr s'" "sched_inv n s'" "prio s' = (prio s)(t := pr)"
      "same_but_prio s s'" "mutexes s' = mutexes s"
      using known_setPriority(1)[OF inv l r nq(1) mutex_structD(4)[OF st]] by blast
    have "prio s' x = (if x = t then pr else prio s x)" for x using fun_cong[OF s'(3), of x] by simp
    with s' False show ?thesis by (intro that[of s']) (simp_all add: same_owners_prio)
  qed
  have st': "mutex_struct n L {} s'"
    using mutex_structD(1,2)[OF st] nq(1)
    by (intro struct_transfer[OF st s'(3)]) (auto simp: s'(4) same_but_prioD(2,14)[OF s'(5)])
  have "inherits s' (L x) x" if "known s x" for x
  proof (cases "x = t")
    case True
    have "prio s' w = prio s w" if "w \<in> waiting_on s (L t)" for w using that nq(2) s'(4) by metis
    with pr True show ?thesis unfolding inherits_def same_ownersD[OF s'(3)] by (simp add: s'(4)[of t])
  next
    case False
    have "prio s' w = prio s w" if "w = x \<or> w \<in> waiting_on s (L x)" for w
      using that nq(2) s'(4) False by metis
    then show ?thesis using inherits_transfer[OF s'(3), of x "L x"] oth[OF \<open>known s x\<close> False] by blast
  qed
  with s' st' show ?thesis by blast
qed

lemma deInherit_spec:
  assumes inv: "sched_inv n s" and mi: "mutex_inv_with n L s" and ow: "mowner (mutexes s m) = Some t"
    and nw: "mutexWaiting (threads s t) = None"
  shows "\<exists>s'. deInheritPriority ck m s = Some (Inr s') \<and> sched_inv n s' \<and> same_owners s s'
     \<and> mutex_struct n (L(t := remove1 m (L t))) {} s'
     \<and> (\<forall>x. known s x \<longrightarrow> inherits s' ((L(t := remove1 m (L t))) x) x)
     \<and> (\<forall>x. x \<noteq> t \<longrightarrow> prio s' x = prio s x)"
proof -
  let ?L = "L(t := remove1 m (L t))"
  obtain s1 where s1: "removeFromLockedList m t s = Some (Inr s1)" "same_owners s s1" "\<And>x. prio s1 x = prio s x"
      "s1 = s\<lparr>threads := threads s1, mutexes := mutexes s1\<rparr>" "mutex_struct n ?L {} s1"
    using removed_struct[OF mi ow] by blast
  note f = same_ownersD[OF s1(2)]
  have r: "idle s1 = idle s" "readyThreads s1 = readyThreads s" "notReadyThreads s1 = notReadyThreads s"
    by (subst s1(4), simp)+
  have inv1: "sched_inv n s1" using inv sched_inv_fields[of s1 s n] by (simp only: s1(3) f r)
  have l: "live s t" using mutex_structD(7)[OF mutex_inv_withD(1)[OF mi] ow] .
  then have k: "known s t" by (simp add: live_def)
  obtain pr where pr: "(if mutexLocked (threads s1 t) = None then Some (Inr (savedPriority (threads s1 t)))
               else inheritPriorityFromLockedList t (savedPriority (threads s1 t)) s1) = Some (Inr pr)"
     "savedPriority (threads s1 t) \<le> pr" "\<forall>w \<in> waiting_on s1 (?L t). prio s1 w \<le> pr"
     "pr = savedPriority (threads s1 t) \<or> (\<exists>w \<in> waiting_on s1 (?L t). prio s1 w = pr)"
    using fallback_priority[OF s1(5) _ inv1, of t "savedPriority (threads s1 t)"] k f(7) by auto
  have oth: "inherits s1 (?L x) x" if "known s1 x" "x \<noteq> t" for x
    using inherits_transfer[OF s1(2,3), where t = x and ms = "L x"] mutex_inv_withD(3)[OF mi] that f(7) by simp
  obtain s' where s': "(if pr \<noteq> prio s1 t then IRQsetPriority ck t pr s1 else Inr s1) = Inr s'" "sched_inv n s'"
      "mutex_struct n ?L {} s'" "same_owners s1 s'" "\<forall>x. prio s' x = (if x = t then pr else prio s1 x)"
      "\<forall>x. known s1 x \<longrightarrow> inherits s' (?L x) x"
    using settle_priority[OF inv1 s1(5) _ _ oth pr(2-4), of ck] l nw f(1,12) by metis
  have "deInheritPriority ck m s = Some (Inr s')"
    using s'(1) pr(1) by (simp add: deInheritPriority_def ow s1(1) split: if_splits)
  with s' s1(3) same_owners_trans[OF s1(2) s'(4)] f(7) show ?thesis by (intro exI[of _ s']) simp
qed

section \<open>Passing a mutex on\<close>

lemma sched_inv_pending [simp]:
  "sched_inv n (s\<lparr>schedRequests := r\<rparr>) = sched_inv n s" "sched_inv n (s\<lparr>pendingWakeup := b\<rparr>) = sched_inv n s"
  "sched_inv n (s\<lparr>holdingCore := h\<rparr>) = sched_inv n s"
  by (intro sched_inv_cong; simp)+

lemma known_pending [simp]:
  "known (s\<lparr>schedRequests := r\<rparr>) = known s" "known (s\<lparr>pendingWakeup := b\<rparr>) = known s"
  "known (s\<lparr>holdingCore := h\<rparr>) = known s"
  by (simp_all add: known_def busy_def fun_eq_iff)

lemma PKwakeup_spec:
  assumes "sched_inv n s" "known s t"
  shows "\<exists>s'. PKwakeup cfg core t s = Inr s' \<and> sched_inv n s' \<and> mutexes s' = mutexes s
     \<and> threads s' = (threads s)(t := (threads s t)\<lparr>tflags := flagsOf s t AND NOT WAIT\<rparr>)
     \<and> known s' = known s \<and> runningThreads s' = runningThreads s \<and> idle s' = idle s
     \<and> NUM_PRIORITIES s' = NUM_PRIORITIES s"
proof -
  obtain s1 where s1: "IRQclearWait t s = Inr s1" "sched_inv n s1" "mset (all_threads s1) = mset (all_threads s)"
      "threads s1 = (threads s)(t := (threads s t)\<lparr>tflags := flagsOf s t AND NOT WAIT\<rparr>)"
      "s1 = s\<lparr>threads := threads s1, readyThreads := readyThreads s1, notReadyThreads := notReadyThreads s1\<rparr>"
    using clear_flag_inv[OF assms, of WAIT] by (auto simp: IRQclearWait_def)
  have r: "runningThreads s1 = runningThreads s" "idle s1 = idle s" "mutexes s1 = mutexes s" by (subst s1(5), simp)+
  have "mset (concat (readyThreads s1) @ notReadyThreads s1 @ busy s1) = mset (concat (readyThreads s) @ notReadyThreads s @ busy s)"
    using s1(3) by (simp add: all_threads_def r)
  then have "known s1 = known s" by (drule_tac mset_eq_setD) (simp add: known_def fun_eq_iff set_eq_iff del: set_concat)
  moreover have "NUM_PRIORITIES s1 = NUM_PRIORITIES s"
    using sched_invD(12)[OF s1(2)] sched_invD(12)[OF assms(1)] by (simp add: NUM_PRIORITIES_def)
  moreover obtain need s2 where c: "IRQconsiderRescheduling cfg FromFirst t core s1 = (need, s2)" by fastforce
  moreover have "s2 = s1 \<or> (\<exists>i. s2 = IRQinvokeSchedulerOnCore i s1)"
    using c by (cases rule: consider_cases) auto
  ultimately show ?thesis using s1 r
    by (auto simp: PKwakeup_def NUM_PRIORITIES_def IRQinvokeSchedulerOnCore_def)
qed

text \<open>What is left of a mutex between the two halves of \<^verbatim>\<open>unlock\<close>: it still names its owner
  but is in nobody's list.\<close>

definition released :: "nat \<Rightarrow> (tid \<Rightarrow> mid list) \<Rightarrow> mid \<Rightarrow> kstate \<Rightarrow> bool" where
  "released n L m s =
     (mutex_struct n L {} s \<and> (\<forall>x. m \<notin> set (L x))
      \<and> (\<forall>k x. mowner (mutexes s k) = Some x \<longrightarrow> k \<noteq> m \<longrightarrow> k \<in> set (L x))
      \<and> (\<forall>x. known s x \<longrightarrow> inherits s (L x) x))"

lemma releasedD:
  assumes "released n L m s"
  shows "mutex_struct n L {} s" "m \<notin> set (L x)" "mowner (mutexes s k) = Some x \<Longrightarrow> k \<noteq> m \<Longrightarrow> k \<in> set (L x)"
    "known s x \<Longrightarrow> inherits s (L x) x"
  using assms unfolding released_def by blast+

text \<open>Making \<open>w\<close> the owner of a released mutex.\<close>

lemma pass_on_struct:
  assumes rel: "released n L m s" and k: "known s' = known s" and lw: "live s w"
    and w: "w \<in> waiters s m \<or> mutexWaiting (threads s w) = None" and le: "\<forall>v \<in> waiters s m. prio s v \<le> prio s w"
    and q: "wq_inv n (prio s) q" "set (wq_items q) = waiters s m - {w}" and f: "isZombie f = isZombie (flagsOf s w)"
    and th: "threads s' = (threads s)(w := (threads s w)\<lparr>tflags := f, mutexWaiting := None, mutexLocked := Some m\<rparr>)"
    and mu: "mutexes s' = (mutexes s)(m := (mutexes s m)\<lparr>mowner := Some w, mqueue := q, mnext := mutexLocked (threads s w)\<rparr>)"
  shows "mutex_inv_with n (L(w := m # L w)) s'"
proof -
  note st = releasedD(1)[OF rel]
  have wo: "w \<notin> waiters s k" if "k \<noteq> m" for k using w that by (auto simp: waiters_def)
  have wt: "waiters s' k = waiters s k - {w}" for k by (auto simp: waiters_def th)
  have qd: "queued s' j = (if j = m then wq_items q else queued s j)" for j by (simp add: queued_def mu)
  have lv: "live s' = live s" using f by (simp add: live_def k th fun_eq_iff)
  have pr: "prio s' x = prio s x" for x by (simp add: th)
  have nm: "m \<notin> set (L x)" for x using releasedD(2)[OF rel] .
  have ch: "chain s' p (L x) = chain s p (L x)" for p x using nm[of x] by (intro chain_cong) (auto simp: mu)
  have wl: "w \<notin> waiters s k" if "k \<in> set (L x)" for k x using nm[of x] wo[of k] that by blast
  have on: "waiting_on s' (L x) = waiting_on s (L x)" "w \<notin> waiting_on s (L x)" for x
    using wl[of _ x] by (auto simp: waiting_on_def wt)
  have "mutex_struct n (L(w := m # L w)) {} s'"
    unfolding mutex_struct_def
  proof (intro conjI allI impI)
    fix x
    show "chain s' (mutexLocked (threads s' x)) ((L(w := m # L w)) x)"
      using mutex_structD(1)[OF st, of x] by (auto simp: th mu ch)
    show "distinct ((L(w := m # L w)) x)" using mutex_structD(2)[OF st] nm by simp
  next
    fix x j assume "j \<in> set ((L(w := m # L w)) x)"
    then show "mowner (mutexes s' j) = Some x"
      using mutex_structD(3)[OF st, of j x] nm[of x] by (auto simp: mu split: if_splits)
  next
    fix j
    show "wq_inv n (prio s') (mqueue (mutexes s' j))"
      unfolding pr using mutex_structD(4)[OF st, of j] q(1) by (auto simp: mu)
    show "set (queued s' j) = waiters s' j - {}"
      using mutex_structD(5)[OF st, of j] q(2) wo[of j] by (cases "j = m") (auto simp: qd wt)
    assume "waiters s' j \<noteq> {}"
    then show "mowner (mutexes s' j) \<noteq> None" using mutex_structD(6)[OF st, of j] by (auto simp: mu wt)
  next
    fix j x assume "mowner (mutexes s' j) = Some x \<or> x \<in> waiters s' j"
    then show "live s' x"
      using mutex_structD(7)[OF st, of j x] mutex_structD(8)[OF st, of x j] lw
      unfolding lv by (auto simp: mu wt split: if_splits)
  next
    fix x assume "known s' x"
    then show "0 \<le> savedPriority (threads s' x)" "savedPriority (threads s' x) < int n"
      using mutex_structD(9)[OF st, of x] by (auto simp: th k)
  qed
  moreover have "j \<in> set ((L(w := m # L w)) x)" if "mowner (mutexes s' j) = Some x" for j x
    using that releasedD(3)[OF rel, of j x] by (auto simp: mu split: if_splits)
  moreover have "inherits s' ((L(w := m # L w)) x) x" if "known s' x" for x
  proof (cases "x = w")
    case False
    then show ?thesis using releasedD(4)[OF rel, of x] that by (simp add: k inherits_def on pr) (simp add: th)
  next
    case True
    have e: "waiting_on s' (m # L w) = (waiters s m - {w}) \<union> waiting_on s (L w)"
      using on(1)[of w] by (simp add: waiting_on_def wt)
    have "inherits s (L w) w" using releasedD(4)[OF rel, of w] that True k by simp
    then show ?thesis using True le unfolding inherits_def e pr by (auto simp: th e)
  qed
  ultimately show ?thesis by (simp add: mutex_inv_with_def)
qed

lemma chooseNextOwner_spec:
  assumes inv: "sched_inv n s" and rel: "released n L m s"
  shows "\<exists>s' L'. chooseNextOwner cfg core m s = Inr s' \<and> sched_inv n s' \<and> mutex_inv_with n L' s'
     \<and> mowner (mutexes s' m) = hd_opt (queued s m) \<and> mdepth (mutexes s' m) = mdepth (mutexes s m)
     \<and> (\<forall>x. prio s' x = prio s x \<and> savedPriority (threads s' x) = savedPriority (threads s x))
     \<and> runningThreads s' = runningThreads s \<and> known s' = known s \<and> idle s' = idle s
     \<and> (\<forall>x. mutexWaiting (threads s' x) = (if hd_opt (queued s m) = Some x then None else mutexWaiting (threads s x)))
     \<and> (\<forall>w. hd_opt (queued s m) = Some w \<longrightarrow> \<not> isWaiting (flagsOf s' w))"
proof (cases "queued s m")
  case Nil
  note st = releasedD(1)[OF rel]
  obtain q' where q': "PKwakeOne cfg core (mqueue (mutexes s m)) s = Inr (None, q', s)" "wq_inv n (prio s) q'" "wq_items q' = []"
  proof (cases "mqueue (mutexes s m)")
    case None
    then show ?thesis by (intro that[of None]) (simp_all add: PKwakeOne_def wq_inv_def wq_items_def)
  next
    case (Some q)
    then have i: "pq_inv n (prio s) q" "pq_items q = []"
      using mutex_structD(4)[OF st, of m] Nil by (simp_all add: wq_inv_def queued_def wq_items_def)
    obtain o1 q'' where d: "pq_dequeueOne q = (o1, q'')" by fastforce
    with pq.deq_law[OF i(1)] i(2) have "o1 = None" "pq_items q'' = []" "pq_inv n (prio s) q''" by auto
    then show ?thesis using Some d by (intro that[of "Some q''"]) (simp_all add: PKwakeOne_def wq_inv_def wq_items_def)
  qed
  let ?s = "upd_mutex m (\<lambda>x. x\<lparr>mowner := None, mqueue := q'\<rparr>) s"
  have nw: "waiters s m = {}" using mutex_structD(5)[OF st, of m] Nil by simp
  have ch: "chain ?s p (L x) = chain s p (L x)" for p x
    using releasedD(2)[OF rel, of x] by (intro chain_cong) auto
  have qd: "set (queued ?s j) = waiters s j" for j
    using mutex_structD(5)[OF st, of j] q'(3) nw by (simp add: queued_def)
  have own: "mowner (mutexes ?s j) \<noteq> None" if "waiters s j \<noteq> {}" for j
    using mutex_structD(6)[OF st that] nw that by (cases "j = m") auto
  have "mutex_struct n L {} ?s"
    unfolding mutex_struct_def
    using mutex_structD(1,2,3,4,7,8,9)[OF st] releasedD(2)[OF rel] q'(2) own
    by (auto simp: ch qd simp del: upd_mutex_fields(7)) (auto split: if_splits)
  moreover have "j \<in> set (L x)" if "mowner (mutexes ?s j) = Some x" for j x
    using that releasedD(3)[OF rel, of j x] by (auto split: if_splits)
  ultimately have "mutex_inv_with n L ?s" using releasedD(4)[OF rel] by (simp add: mutex_inv_with_def)
  moreover have "chooseNextOwner cfg core m s = Inr ?s" by (simp add: chooseNextOwner_def q'(1))
  ultimately show ?thesis using inv Nil by (intro exI[of _ ?s] exI[of _ L]) (simp add: fun_eq_iff)
next
  case (Cons w ws)
  note st = releasedD(1)[OF rel]
  obtain q0 where q0: "mqueue (mutexes s m) = Some q0" "pq_items q0 = w # ws" "pq_inv n (prio s) q0"
    using Cons mutex_structD(4)[OF st, of m] by (cases "mqueue (mutexes s m)") (auto simp: queued_def wq_items_def wq_inv_def)
  obtain o1 q where d: "pq_dequeueOne q0 = (o1, q)" by fastforce
  with pq.deq_law[OF q0(3)] q0(2) have q: "o1 = Some w" "pq_items q = ws" "pq_inv n (prio s) q" by auto
  have wm: "w \<in> waiters s m" using mutex_structD(5)[OF st, of m] Cons by auto
  then have kw: "known s w" and ww: "mutexWaiting (threads s w) = Some m"
    using mutex_structD(8)[OF st wm] by (simp_all add: live_def waiters_def)
  obtain s1 where s1: "PKwakeup cfg core w s = Inr s1" "sched_inv n s1" "mutexes s1 = mutexes s"
     "threads s1 = (threads s)(w := (threads s w)\<lparr>tflags := flagsOf s w AND NOT WAIT\<rparr>)"
     "known s1 = known s" "runningThreads s1 = runningThreads s" "idle s1 = idle s"
    using PKwakeup_spec[OF inv kw, of cfg core] by blast
  let ?s = "addToLockedList m w (upd_thread w (\<lambda>th. th\<lparr>mutexWaiting := None\<rparr>)
              (upd_mutex m (\<lambda>x. x\<lparr>mowner := Some w, mqueue := Some q\<rparr>) s1))"
  have e: "chooseNextOwner cfg core m s = Inr ?s"
    using q0(1) d q(1) s1(1) ww by (simp add: chooseNextOwner_def PKwakeOne_def s1(4))
  have th: "threads ?s = (threads s)(w := (threads s w)\<lparr>tflags := flagsOf s w AND NOT WAIT, mutexWaiting := None, mutexLocked := Some m\<rparr>)"
    by (simp add: addToLockedList_def Let_def upd_thread_def s1(4))
  have mu: "mutexes ?s = (mutexes s)(m := (mutexes s m)\<lparr>mowner := Some w, mqueue := Some q, mnext := mutexLocked (threads s w)\<rparr>)"
    by (simp add: addToLockedList_def Let_def upd_thread_def s1(3,4))
  have k: "known ?s = known s" "runningThreads ?s = runningThreads s" "idle ?s = idle s"
    by (simp_all add: addToLockedList_def Let_def s1(5,6,7) fun_eq_iff)
  have "sched_inv n ?s" using s1(2) by (simp add: addToLockedList_def Let_def sched_inv_upd_other)
  moreover have "mutex_inv_with n (L(w := m # L w)) ?s"
  proof (rule pass_on_struct[OF rel k(1) mutex_structD(8)[OF st wm] disjI1[OF wm] _ _ _ _ th mu])
    have "\<forall>v \<in> set ws. prio s v \<le> prio s w" "distinct (w # ws)"
      using pq.inv_order[OF q0(3)] q0(2) by auto
    then show "\<forall>v \<in> waiters s m. prio s v \<le> prio s w" "set (wq_items (Some q)) = waiters s m - {w}"
      using mutex_structD(5)[OF st, of m] Cons q(2) by (auto simp: wq_items_def)
  qed (simp_all add: wq_inv_def q(3) isZombie_clear)
  ultimately show ?thesis using e Cons k
    by (intro exI[of _ ?s] exI[of _ "L(w := m # L w)"]) (simp add: th mu flag_bits flag_update_bits)
qed

section \<open>The operations\<close>

lemma mutex_inv_depth [simp]:
  "mutex_inv_with n L (upd_mutex m (\<lambda>x. x\<lparr>mdepth := g x\<rparr>) s) = mutex_inv_with n L s"
proof -
  let ?s = "upd_mutex m (\<lambda>x. x\<lparr>mdepth := g x\<rparr>) s"
  have "mowner (mutexes ?s k) = mowner (mutexes s k)" "mqueue (mutexes ?s k) = mqueue (mutexes s k)"
    "mnext (mutexes ?s k) = mnext (mutexes s k)" for k by simp_all
  moreover have "chain ?s = chain s" by (intro ext chain_cong) simp
  moreover have "queued ?s = queued s" by (simp add: fun_eq_iff queued_def)
  ultimately show ?thesis unfolding mutex_inv_with_def mutex_struct_def by simp
qed

lemma to_depth_eq: "to_depth m d s = (if mdepth (mutexes s m) \<ge> 0 then upd_mutex m (\<lambda>x. x\<lparr>mdepth := int d\<rparr>) s else s)"
  by (simp add: to_depth_def upd_mutex_def)

lemma to_depth_inv [simp]:
  "mutex_inv_with n L (to_depth m d s) = mutex_inv_with n L s" "sched_inv n (to_depth m d s) = sched_inv n s"
  "threads (to_depth m d s) = threads s" "known (to_depth m d s) = known s"
  "runningThreads (to_depth m d s) = runningThreads s"
  "mowner (mutexes (to_depth m d s) k) = mowner (mutexes s k)" "mqueue (mutexes (to_depth m d s) k) = mqueue (mutexes s k)"
  by (simp_all add: to_depth_eq fun_eq_iff)

lemma release_spec:
  assumes inv: "sched_inv n s" and mi: "mutex_inv_with n L s" and ow: "mowner (mutexes s m) = Some t"
    and nw: "mutexWaiting (threads s t) = None"
  shows "\<exists>s' L'. run_bind (deInheritPriority ck m s) (\<lambda>s1. Some (chooseNextOwner cfg core m s1)) = Some (Inr s')
     \<and> sched_inv n s' \<and> mutex_inv_with n L' s' \<and> mowner (mutexes s' m) = hd_opt (queued s m)
     \<and> mdepth (mutexes s' m) = mdepth (mutexes s m) \<and> runningThreads s' = runningThreads s \<and> known s' = known s
     \<and> idle s' = idle s \<and> (\<forall>x. savedPriority (threads s' x) = savedPriority (threads s x))
     \<and> mutexWaiting (threads s' t) = None
     \<and> (\<forall>w. hd_opt (queued s m) = Some w \<longrightarrow> \<not> isWaiting (flagsOf s' w))"
proof -
  let ?L = "L(t := remove1 m (L t))"
  note st = mutex_inv_withD(1)[OF mi]
  obtain s1 where s1: "deInheritPriority ck m s = Some (Inr s1)" "sched_inv n s1" "same_owners s s1"
      "mutex_struct n ?L {} s1" "\<And>x. known s x \<Longrightarrow> inherits s1 (?L x) x"
    using deInherit_spec[OF inv mi ow nw, of ck] by blast
  note f = same_ownersD[OF s1(3)]
  have "released n ?L m s1"
    unfolding released_def
  proof (intro conjI allI impI)
    show "m \<notin> set (?L x)" for x
      using mutex_structD(2)[OF st, of t] mutex_structD(3)[OF st, of m x] ow by auto
    show "k \<in> set (?L x)" if "mowner (mutexes s1 k) = Some x" "k \<noteq> m" for k x
      using mutex_inv_withD(2)[OF mi, of k x] that by (auto simp: f)
    show "inherits s1 (?L x) x" if "known s1 x" for x using s1(5) that by (simp only: f)
  qed (rule s1(4))
  from chooseNextOwner_spec[OF s1(2) this, of cfg core]
  obtain s' L' where s': "chooseNextOwner cfg core m s1 = Inr s'" "sched_inv n s'" "mutex_inv_with n L' s'"
     "mowner (mutexes s' m) = hd_opt (queued s1 m)" "mdepth (mutexes s' m) = mdepth (mutexes s1 m)"
     "runningThreads s' = runningThreads s1" "known s' = known s1"
     "idle s' = idle s1" "\<forall>x. savedPriority (threads s' x) = savedPriority (threads s1 x)"
     "\<forall>x. mutexWaiting (threads s' x) = (if hd_opt (queued s1 m) = Some x then None else mutexWaiting (threads s1 x))"
     "\<forall>w. hd_opt (queued s1 m) = Some w \<longrightarrow> \<not> isWaiting (flagsOf s' w)" by blast
  moreover have "mutexWaiting (threads s' t) = None" using s'(10) nw by (simp add: f)
  ultimately show ?thesis using s1(1) by (intro exI[of _ s'] exI[of _ L']) (simp add: f)
qed

lemma Mutex_unlock_spec:
  assumes inv: "sched_inv n s" and mi: "mutex_inv n s" and ow: "mowner (mutexes s m) = Some (runningThreads s ! core)"
    and nw: "mutexWaiting (threads s (runningThreads s ! core)) = None"
  shows "\<exists>s'. Mutex_unlock cfg core m s = Some (Inr s') \<and> sched_inv n s' \<and> mutex_inv n s'
     \<and> (if mdepth (mutexes s m) > 0
        then mowner (mutexes s' m) = mowner (mutexes s m) \<and> mdepth (mutexes s' m) = mdepth (mutexes s m) - 1
        else mowner (mutexes s' m) = hd_opt (queued s m)
          \<and> (\<forall>w. hd_opt (queued s m) = Some w \<longrightarrow> \<not> isWaiting (flagsOf s' w)))"
proof -
  obtain L where L: "mutex_inv_with n L s" using mi by (auto simp: mutex_inv_def)
  show ?thesis
  proof (cases "mdepth (mutexes s m) > 0")
    case True
    then show ?thesis using inv L ow by (auto simp: Mutex_unlock_def mutex_inv_def)
  next
    case False
    then show ?thesis
      using release_spec[OF inv L ow nw, of "extraChecks cfg" cfg core] ow by (auto simp: Mutex_unlock_def mutex_inv_def)
  qed
qed

lemma PKunlockAll_spec:
  assumes inv: "sched_inv n s" and mi: "mutex_inv n s" and ow: "mowner (mutexes s m) = Some (runningThreads s ! core)"
    and nw: "mutexWaiting (threads s (runningThreads s ! core)) = None"
  shows "\<exists>s'. Mutex_PKunlockAllDepthLevels cfg core m s = Some (Inr (nat (mdepth (mutexes s m)), s'))
     \<and> sched_inv n s' \<and> mutex_inv n s' \<and> mowner (mutexes s' m) = hd_opt (queued s m)
     \<and> (mdepth (mutexes s' m) \<ge> 0 \<longleftrightarrow> mdepth (mutexes s m) \<ge> 0)
     \<and> runningThreads s' = runningThreads s \<and> known s' = known s \<and> idle s' = idle s
     \<and> (\<forall>x. savedPriority (threads s' x) = savedPriority (threads s x))
     \<and> mutexWaiting (threads s' (runningThreads s ! core)) = None"
proof -
  obtain L where L: "mutex_inv_with n L s" using mi by (auto simp: mutex_inv_def)
  from release_spec[OF inv L ow nw, of "extraChecks cfg" cfg core]
  obtain s1 s' L' where s1: "deInheritPriority (extraChecks cfg) m s = Some (Inr s1)" "chooseNextOwner cfg core m s1 = Inr s'"
     "sched_inv n s'" "mutex_inv_with n L' s'" "mowner (mutexes s' m) = hd_opt (queued s m)"
     "mdepth (mutexes s' m) = mdepth (mutexes s m)" "runningThreads s' = runningThreads s" "known s' = known s"
     "idle s' = idle s" "\<forall>x. savedPriority (threads s' x) = savedPriority (threads s x)"
     "mutexWaiting (threads s' (runningThreads s ! core)) = None"
    by (auto simp: run_bind_def split: option.splits sum.splits)
  then show ?thesis using ow
    by (cases "mdepth (mutexes s m) < 0") (auto simp: Mutex_PKunlockAllDepthLevels_def mutex_inv_def fun_eq_iff)
qed

lemma acquire_free:
  assumes inv: "sched_inv n s" and mi: "mutex_inv_with n L s" and ow: "mowner (mutexes s m) = None"
    and l: "live s t" and nw: "mutexWaiting (threads s t) = None"
  shows "mutex_inv_with n (L(t := m # L t)) (addToLockedList m t (upd_mutex m (\<lambda>x. x\<lparr>mowner := Some t\<rparr>) s))"
    "sched_inv n (addToLockedList m t (upd_mutex m (\<lambda>x. x\<lparr>mowner := Some t\<rparr>) s))"
proof -
  let ?s = "addToLockedList m t (upd_mutex m (\<lambda>x. x\<lparr>mowner := Some t\<rparr>) s)"
  note st = mutex_inv_withD(1)[OF mi]
  have w: "waiters s m = {}" using mutex_structD(6)[OF st, of m] ow by blast
  have "released n L m s"
    using st mutex_structD(3)[OF st, of m] ow mutex_inv_withD(2,3)[OF mi] by (fastforce simp: released_def)
  then show "mutex_inv_with n (L(t := m # L t)) ?s"
  proof (rule pass_on_struct[where q = "mqueue (mutexes s m)" and f = "flagsOf s t"])
    show "set (wq_items (mqueue (mutexes s m))) = waiters s m - {t}"
      using mutex_structD(5)[OF st, of m] w by (simp add: queued_def)
    have "(threads s t)\<lparr>mutexLocked := Some m\<rparr> = (threads s t)\<lparr>tflags := flagsOf s t, mutexWaiting := None, mutexLocked := Some m\<rparr>"
      using nw by simp
    then show "threads ?s = (threads s)(t := (threads s t)\<lparr>tflags := flagsOf s t, mutexWaiting := None, mutexLocked := Some m\<rparr>)"
      by (simp add: addToLockedList_def Let_def upd_thread_def)
  qed (use l nw w mutex_structD(4)[OF st] in \<open>simp_all add: addToLockedList_def Let_def fun_eq_iff\<close>)
  show "sched_inv n ?s" using inv by (simp add: addToLockedList_def Let_def sched_inv_upd_other)
qed

lemma PKrestart_fields [simp]:
  "threads (PKrestartKernelAndWait_begin core s) = (threads s)(runningThreads s ! core :=
     (threads s (runningThreads s ! core))\<lparr>tflags := flagsOf s (runningThreads s ! core) OR WAIT\<rparr>)"
  "mutexes (PKrestartKernelAndWait_begin core s) = mutexes s"
  "known (PKrestartKernelAndWait_begin core s) = known s"
  "runningThreads (PKrestartKernelAndWait_begin core s) = runningThreads s"
  by (simp_all add: PKrestartKernelAndWait_begin_def IRQsetWait_def set_flag_def irqDisabledFastUnlock_def
      IRQinvokeScheduler_def IRQinvokeSchedulerOnCore_def upd_thread_def known_def busy_def fun_eq_iff)

lemma set_flags_mutex_inv:
  assumes mi: "mutex_inv_with n L s" and th: "\<And>x. threads s' x = (threads s x)\<lparr>tflags := flagsOf s' x\<rparr>"
    and z: "\<And>x. isZombie (flagsOf s' x) = isZombie (flagsOf s x)" and mu: "mutexes s' = mutexes s" and k: "known s' = known s"
  shows "mutex_inv_with n L s'"
proof -
  have f: "mutexWaiting (threads s' x) = mutexWaiting (threads s x)" "mutexLocked (threads s' x) = mutexLocked (threads s x)"
    "savedPriority (threads s' x) = savedPriority (threads s x)" "prio s' x = prio s x" for x
    by (subst th, simp)+
  have g: "waiters s' = waiters s" "live s' = live s" "queued s' = queued s" "waiting_on s' = waiting_on s"
    by (simp_all add: waiters_def live_def queued_def waiting_on_def f z mu k fun_eq_iff)
  have ch: "chain s' = chain s" by (intro ext chain_cong) (simp add: mu)
  show ?thesis using mi unfolding mutex_inv_with_def mutex_struct_def inherits_def f g ch mu k .
qed

lemma begin_wait_inv:
  assumes "sched_inv n s" "mutex_inv_with n L s" "runningThreads s ! core \<in> set (busy s)"
  shows "sched_inv n (PKrestartKernelAndWait_begin core s)" "mutex_inv_with n L (PKrestartKernelAndWait_begin core s)"
proof -
  show "sched_inv n (PKrestartKernelAndWait_begin core s)"
    using set_flag_running_inv[OF assms(1,3), of WAIT]
    by (simp add: PKrestartKernelAndWait_begin_def IRQsetWait_def irqDisabledFastUnlock_def)
  show "mutex_inv_with n L (PKrestartKernelAndWait_begin core s)"
    by (rule set_flags_mutex_inv[OF assms(2)]) (simp_all add: flag_bits flag_update_bits)
qed

text \<open>A contended lock: the new waiter is queued, the owner and the threads that hold it up have
  inherited its priority.\<close>

lemma lock_contended_spec:
  assumes inv: "sched_inv n s" and mi: "mutex_inv_with n L s" and ow: "mowner (mutexes s m) = Some t"
    and cur: "runningThreads s ! core = c" "c \<in> set (busy s)" "t \<noteq> c" "live s c" "mutexWaiting (threads s c) = None"
  shows "\<exists>s'. lock_contended cfg core m s = Some (Inr (False, s')) \<and> sched_inv n s' \<and> mutex_inv_with n L s'
     \<and> mutexWaiting (threads s' c) = Some m \<and> prio s' c = prio s c \<and> isWaiting (flagsOf s' c)
     \<and> mowner (mutexes s' m) = Some t \<and> prio s c \<le> prio s' t
     \<and> (\<forall>x. prio s' x = prio s x \<or> prio s x < prio s c \<and> prio s' x = prio s c)"
proof -
  note st = mutex_inv_withD(1)[OF mi] and pr = live_prio[OF inv cur(4)]
  let ?s1 = "upd_thread c (\<lambda>th. th\<lparr>mutexWaiting := Some m\<rparr>) s"
  have nwc: "c \<notin> waiters s k" for k using cur(5) by (simp add: waiters_def)
  have w1: "waiters ?s1 k = (if k = m then insert c (waiters s m) else waiters s k)" for k
    using nwc[of k] by (auto simp: waiters_def)
  have lv: "live ?s1 = live s" by (simp add: live_def fun_eq_iff)
  have p1: "prio ?s1 x = prio s x" "savedPriority (threads ?s1 x) = savedPriority (threads s x)" for x by simp_all
  have ch: "chain ?s1 = chain s" by (intro ext chain_cong) simp
  have q1: "queued ?s1 = queued s" by (simp add: queued_def fun_eq_iff)
  have inv1: "sched_inv n ?s1" using inv by (simp add: sched_inv_upd_other)
  have st1: "mutex_struct n L {c} ?s1"
    unfolding mutex_struct_def
  proof (intro conjI allI impI)
    fix x
    show "chain ?s1 (mutexLocked (threads ?s1 x)) (L x)" "distinct (L x)"
      using mutex_structD(1,2)[OF st, of x] by (auto simp: ch)
  next
    fix x k assume "k \<in> set (L x)"
    then show "mowner (mutexes ?s1 k) = Some x" using mutex_structD(3)[OF st] by simp
  next
    fix k
    show "wq_inv n (prio ?s1) (mqueue (mutexes ?s1 k))" unfolding p1 using mutex_structD(4)[OF st, of k] by simp
    show "set (queued ?s1 k) = waiters ?s1 k - {c}"
      unfolding q1 mutex_structD(5)[OF st] w1 using nwc by auto
    assume "waiters ?s1 k \<noteq> {}"
    then show "mowner (mutexes ?s1 k) \<noteq> None"
      using mutex_structD(6)[OF st, of k] ow by (auto simp: w1 split: if_splits)
  next
    fix k x assume "mowner (mutexes ?s1 k) = Some x \<or> x \<in> waiters ?s1 k"
    then show "live ?s1 x"
      using mutex_structD(7)[OF st, of k x] mutex_structD(8)[OF st, of x k] cur(4) unfolding lv
      by (auto simp: w1 split: if_splits)
  next
    fix x assume "known ?s1 x"
    then show "0 \<le> savedPriority (threads ?s1 x)" "savedPriority (threads ?s1 x) < int n"
      using mutex_structD(9)[OF st, of x] by auto
  qed
  have lt: "live s t" using mutex_structD(7)[OF st ow] .
  have on: "waiting_on ?s1 (L x) = (if x = t then insert c (waiting_on s (L x)) else waiting_on s (L x))" for x
  proof -
    have "m \<in> set (L x) \<longleftrightarrow> x = t" using mutex_structD(3)[OF st, of m x] mutex_inv_withD(2)[OF mi ow] ow by auto
    then show ?thesis by (auto simp: waiting_on_def w1 split: if_splits)
  qed
  have io: "inherits ?s1 (L x) x" if "known s x" "x \<noteq> t" for x
    using mutex_inv_withD(3)[OF mi that(1)] that(2) unfolding inherits_def p1 by (simp add: on)
  have it: "inherits s (L t) t" using mutex_inv_withD(3)[OF mi] lt by (simp add: live_def)
  then have inh: "prio ?s1 t < prio s c \<or> inherits ?s1 (L t) t" unfolding inherits_def p1 on by auto
  have le: "savedPriority (threads ?s1 t) \<le> prio ?s1 t" "\<forall>w \<in> waiting_on ?s1 (L t). prio ?s1 w \<le> max (prio ?s1 t) (prio s c)"
    "\<exists>w \<in> waiting_on ?s1 (L t). prio ?s1 w = prio s c"
    using it unfolding inherits_def p1 on by (auto simp: le_max_iff_disj)
  have own1: "k \<in> set (L x)" if "mowner (mutexes ?s1 k) = Some x" for k x
    using mutex_inv_withD(2)[OF mi, of k x] that by simp
  have l1: "live ?s1 t" using lt lv by simp
  have c1: "prio ?s1 x = prio s c" if "x \<in> {c}" for x using that by simp
  have io1: "inherits ?s1 (L x) x" if "known ?s1 x" "x \<noteq> t" for x using io[of x] that by simp
  obtain s2 where s2: "inherit_towards (extraChecks cfg) t (prio s c) ?s1 = Some (Inr s2)" "sched_inv n s2"
     "mutex_struct n L {c} s2" "same_but_prio ?s1 s2" "\<And>x. known ?s1 x \<Longrightarrow> inherits s2 (L x) x"
     "\<And>x. prio s2 x = prio ?s1 x \<or> prio ?s1 x < prio s c \<and> prio s2 x = prio s c"
    using inherit_towards_correct[OF inv1 st1 own1 l1 conjunct1[OF pr] conjunct2[OF pr] c1 io1 le inh] by blast
  note f = same_but_prioD[OF s2(4)]
  have pc: "prio s2 c = prio s c" using s2(6)[of c] by auto
  have n2: "NUM_PRIORITIES s2 = n" using sched_invD(12)[OF s2(2)] by (simp add: NUM_PRIORITIES_def)
  have "c \<notin> set (queued s2 m)" using mutex_structD(5)[OF s2(3)] by simp
  then obtain q where q: "PKenqueue ConsiderInheritedPriority c s2 (mqueue (mutexes s2 m)) = Inr (Some q)"
      "pq_inv n (prio s2) q" "set (pq_items q) = insert c (set (queued s2 m))"
    using PKenqueue_spec[of n ConsiderInheritedPriority s2 "mqueue (mutexes s2 m)" c] mutex_structD(4)[OF s2(3), of m] n2 pr pc
    by (auto simp: queued_def simp del: set_pq_items)
  let ?s3 = "upd_mutex m (\<lambda>x. x\<lparr>mqueue := Some q\<rparr>) s2"
  have s3: "same_but_prio ?s1 ?s3" by (rule same_but_prio_queue(1)[OF s2(4)])
  have st3: "mutex_struct n L {} ?s3"
  proof (rule struct_frame[OF st1 s3])
    show "wq_inv n (prio ?s3) (mqueue (mutexes ?s3 k))" for k
      using mutex_structD(4)[OF s2(3), of k] q(2) by (simp add: wq_inv_def)
    show "set (queued ?s3 k) = waiters ?s1 k - {}" for k
    proof (cases "k = m")
      case True
      have "set (queued ?s3 m) = insert c (waiters ?s1 m - {c})"
        using mutex_structD(5)[OF s2(3), of m] q(3) by (simp only: queued_upd_mutex wq_items_def f(11) option.case refl if_True)
      moreover have "c \<in> waiters ?s1 m" by (simp add: w1)
      ultimately show ?thesis unfolding True by (simp only: insert_Diff Diff_empty)
    next
      case False
      have "set (queued ?s3 k) = waiters ?s1 k - {c}"
        using mutex_structD(5)[OF s2(3), of k] False by (simp only: queued_upd_mutex f(11) if_False)
      moreover have "c \<notin> waiters ?s1 k" using False nwc[of k] by (simp add: w1)
      ultimately show ?thesis by (simp only: Diff_triv Int_insert_right Int_empty_right if_False Diff_empty)
    qed
  qed
  have mi3: "mutex_inv_with n L ?s3"
    using st3 s2(5) mutex_inv_withD(2)[OF mi] by (simp add: mutex_inv_with_def f(5,7))
  have r3: "runningThreads ?s3 = runningThreads s" using f(6) by simp
  have "runningThreads ?s3 ! core \<in> set (busy ?s3)" using cur(1,2) r3 f(15) by (simp add: busy_def)
  note b = begin_wait_inv[OF _ mi3 this]
  have e: "lock_contended cfg core m s = Some (Inr (False, PKrestartKernelAndWait_begin core ?s3))"
    using cur(1,5) s2(1) q(1) ow by (simp add: lock_contended_def inheritPriorityTowardsMutexOwner_def Let_def)
  have "prio s c \<le> prio s2 t"
    using s2(5)[of t] lt on[of t] pc unfolding inherits_def f(12) by (auto simp: live_def)
  moreover have "prio s2 x = prio s x \<or> prio s x < prio s c \<and> prio s2 x = prio s c" for x
    using s2(6)[of x] by (simp only: p1)
  ultimately show ?thesis
    using b s2(2) e r3 cur pc ow f(1)[of c] f(7)[of m]
    by (intro exI[of _ "PKrestartKernelAndWait_begin core ?s3"]) (auto simp: flag_bits flag_update_bits)
qed

lemma Mutex_lock_spec:
  assumes inv: "sched_inv n s" and mi: "mutex_inv n s"
    and cur: "runningThreads s ! core = c" "c \<in> set (busy s)" "live s c" "mutexWaiting (threads s c) = None"
    and nd: "mowner (mutexes s m) = Some c \<longrightarrow> mdepth (mutexes s m) \<ge> 0"
  shows "\<exists>got s'. Mutex_lock cfg core m s = Some (Inr (got, s')) \<and> sched_inv n s' \<and> mutex_inv n s'
     \<and> (got \<longleftrightarrow> mowner (mutexes s m) = None \<or> mowner (mutexes s m) = Some c)
     \<and> (got \<longleftrightarrow> mowner (mutexes s' m) = Some c)
     \<and> (\<not> got \<longrightarrow> mutexWaiting (threads s' c) = Some m \<and> isWaiting (flagsOf s' c) \<and> prio s' c = prio s c)"
proof -
  obtain L where L: "mutex_inv_with n L s" using mi by (auto simp: mutex_inv_def)
  consider "mowner (mutexes s m) = None" | "mowner (mutexes s m) = Some c"
    | t where "mowner (mutexes s m) = Some t" "t \<noteq> c" by (cases "mowner (mutexes s m)") auto
  then show ?thesis
  proof cases
    case 1
    then show ?thesis using acquire_free[OF inv L 1 cur(3,4)] cur(1)
      by (auto simp: Mutex_lock_def mutex_inv_def addToLockedList_def Let_def)
  next
    case 2
    then show ?thesis using inv L nd cur(1) by (auto simp: Mutex_lock_def mutex_inv_def)
  next
    case 3
    from lock_contended_spec[OF inv L 3(1) cur(1,2) 3(2) cur(3,4), of cfg]
    obtain s' where "lock_contended cfg core m s = Some (Inr (False, s'))" "sched_inv n s'" "mutex_inv_with n L s'"
      "mutexWaiting (threads s' c) = Some m" "isWaiting (flagsOf s' c)" "prio s' c = prio s c" "mowner (mutexes s' m) = Some t"
      by blast
    then show ?thesis using 3 cur(1) by (auto simp: Mutex_lock_def mutex_inv_def)
  qed
qed

lemma Mutex_tryLock_spec:
  assumes inv: "sched_inv n s" and mi: "mutex_inv n s"
    and cur: "runningThreads s ! core = c" "live s c" "mutexWaiting (threads s c) = None"
    and r: "Mutex_tryLock core m s = (got, s')"
  shows "sched_inv n s' \<and> mutex_inv n s' \<and> (got \<longrightarrow> mowner (mutexes s' m) = Some c) \<and> (\<not> got \<longrightarrow> s' = s)"
proof -
  obtain L where L: "mutex_inv_with n L s" using mi by (auto simp: mutex_inv_def)
  let ?f = "addToLockedList m c (upd_mutex m (\<lambda>x. x\<lparr>mowner := Some c\<rparr>) s)"
  let ?d = "upd_mutex m (\<lambda>x. x\<lparr>mdepth := mdepth x + 1\<rparr>) s"
  have d: "mutex_inv n ?d" using L by (auto simp: mutex_inv_def)
  consider "mowner (mutexes s m) = None" "got" "s' = ?f" | "mowner (mutexes s m) = Some c" "got" "s' = ?d" | "\<not> got" "s' = s"
    using r cur(1) by (auto simp: Mutex_tryLock_def Let_def split: if_splits)
  then show ?thesis
  proof cases
    case 1
    then show ?thesis using acquire_free[OF inv L 1(1) cur(2,3)]
      by (auto simp: mutex_inv_def addToLockedList_def Let_def)
  qed (use inv mi d in simp_all)
qed

lemma saved_struct:
  assumes mi: "mutex_inv_with n L s" and p: "0 \<le> p" "p < int n"
  shows "mutex_struct n L {} (upd_thread c (\<lambda>th. th\<lparr>savedPriority := p\<rparr>) s)"
    and "x \<noteq> c \<Longrightarrow> known s x \<Longrightarrow> inherits (upd_thread c (\<lambda>th. th\<lparr>savedPriority := p\<rparr>) s) (L x) x"
proof -
  let ?s = "upd_thread c (\<lambda>th. th\<lparr>savedPriority := p\<rparr>) s"
  note st = mutex_inv_withD(1)[OF mi]
  have f: "mutexWaiting (threads ?s x) = mutexWaiting (threads s x)" "mutexLocked (threads ?s x) = mutexLocked (threads s x)"
    "prio ?s x = prio s x" "flagsOf ?s x = flagsOf s x" for x by simp_all
  have g: "waiters ?s = waiters s" "live ?s = live s" "queued ?s = queued s" "waiting_on ?s = waiting_on s" "mutexes ?s = mutexes s"
    by (simp_all only: waiters_def[abs_def] live_def[abs_def] queued_def[abs_def] waiting_on_def[abs_def] f
        known_upd_thread upd_thread_mutexes)
  have ch: "chain ?s = chain s" by (intro ext chain_cong) simp
  have sv: "0 \<le> savedPriority (threads ?s x) \<and> savedPriority (threads ?s x) < int n" if "known s x" for x
    using mutex_structD(9)[OF st that] p by simp
  show "mutex_struct n L {} ?s"
    using st sv unfolding mutex_struct_def f g ch known_upd_thread by blast
  show "inherits ?s (L x) x" if "x \<noteq> c" "known s x" for x
    using mutex_inv_withD(3)[OF mi that(2)] that(1) unfolding inherits_def f g by simp
qed

lemma setPriority_spec:
  assumes inv: "sched_inv n s" and mi: "mutex_inv n s"
    and cur: "runningThreads s ! core = c" "live s c" "mutexWaiting (threads s c) = None"
  shows "\<exists>s'. setPriority cfg core p s = Some (Inr s') \<and> sched_inv n s' \<and> mutex_inv n s'
     \<and> savedPriority (threads s' c) = (if validate_priority s p then p else savedPriority (threads s c))"
proof (cases "validate_priority s p")
  case False
  then show ?thesis using inv mi cur by (simp add: setPriority_def)
next
  case True
  then have p: "0 \<le> p" "p < int n"
    using sched_invD(12)[OF inv] by (simp_all add: validate_priority_def NUM_PRIORITIES_def)
  obtain L where L: "mutex_inv_with n L s" using mi by (auto simp: mutex_inv_def)
  have k: "known s c" using cur(2) by (simp add: live_def)
  let ?s1 = "upd_thread c (\<lambda>th. th\<lparr>savedPriority := p\<rparr>) s"
  have inv1: "sched_inv n ?s1" using inv by (simp add: sched_inv_upd_other)
  obtain pr where pr: "(if mutexLocked (threads ?s1 c) = None then Some (Inr p)
               else inheritPriorityFromLockedList c p ?s1) = Some (Inr pr)"
     "savedPriority (threads ?s1 c) \<le> pr" "\<forall>w \<in> waiting_on ?s1 (L c). prio ?s1 w \<le> pr"
     "pr = savedPriority (threads ?s1 c) \<or> (\<exists>w \<in> waiting_on ?s1 (L c). prio ?s1 w = pr)"
    using fallback_priority[OF saved_struct(1)[OF L p] _ inv1, of c p] k by auto
  have l1: "live ?s1 c" "mutexWaiting (threads ?s1 c) = None" using cur(2,3) by (simp_all add: live_def)
  obtain s' where s': "(if pr \<noteq> prio ?s1 c then IRQsetPriority (extraChecks cfg) c pr ?s1 else Inr ?s1) = Inr s'" "sched_inv n s'"
      "mutex_struct n L {} s'" "same_owners ?s1 s'" "\<forall>x. known ?s1 x \<longrightarrow> inherits s' (L x) x"
    using settle_priority[OF inv1 saved_struct(1)[OF L p] l1 _ pr(2-4), of "extraChecks cfg"] saved_struct(2)[OF L p] by auto
  have mi': "mutex_inv n s'"
    using s'(3,5) mutex_inv_withD(2)[OF L] same_ownersD(4,7)[OF s'(4)]
    by (auto simp: mutex_inv_def mutex_inv_with_def)
  have sv: "savedPriority (threads s' c) = p" using same_ownersD(2)[OF s'(4)] by simp
  have same: "?s1 = s" if "savedPriority (threads s c) = p" using that by (simp add: upd_thread_def fun_upd_idem)
  have pend: "mutex_inv n (s'\<lparr>pendingWakeup := b\<rparr>)" for b
    using mi' set_flags_mutex_inv[of n _ s' "s'\<lparr>pendingWakeup := b\<rparr>"] by (auto simp: mutex_inv_def)
  show ?thesis
  proof (cases "mutexLocked (threads s c) = None")
    case True
    then have "L c = []" using mutex_structD(1)[OF mutex_inv_withD(1)[OF L], of c] by (cases "L c") auto
    then have "prio s c = savedPriority (threads s c)"
      using mutex_inv_withD(3)[OF L k] by (simp add: inherits_def waiting_on_def)
    then show ?thesis
      using pr(1) s'(1,2) mi' sv same pend True \<open>validate_priority s p\<close> cur(1)
      by (cases "p = prio s c") (auto simp: setPriority_def set_actual_priority_def Let_def split: if_splits)
  next
    case False
    show ?thesis
    proof (cases "savedPriority (threads s c) = p")
      case True
      then show ?thesis using inv mi False cur(1) by (auto simp: setPriority_def Let_def)
    next
      case nsv: False
      then show ?thesis
        using pr(1) s'(1,2) mi' sv pend False \<open>validate_priority s p\<close> cur(1)
        by (cases "pr = prio s c") (auto simp: setPriority_def set_actual_priority_def Let_def split: if_splits)
    qed
  qed
qed

lemma mutex_inv_holding:
  assumes "mutex_inv n s"
  shows "mutex_inv n (s\<lparr>holdingCore := h\<rparr>)"
proof -
  obtain L where "mutex_inv_with n L s" using assms by (auto simp: mutex_inv_def)
  then have "mutex_inv_with n L (s\<lparr>holdingCore := h\<rparr>)" by (rule set_flags_mutex_inv) simp_all
  then show ?thesis by (auto simp: mutex_inv_def)
qed

lemma to_depth_commute:
  "addToLockedList m c (to_depth m d s) = to_depth m d (addToLockedList m c s)"
  by (intro kstate.equality)
     (auto simp: addToLockedList_def to_depth_def Let_def upd_thread_def fun_eq_iff upd_mutex_def intro: mutex.equality)

lemma PKlockToDepth_spec:
  assumes inv: "sched_inv n s" and mi: "mutex_inv n s"
    and cur: "runningThreads s ! core = c" "c \<in> set (busy s)" "live s c" "mutexWaiting (threads s c) = None"
    and no: "mowner (mutexes s m) \<noteq> Some c"
  shows "\<exists>got s'. Mutex_PKlockToDepth cfg core d m s = Some (Inr (got, s')) \<and> sched_inv n s' \<and> mutex_inv n s'
     \<and> (got \<longleftrightarrow> mowner (mutexes s m) = None) \<and> (got \<longrightarrow> mowner (mutexes s' m) = Some c
     \<and> (mdepth (mutexes s m) \<ge> 0 \<longrightarrow> mdepth (mutexes s' m) = int d))
     \<and> (\<not> got \<longrightarrow> mutexWaiting (threads s' c) = Some m \<and> isWaiting (flagsOf s' c))"
proof -
  obtain L where L: "mutex_inv_with n L s" using mi by (auto simp: mutex_inv_def)
  show ?thesis
  proof (cases "mowner (mutexes s m)")
    case None
    let ?a = "addToLockedList m c (upd_mutex m (\<lambda>x. x\<lparr>mowner := Some c\<rparr>) s)"
    have e: "Mutex_PKlockToDepth cfg core d m s = Some (Inr (True, to_depth m d ?a))"
      using None cur(1) by (simp add: Mutex_PKlockToDepth_def to_depth_commute)
    have o: "mowner (mutexes (to_depth m d ?a) m) = Some c" "mdepth (mutexes ?a m) = mdepth (mutexes s m)"
      by (simp_all add: addToLockedList_def Let_def)
    have dp: "mdepth (mutexes s m) \<ge> 0 \<longrightarrow> mdepth (mutexes (to_depth m d ?a) m) = int d"
      using o(2) by (simp add: to_depth_def)
    have "mutex_inv n (to_depth m d ?a)" "sched_inv n (to_depth m d ?a)"
      using acquire_free[OF inv L None cur(3,4)] by (auto simp: mutex_inv_def)
    with e o(1) dp None show ?thesis by (intro exI[of _ True] exI[of _ "to_depth m d ?a"]) simp
  next
    case (Some t)
    from lock_contended_spec[OF inv L Some cur(1,2) _ cur(3,4), of cfg]
    obtain s' where "lock_contended cfg core m s = Some (Inr (False, s'))" "sched_inv n s'" "mutex_inv_with n L s'"
      "mutexWaiting (threads s' c) = Some m" "isWaiting (flagsOf s' c)"
      using no Some by blast
    then show ?thesis using Some no cur(1) by (auto simp: Mutex_PKlockToDepth_def mutex_inv_def)
  qed
qed

text \<open>What the invariant says in terms of owners and waiting threads.\<close>

definition inheritance :: "kstate \<Rightarrow> bool" where
  "inheritance s = (\<forall>t. known s t \<longrightarrow> prio s t = Max (insert (savedPriority (threads s t))
     (prio s ` {w. \<exists>m. mowner (mutexes s m) = Some t \<and> mutexWaiting (threads s w) = Some m})))"

lemma mutex_inv_inheritance:
  assumes "mutex_inv n s"
  shows "inheritance s"
  unfolding inheritance_def
proof (intro allI impI)
  fix t assume k: "known s t"
  obtain L where L: "mutex_inv_with n L s" using assms by (auto simp: mutex_inv_def)
  note st = mutex_inv_withD(1)[OF L]
  have "set (L t) = {m. mowner (mutexes s m) = Some t}"
    using mutex_structD(3)[OF st, of _ t] mutex_inv_withD(2)[OF L, of _ t] by blast
  then have e: "waiting_on s (L t) = {w. \<exists>m. mowner (mutexes s m) = Some t \<and> mutexWaiting (threads s w) = Some m}"
    by (auto simp: waiting_on_def waiters_def)
  have "waiting_on s (L t) \<subseteq> {x. known s x}" using mutex_structD(8)[OF st] by (auto simp: waiting_on_def live_def)
  then have "finite (waiting_on s (L t))" using finite_known finite_subset by blast
  then show "prio s t = Max (insert (savedPriority (threads s t))
     (prio s ` {w. \<exists>m. mowner (mutexes s m) = Some t \<and> mutexWaiting (threads s w) = Some m}))"
    using inherits_Max[OF mutex_inv_withD(3)[OF L k]] unfolding e by blast
qed

section \<open>Properties\<close>

text \<open>C2. Priority inheritance. From every state of the invariants in which the calling thread runs
  and waits for nothing, \<^verbatim>\<open>Mutex::lock\<close> (unless the thread deadlocks with itself),
  \<^verbatim>\<open>tryLock\<close>, \<^verbatim>\<open>unlock\<close> by the owner and \<^verbatim>\<open>Thread::setPriority\<close>
  end without an error and keep the invariants; and in every state of the invariant the priority of
  each thread is the maximum of the one it was given and those of all threads that wait for a mutex it
  owns, through any chain of mutexes.\<close>

theorem mutex_priority_inheritance:
  assumes inv: "sched_inv n s" "mutex_inv n s"
    and cur: "runningThreads s ! core = c" "c \<in> set (busy s)" "live s c" "mutexWaiting (threads s c) = None"
  shows "inheritance s
    \<and> (\<not> (mowner (mutexes s m) = Some c \<and> mdepth (mutexes s m) < 0) \<longrightarrow>
         (\<exists>got s'. Mutex_lock cfg core m s = Some (Inr (got, s')) \<and> sched_inv n s' \<and> mutex_inv n s' \<and> inheritance s'))
    \<and> (\<exists>got s'. Mutex_tryLock core m s = (got, s') \<and> sched_inv n s' \<and> mutex_inv n s' \<and> inheritance s')
    \<and> (mowner (mutexes s m) = Some c \<longrightarrow>
         (\<exists>s'. Mutex_unlock cfg core m s = Some (Inr s') \<and> sched_inv n s' \<and> mutex_inv n s' \<and> inheritance s'))
    \<and> (\<exists>s'. setPriority cfg core p s = Some (Inr s') \<and> sched_inv n s' \<and> mutex_inv n s' \<and> inheritance s')"
proof (intro conjI impI)
  show "inheritance s" by (rule mutex_inv_inheritance[OF inv(2)])
  show "\<exists>got s'. Mutex_lock cfg core m s = Some (Inr (got, s')) \<and> sched_inv n s' \<and> mutex_inv n s' \<and> inheritance s'"
    if nd: "\<not> (mowner (mutexes s m) = Some c \<and> mdepth (mutexes s m) < 0)"
  proof -
    have "mowner (mutexes s m) = Some c \<longrightarrow> mdepth (mutexes s m) \<ge> 0" using nd by auto
    from Mutex_lock_spec[OF inv cur this, of cfg] mutex_inv_inheritance show ?thesis by blast
  qed
  obtain got s' where t: "Mutex_tryLock core m s = (got, s')" by fastforce
  then show "\<exists>got s'. Mutex_tryLock core m s = (got, s') \<and> sched_inv n s' \<and> mutex_inv n s' \<and> inheritance s'"
    using Mutex_tryLock_spec[OF inv cur(1,3,4) t] mutex_inv_inheritance by blast
  show "\<exists>s'. Mutex_unlock cfg core m s = Some (Inr s') \<and> sched_inv n s' \<and> mutex_inv n s' \<and> inheritance s'"
    if "mowner (mutexes s m) = Some c"
  proof -
    have "mowner (mutexes s m) = Some (runningThreads s ! core)" "mutexWaiting (threads s (runningThreads s ! core)) = None"
      using that cur(1,4) by simp_all
    from Mutex_unlock_spec[OF inv this, of cfg] mutex_inv_inheritance show ?thesis by blast
  qed
  show "\<exists>s'. setPriority cfg core p s = Some (Inr s') \<and> sched_inv n s' \<and> mutex_inv n s' \<and> inheritance s'"
    using setPriority_spec[OF inv cur(1,3,4), of cfg p] mutex_inv_inheritance by blast
qed

text \<open>Thread 1 runs with priority 3; thread 2 owns mutex 0 and waits for mutex 1, which thread 3
  owns; both have priority 1.\<close>

definition demo_mutexes :: kstate where
  "demo_mutexes = (demo_state (\<lambda>t.
       if t = 0 then demo_thread (-1) 1 0
       else if t = 1 then demo_thread 3 1 0
       else if t = 2 then (demo_thread 1 1 WAIT)\<lparr>mutexLocked := Some 0, mutexWaiting := Some 1\<rparr>
       else (demo_thread 1 1 0)\<lparr>mutexLocked := (if t = 3 then Some 1 else None)\<rparr>)
     [1] [[], [3], [], []] [2])\<lparr>mutexes := (\<lambda>m.
       if m = 0 then \<lparr>mowner = Some 2, mdepth = -1, mqueue = None, mnext = None\<rparr>
       else if m = 1 then \<lparr>mowner = Some 3, mdepth = -1, mqueue = Some [[], [2], [], []], mnext = None\<rparr>
       else \<lparr>mowner = None, mdepth = -1, mqueue = None, mnext = None\<rparr>)\<rparr>"

lemma wait_bits: "isWaiting WAIT" "\<not> isReady WAIT" "\<not> isZombie WAIT" "isReady 0" "\<not> isZombie 0"
  by code_simp+

lemma demo_mutexes_sched: "sched_inv 4 demo_mutexes"
  by (simp add: sched_inv_def demo_mutexes_def demo_state_def demo_thread_def pq_inv_def
      all_threads_def busy_def idle_home_def prio_ok_def upt_rec numeral_eq_Suc All_less_Suc wait_bits)

lemma demo_mutexes_known: "known demo_mutexes t \<longleftrightarrow> t = 1 \<or> t = 2 \<or> t = 3"
  by (auto simp: known_def demo_mutexes_def demo_state_def busy_def)

lemma demo_mutexes_waiters: "waiters demo_mutexes m = (if m = 1 then {2} else {})"
  by (auto simp: waiters_def demo_mutexes_def demo_state_def demo_thread_def)

lemma demo_mutexes_inv: "mutex_inv 4 demo_mutexes"
  unfolding mutex_inv_def mutex_inv_with_def mutex_struct_def
proof (intro exI[of _ "\<lambda>t. if t = 2 then [0] else if t = 3 then [1] else []"] conjI allI impI)
  show "set (queued demo_mutexes m) = waiters demo_mutexes m - {}" for m
    unfolding demo_mutexes_waiters by (simp add: queued_def wq_items_def demo_mutexes_def demo_state_def pq_items_def)
  show "mowner (mutexes demo_mutexes m) \<noteq> None" if "waiters demo_mutexes m \<noteq> {}" for m
    using that unfolding demo_mutexes_waiters by (auto simp: demo_mutexes_def demo_state_def split: if_splits)
  show "live demo_mutexes t" if "mowner (mutexes demo_mutexes m) = Some t \<or> t \<in> waiters demo_mutexes m" for m t
    using that unfolding demo_mutexes_waiters live_def demo_mutexes_known
    by (auto simp: demo_mutexes_def demo_state_def demo_thread_def wait_bits split: if_splits)
  show "0 \<le> savedPriority (threads demo_mutexes t)" "savedPriority (threads demo_mutexes t) < int 4"
    if "known demo_mutexes t" for t
    using that unfolding demo_mutexes_known by (auto simp: demo_mutexes_def demo_state_def demo_thread_def)
  show "inherits demo_mutexes (if t = 2 then [0] else if t = 3 then [1] else []) t" if "known demo_mutexes t" for t
    using that unfolding demo_mutexes_known inherits_def waiting_on_def demo_mutexes_waiters
    by (auto simp: demo_mutexes_def demo_state_def demo_thread_def)
qed (auto simp: demo_mutexes_known demo_mutexes_def demo_state_def demo_thread_def wq_inv_def pq_inv_def
    numeral_eq_Suc All_less_Suc split: if_splits)

theorem mutex_priority_inheritance_witness:
  "\<exists>got s'. Mutex_lock (demo_cfg False) 0 0 demo_mutexes = Some (Inr (got, s')) \<and> inheritance s'"
proof -
  have "runningThreads demo_mutexes ! 0 = 1" "1 \<in> set (busy demo_mutexes)" "live demo_mutexes 1"
    "mutexWaiting (threads demo_mutexes 1) = None" "mowner (mutexes demo_mutexes 0) \<noteq> Some 1"
    unfolding live_def demo_mutexes_known
    by (simp_all add: demo_mutexes_def demo_state_def demo_thread_def busy_def wait_bits)
  then show ?thesis
    using mutex_priority_inheritance[OF demo_mutexes_sched demo_mutexes_inv, of 0 1 0 "demo_cfg False" 0] by blast
qed

lemma queued_hd:
  assumes "mutex_inv n s"
  shows "case hd_opt (queued s m) of
      None \<Rightarrow> waiters s m = {}
    | Some w \<Rightarrow> w \<in> waiters s m \<and> (\<forall>v \<in> waiters s m. prio s v \<le> prio s w)"
proof -
  obtain L where L: "mutex_inv_with n L s" using assms by (auto simp: mutex_inv_def)
  note st = mutex_inv_withD(1)[OF L]
  show ?thesis
  proof (cases "queued s m")
    case Nil
    then show ?thesis using mutex_structD(5)[OF st, of m] by simp
  next
    case (Cons w ws)
    then obtain f where f: "PKfront (mqueue (mutexes s m)) = Inr f" "\<forall>v \<in> set (queued s m). prio s v \<le> prio s f"
      using PKfront_max[OF mutex_structD(4)[OF st, of m]] by (auto simp: queued_def)
    have "f = w" using f(1) Cons
      by (auto simp: PKfront_def queued_def wq_items_def pq_front_items split: option.splits)
    then show ?thesis using f(2) Cons mutex_structD(5)[OF st, of m] by auto
  qed
qed

text \<open>C10. Mutual exclusion and hand over. A thread gets the mutex from \<^verbatim>\<open>lock\<close> exactly if it was
  free or its own, otherwise it is blocked as a waiter of the mutex; an unlock at the outermost level
  makes the waiting thread of the highest priority the owner and clears its wait flag, or leaves the
  mutex free if nobody waits. Locking a mutex that is not recursive twice, and with checks unlocking
  a mutex one does not own, are errors.\<close>

theorem mutex_exclusion:
  assumes inv: "sched_inv n s" "mutex_inv n s"
    and cur: "runningThreads s ! core = c" "c \<in> set (busy s)" "live s c" "mutexWaiting (threads s c) = None"
  shows "(if mowner (mutexes s m) = Some c \<and> mdepth (mutexes s m) < 0
          then Mutex_lock cfg core m s = Some (Inl MUTEX_ERROR)
          else \<exists>got s'. Mutex_lock cfg core m s = Some (Inr (got, s')) \<and> (got \<longleftrightarrow> mowner (mutexes s' m) = Some c)
            \<and> (got \<longleftrightarrow> mowner (mutexes s m) = None \<or> mowner (mutexes s m) = Some c)
            \<and> (\<not> got \<longrightarrow> mutexWaiting (threads s' c) = Some m \<and> isWaiting (flagsOf s' c)))
     \<and> (if mowner (mutexes s m) \<noteq> Some c
        then extraChecks cfg \<noteq> NoChecks \<longrightarrow> Mutex_unlock cfg core m s = Some (Inl MUTEX_ERROR)
        else \<exists>s'. Mutex_unlock cfg core m s = Some (Inr s') \<and>
          (if mdepth (mutexes s m) > 0 then mowner (mutexes s' m) = Some c
           else case mowner (mutexes s' m) of
               None \<Rightarrow> waiters s m = {}
             | Some w \<Rightarrow> w \<in> waiters s m \<and> (\<forall>v \<in> waiters s m. prio s v \<le> prio s w) \<and> \<not> isWaiting (flagsOf s' w)))"
proof (intro conjI)
  show "if mowner (mutexes s m) = Some c \<and> mdepth (mutexes s m) < 0
          then Mutex_lock cfg core m s = Some (Inl MUTEX_ERROR)
          else \<exists>got s'. Mutex_lock cfg core m s = Some (Inr (got, s')) \<and> (got \<longleftrightarrow> mowner (mutexes s' m) = Some c)
            \<and> (got \<longleftrightarrow> mowner (mutexes s m) = None \<or> mowner (mutexes s m) = Some c)
            \<and> (\<not> got \<longrightarrow> mutexWaiting (threads s' c) = Some m \<and> isWaiting (flagsOf s' c))"
  proof (cases "mowner (mutexes s m) = Some c \<and> mdepth (mutexes s m) < 0")
    case True
    then show ?thesis using cur(1) by (simp add: Mutex_lock_def)
  next
    case False
    then have "mowner (mutexes s m) = Some c \<longrightarrow> mdepth (mutexes s m) \<ge> 0" by auto
    from Mutex_lock_spec[OF inv cur this, of cfg] False show ?thesis by (simp only: if_False) blast
  qed
  show "if mowner (mutexes s m) \<noteq> Some c
        then extraChecks cfg \<noteq> NoChecks \<longrightarrow> Mutex_unlock cfg core m s = Some (Inl MUTEX_ERROR)
        else \<exists>s'. Mutex_unlock cfg core m s = Some (Inr s') \<and>
          (if mdepth (mutexes s m) > 0 then mowner (mutexes s' m) = Some c
           else case mowner (mutexes s' m) of
               None \<Rightarrow> waiters s m = {}
             | Some w \<Rightarrow> w \<in> waiters s m \<and> (\<forall>v \<in> waiters s m. prio s v \<le> prio s w) \<and> \<not> isWaiting (flagsOf s' w))"
  proof (cases "mowner (mutexes s m) = Some c")
    case False
    then show ?thesis using cur(1) by (simp add: Mutex_unlock_def)
  next
    case True
    then have "mowner (mutexes s m) = Some (runningThreads s ! core)" "mutexWaiting (threads s (runningThreads s ! core)) = None"
      using cur(1,4) by simp_all
    from Mutex_unlock_spec[OF inv this, of cfg] obtain s' where s': "Mutex_unlock cfg core m s = Some (Inr s')"
      "if mdepth (mutexes s m) > 0
        then mowner (mutexes s' m) = mowner (mutexes s m) \<and> mdepth (mutexes s' m) = mdepth (mutexes s m) - 1
        else mowner (mutexes s' m) = hd_opt (queued s m)
          \<and> (\<forall>w. hd_opt (queued s m) = Some w \<longrightarrow> \<not> isWaiting (flagsOf s' w))" by blast
    have "if mdepth (mutexes s m) > 0 then mowner (mutexes s' m) = Some c
           else case mowner (mutexes s' m) of
               None \<Rightarrow> waiters s m = {}
             | Some w \<Rightarrow> w \<in> waiters s m \<and> (\<forall>v \<in> waiters s m. prio s v \<le> prio s w) \<and> \<not> isWaiting (flagsOf s' w)"
      using s'(2) True queued_hd[OF inv(2), of m] by (auto split: if_splits option.splits)
    with s'(1) True show ?thesis by auto
  qed
qed

lemma demo_mutexes_running:
  "runningThreads demo_mutexes ! 0 = 1" "1 \<in> set (busy demo_mutexes)" "live demo_mutexes 1"
  "mutexWaiting (threads demo_mutexes 1) = None" "mowner (mutexes demo_mutexes 0) = Some 2"
  unfolding live_def demo_mutexes_known
  by (simp_all add: demo_mutexes_def demo_state_def demo_thread_def busy_def wait_bits)

theorem mutex_exclusion_witness:
  "\<exists>s'. Mutex_lock (demo_cfg False) 0 0 demo_mutexes = Some (Inr (False, s')) \<and> mutexWaiting (threads s' 1) = Some 0"
  using mutex_exclusion[OF demo_mutexes_sched demo_mutexes_inv demo_mutexes_running(1-4), of 0 "demo_cfg False"]
  by (auto simp: demo_mutexes_running(5))

text \<open>C21. Waiting on a condition variable. The wait releases the mutex at all depth levels, puts the
  caller in the queue of the condition variable and blocks it, all before the kernel can run anything
  else; a signal then finds the queue not empty and wakes the waiting thread with the highest own
  priority.\<close>

theorem condition_wait:
  assumes inv: "sched_inv n s" "mutex_inv n s"
    and cur: "runningThreads s ! core = c" "c \<in> set (busy s)" "live s c" "mutexWaiting (threads s c) = None"
    and ow: "mowner (mutexes s m) = Some c"
    and cv: "wq_inv n (\<lambda>t. savedPriority (threads s t)) cv" "c \<notin> set (wq_items cv)" "\<forall>t \<in> set (wq_items cv). known s t"
  shows "\<exists>cv' s'. cond_wait_begin cfg core m cv s = Some (Inr (nat (mdepth (mutexes s m)), cv', s'))
      \<and> sched_inv n s' \<and> mutex_inv n s' \<and> mowner (mutexes s' m) \<noteq> Some c
      \<and> set (wq_items cv') = insert c (set (wq_items cv)) \<and> isWaiting (flagsOf s' c)
      \<and> (\<exists>cv'' s'' w. cond_signal cfg core' cv' s' = Inr (cv'', s'') \<and> w \<in> insert c (set (wq_items cv))
           \<and> \<not> isWaiting (flagsOf s'' w) \<and> set (wq_items cv'') = set (wq_items cv') - {w}
           \<and> (\<forall>v \<in> insert c (set (wq_items cv)). savedPriority (threads s v) \<le> savedPriority (threads s w)))"
proof -
  note kc = cur(3)[unfolded live_def]
  have sv: "0 \<le> savedPriority (threads s c) \<and> savedPriority (threads s c) < int n"
    using inv(2) kc mutex_structD(9)[of n _ "{}" s c] by (auto simp: mutex_inv_def mutex_inv_with_def)
  have o: "mowner (mutexes s m) = Some (runningThreads s ! core)" "mutexWaiting (threads s (runningThreads s ! core)) = None"
    using ow cur(1,4) by simp_all
  obtain s1 where s1: "Mutex_PKunlockAllDepthLevels cfg core m s = Some (Inr (nat (mdepth (mutexes s m)), s1))"
     "sched_inv n s1" "mutex_inv n s1" "mowner (mutexes s1 m) = hd_opt (queued s m)"
     "runningThreads s1 = runningThreads s" "known s1 = known s" "idle s1 = idle s"
     "\<And>x. savedPriority (threads s1 x) = savedPriority (threads s x)"
    using PKunlockAll_spec[OF inv o, of cfg] by blast
  have nc: "mowner (mutexes s1 m) \<noteq> Some c"
    using s1(4) queued_hd[OF inv(2), of m] cur(4) by (auto simp: waiters_def)
  have n1: "NUM_PRIORITIES s1 = n" using sched_invD(12)[OF s1(2)] by (simp add: NUM_PRIORITIES_def)
  obtain q where q: "PKenqueue IgnoreInheritedPriority c s1 cv = Inr (Some q)"
      "pq_inv n (\<lambda>t. savedPriority (threads s1 t)) q" "set (pq_items q) = insert c (set (wq_items cv))"
    using PKenqueue_spec[of n IgnoreInheritedPriority s1 cv c] cv(1,2) sv n1 by (auto simp: s1(8) simp del: set_pq_items)
  let ?s = "PKrestartKernelAndWait_begin core s1"
  have e: "cond_wait_begin cfg core m cv s = Some (Inr (nat (mdepth (mutexes s m)), Some q, ?s))"
    using s1(1,5) q(1) cur(1) by (simp add: cond_wait_begin_def)
  have busy: "runningThreads s1 ! core \<in> set (busy s1)" using cur(1,2) s1(5,7) by (simp add: busy_def)
  have inv2: "sched_inv n ?s" "mutex_inv n ?s"
    using begin_wait_inv[OF s1(2) _ busy] s1(3) by (auto simp: mutex_inv_def)
  have k2: "known ?s = known s" and sv2: "savedPriority (threads ?s x) = savedPriority (threads s x)" for x
    using s1(5,6,8) by simp_all
  obtain w ws where w: "pq_items q = w # ws" using q(3) by (cases "pq_items q") auto
  obtain o1 q' where d: "pq_dequeueOne q = (o1, q')" by fastforce
  with pq.deq_law[OF q(2)] w have q': "o1 = Some w" "pq_items q' = ws" by auto
  have kw: "known ?s w" using w q(3) cv(3) kc unfolding k2
    by (metis insertE list.set_intros(1))
  obtain s3 where s3: "PKwakeup cfg core' w ?s = Inr s3"
      "threads s3 = (threads ?s)(w := (threads ?s w)\<lparr>tflags := flagsOf ?s w AND NOT WAIT\<rparr>)"
    using PKwakeup_spec[OF inv2(1) kw, of cfg core'] by blast
  have sig: "cond_signal cfg core' (Some q) ?s = Inr (Some q', s3)"
    using d q'(1) s3(1) by (simp add: cond_signal_def PKwakeOne_def)
  have mx: "\<forall>v \<in> insert c (set (wq_items cv)). savedPriority (threads s v) \<le> savedPriority (threads s w)"
    using pq.inv_order[OF q(2)] w unfolding q(3)[symmetric] s1(8) by auto
  have dst: "set (wq_items (Some q')) = set (wq_items (Some q)) - {w}"
    using pq.inv_order[OF q(2)] w q'(2) by (auto simp: wq_items_def simp del: set_pq_items)
  have wi: "w \<in> insert c (set (wq_items cv))" using q(3) w by (metis list.set_intros(1))
  have fw: "\<not> isWaiting (flagsOf s3 w)" using s3(2) by (simp add: flag_bits flag_update_bits)
  have fc: "isWaiting (flagsOf ?s c)" using s1(5) cur(1) by (simp add: flag_bits flag_update_bits)
  have qs: "set (wq_items (Some q)) = insert c (set (wq_items cv))" using q(3) by (simp add: wq_items_def del: set_pq_items)
  have "mowner (mutexes ?s m) \<noteq> Some c" using nc by simp
  with e inv2 qs fc sig wi fw dst mx show ?thesis by blast
qed

lemma demo_mutexes_3_running:
  "sched_inv 4 (demo_mutexes\<lparr>runningThreads := [3], readyThreads := [[], [], [], [1]]\<rparr>)"
  by (simp add: sched_inv_def demo_mutexes_def demo_state_def demo_thread_def pq_inv_def
      all_threads_def busy_def idle_home_def prio_ok_def upt_rec numeral_eq_Suc All_less_Suc wait_bits)

text \<open>The same threads with thread 3, the owner of mutex 1, running.\<close>

definition demo_owner_runs :: kstate where
  "demo_owner_runs = demo_mutexes\<lparr>runningThreads := [3], readyThreads := [[], [], [], [1]]\<rparr>"

lemma demo_owner_runs_fields [simp]:
  "threads demo_owner_runs = threads demo_mutexes" "mutexes demo_owner_runs = mutexes demo_mutexes"
  by (simp_all add: demo_owner_runs_def)

lemma demo_owner_runs_inv: "sched_inv 4 demo_owner_runs" "mutex_inv 4 demo_owner_runs"
proof -
  show "sched_inv 4 demo_owner_runs" using demo_mutexes_3_running by (simp add: demo_owner_runs_def)
  have "known demo_owner_runs = known demo_mutexes"
    by (auto simp: fun_eq_iff known_def busy_def demo_owner_runs_def demo_mutexes_def demo_state_def)
  then show "mutex_inv 4 demo_owner_runs"
    using demo_mutexes_inv set_flags_mutex_inv[of 4 _ demo_mutexes demo_owner_runs] by (auto simp: mutex_inv_def)
qed

lemma demo_owner_runs_running:
  "runningThreads demo_owner_runs ! 0 = 3" "3 \<in> set (busy demo_owner_runs)" "live demo_owner_runs 3"
  "mutexWaiting (threads demo_owner_runs 3) = None" "mowner (mutexes demo_owner_runs 1) = Some 3"
  by (simp_all add: live_def known_def busy_def demo_owner_runs_def demo_mutexes_def demo_state_def demo_thread_def wait_bits)

theorem condition_wait_witness:
  "\<exists>cv' s'. cond_wait_begin (demo_cfg False) 0 1 None demo_owner_runs = Some (Inr (0, cv', s')) \<and> set (wq_items cv') = {3}"
  using condition_wait[OF demo_owner_runs_inv demo_owner_runs_running, of None "demo_cfg False" 0]
  by (auto simp: wq_inv_def wq_items_def demo_mutexes_def)

text \<open>A thread that waits on a condition variable gets the mutex back as it left it: with the
  depth the wait returned, the part after the context switch makes the thread the owner of a free
  mutex with the recursion depth it had before the wait, and takes it out of the queue of the
  condition variable however it was woken.\<close>

theorem condition_wait_restores:
  assumes inv: "sched_inv n s" "mutex_inv n s"
    and cur: "runningThreads s ! core = c" "mutexWaiting (threads s c) = None"
    and ow: "mowner (mutexes s m) = Some c" "mdepth (mutexes s m) \<ge> 0"
    and b: "cond_wait_begin cfg core m cv s = Some (Inr (d, cv1, s1))"
    and inv2: "sched_inv n s2" "mutex_inv n s2" "extraChecks cfg = Kernel \<longrightarrow> \<not> isKernelPaused core2 s2"
    and cur2: "runningThreads s2 ! core2 = c" "c \<in> set (busy s2)" "live s2 c" "mutexWaiting (threads s2 c) = None"
    and free: "mowner (mutexes s2 m) = None" "mdepth (mutexes s2 m) \<ge> 0"
    and cv2: "wq_inv n (\<lambda>t. savedPriority (threads s2 t)) cv2"
  shows "\<exists>cv' s'. cond_wait_end cfg core2 d m cv2 s2 = Some (Inr (cv', True, s')) \<and> sched_inv n s' \<and> mutex_inv n s'
      \<and> mowner (mutexes s' m) = Some c \<and> mdepth (mutexes s' m) = mdepth (mutexes s m)
      \<and> set (wq_items cv') = set (wq_items cv2) - {c}"
proof -
  have o: "mowner (mutexes s m) = Some (runningThreads s ! core)" "mutexWaiting (threads s (runningThreads s ! core)) = None"
    using ow(1) cur by simp_all
  have d: "d = nat (mdepth (mutexes s m))"
    using PKunlockAll_spec[OF inv o, of cfg] b by (auto simp: cond_wait_begin_def run_bind_def split: sum.splits)
  let ?h = "s2\<lparr>holdingCore := Some (if with_smp cfg then core2 else 0)\<rparr>"
  have l: "PKrestartKernelAndWait_end cfg core2 s2 = Inr ?h"
    using inv2(3) by (simp add: PKrestartKernelAndWait_end_def FastPauseKernelLock_lock_def ensure_def)
  have invh: "sched_inv n ?h" "mutex_inv n ?h"
    using inv2(1,2) by (simp_all add: mutex_inv_holding)
  have curh: "runningThreads ?h ! core2 = c" "c \<in> set (busy ?h)" "live ?h c" "mutexWaiting (threads ?h c) = None"
    "mowner (mutexes ?h m) \<noteq> Some c"
    using cur2 free(1) by (simp_all add: busy_def live_def)
  obtain got s' where s': "Mutex_PKlockToDepth cfg core2 d m ?h = Some (Inr (got, s'))" "sched_inv n s'" "mutex_inv n s'"
     "got \<longleftrightarrow> mowner (mutexes ?h m) = None" "got \<longrightarrow> mowner (mutexes s' m) = Some c
     \<and> (mdepth (mutexes ?h m) \<ge> 0 \<longrightarrow> mdepth (mutexes s' m) = int d)"
    using PKlockToDepth_spec[OF invh curh, of cfg d] by (elim exE conjE) (rule that; assumption)
  have "known s2 c" using cur2(3) by (simp add: live_def)
  then have sv: "0 \<le> savedPriority (threads s2 c) \<and> savedPriority (threads s2 c) < int n"
    using inv2(2) mutex_structD(9)[of n _ "{}" s2 c] by (auto simp: mutex_inv_def mutex_inv_with_def)
  obtain cv' where "PKremove IgnoreInheritedPriority c ?h cv2 = Inr cv'" "set (wq_items cv') = set (wq_items cv2) - {c}"
    using PKremove_spec[of n IgnoreInheritedPriority ?h cv2 c] cv2 sv by auto
  then show ?thesis using l s' free d ow(2) cur2(1) by (intro exI[of _ cv'] exI[of _ s']) (simp add: cond_wait_end_def)
qed

text \<open>A state where nobody locks anything, with recursive mutexes.\<close>

definition demo_free :: kstate where
  "demo_free = (demo_state (\<lambda>t. if t = 0 then demo_thread (-1) 1 0 else demo_thread 1 1 0)
     [3] [[], [1, 2], [], []] [])\<lparr>mutexes := (\<lambda>m. \<lparr>mowner = None, mdepth = 0, mqueue = None, mnext = None\<rparr>)\<rparr>"

lemma demo_free_sched: "sched_inv 4 demo_free"
  by (simp add: sched_inv_def demo_free_def demo_state_def demo_thread_def pq_inv_def
      all_threads_def busy_def idle_home_def prio_ok_def upt_rec numeral_eq_Suc All_less_Suc wait_bits)

lemma demo_free_known: "known demo_free t \<longleftrightarrow> t = 1 \<or> t = 2 \<or> t = 3"
  by (auto simp: known_def busy_def demo_free_def demo_state_def)

lemma demo_free_waiters: "waiters demo_free m = {}"
  by (simp add: waiters_def demo_free_def demo_state_def demo_thread_def)

lemma demo_free_inv: "mutex_inv 4 demo_free"
  unfolding mutex_inv_def mutex_inv_with_def mutex_struct_def inherits_def waiting_on_def demo_free_waiters demo_free_known
  by (intro exI[of _ "\<lambda>t. []"]) (auto simp: queued_def wq_items_def wq_inv_def demo_free_def demo_state_def demo_thread_def)

lemma demo_free_running:
  "runningThreads demo_free ! 0 = 3" "3 \<in> set (busy demo_free)" "live demo_free 3"
  "mutexWaiting (threads demo_free 3) = None" "mowner (mutexes demo_free 1) = None" "0 \<le> mdepth (mutexes demo_free 1)"
  by (simp_all add: live_def known_def busy_def demo_free_def demo_state_def demo_thread_def wait_bits)

definition demo_deep :: kstate where
  "demo_deep = upd_mutex 1 (\<lambda>x. x\<lparr>mdepth := 2\<rparr>) demo_owner_runs"

theorem condition_wait_restores_witness:
  "\<exists>d cv1 s1 cv' s'. cond_wait_begin (demo_cfg False) 0 1 None demo_deep = Some (Inr (d, cv1, s1))
     \<and> cond_wait_end (demo_cfg False) 0 d 1 None demo_free = Some (Inr (cv', True, s'))
     \<and> mowner (mutexes s' 1) = Some 3 \<and> mdepth (mutexes s' 1) = 2"
proof -
  have inv: "sched_inv 4 demo_deep" "mutex_inv 4 demo_deep"
    using demo_owner_runs_inv by (auto simp: demo_deep_def mutex_inv_def)
  have cur: "runningThreads demo_deep ! 0 = 3" "mutexWaiting (threads demo_deep 3) = None"
    "mowner (mutexes demo_deep 1) = Some 3" "0 \<le> mdepth (mutexes demo_deep 1)"
    using demo_owner_runs_running by (simp_all add: demo_deep_def)
  have o: "mowner (mutexes demo_deep 1) = Some (runningThreads demo_deep ! 0)"
    "mutexWaiting (threads demo_deep (runningThreads demo_deep ! 0)) = None" using cur by simp_all
  obtain s1 where s1: "Mutex_PKunlockAllDepthLevels (demo_cfg False) 0 1 demo_deep = Some (Inr (nat 2, s1))"
      "sched_inv 4 s1" "runningThreads s1 = runningThreads demo_deep" "\<And>x. savedPriority (threads s1 x) = savedPriority (threads demo_deep x)"
    using PKunlockAll_spec[OF inv o, of "demo_cfg False"] by (auto simp: demo_deep_def)
  have n1: "NUM_PRIORITIES s1 = 4" using sched_invD(12)[OF s1(2)] by (simp add: NUM_PRIORITIES_def)
  have sv: "savedPriority (threads s1 3) = 1"
    using s1(4)[of 3] by (simp add: demo_deep_def demo_mutexes_def demo_state_def demo_thread_def)
  obtain q where "PKenqueue IgnoreInheritedPriority 3 s1 None = Inr (Some q)"
    using PKenqueue_spec[of 4 IgnoreInheritedPriority s1 None 3] n1 sv by (auto simp: wq_inv_def wq_items_def)
  then have b: "cond_wait_begin (demo_cfg False) 0 1 None demo_deep = Some (Inr (nat 2, Some q, PKrestartKernelAndWait_begin 0 s1))"
    using s1(1,3) cur(1) by (simp add: cond_wait_begin_def)
  have "\<exists>cv' s'. cond_wait_end (demo_cfg False) 0 (nat 2) 1 None demo_free = Some (Inr (cv', True, s')) \<and> sched_inv 4 s' \<and> mutex_inv 4 s'
      \<and> mowner (mutexes s' 1) = Some 3 \<and> mdepth (mutexes s' 1) = mdepth (mutexes demo_deep 1)
      \<and> set (wq_items cv') = set (wq_items None) - {3}"
    by (rule condition_wait_restores[OF inv cur b demo_free_sched demo_free_inv _ demo_free_running])
       (simp_all add: demo_cfg_def wq_inv_def)
  then show ?thesis using b by (auto simp: demo_deep_def)
qed

end
