(* ===== verification/Sync_Semaphore.thy ===== *)
theory Sync_Semaphore
  imports Thread_Ops
begin

text \<open>
  \<^verbatim>\<open>class Semaphore\<close> of \<^verbatim>\<open>kernel/sync.h\<close> and \<^verbatim>\<open>kernel/sync.cpp\<close>.

  The counter is a 32 bit word. A \<^verbatim>\<open>WaitToken\<close> on the stack of a waiting thread is a
  number; the thread pointer in the token, which doubles as the flag that the wait is over, is the
  value of \<open>stok\<close>. The operations on the semaphore are separated from the wakeup of the thread
  they return, which the kernel operations of theory Thread_Ops perform.
\<close>

type_synonym token = nat

record Semaphore =
  semCount :: "32 word"
  fifo :: "token list"
  stok :: "token \<Rightarrow> tid option"

definition Semaphore_new :: "32 word \<Rightarrow> Semaphore" where
  "Semaphore_new initialCount = \<lparr>semCount = initialCount, fifo = [], stok = (\<lambda>_. None)\<rparr>"

section \<open>The operations\<close>

text \<open>The part of \<^verbatim>\<open>IRQsignal\<close> on the semaphore, with the thread to wake.\<close>

definition sem_signal :: "Semaphore \<Rightarrow> (tid option \<times> Semaphore) result" where
  "sem_signal sem = (case fifo sem of
      [] \<Rightarrow> Inr (None, sem\<lparr>semCount := semCount sem + 1\<rparr>)
    | cd # rest \<Rightarrow> (case stok sem cd of
          None \<Rightarrow> Inl NullDereference
        | Some t \<Rightarrow> Inr (Some t, sem\<lparr>stok := (stok sem)(cd := None), fifo := rest\<rparr>)))"

definition IRQsignal :: "config \<Rightarrow> nat \<Rightarrow> Semaphore \<Rightarrow> kstate \<Rightarrow> (Semaphore \<times> kstate) result" where
  "IRQsignal cfg core sem s = rbind (sem_signal sem) (\<lambda>(wk, sem1). case wk of
      None \<Rightarrow> Inr (sem1, s)
    | Some t \<Rightarrow> rbind (IRQwakeup cfg core t s) (\<lambda>s1. Inr (sem1, s1)))"

text \<open>The start of a wait: True if it returns at once, otherwise the token is in the queue.\<close>

definition sem_enter :: "tid \<Rightarrow> token \<Rightarrow> Semaphore \<Rightarrow> bool \<times> Semaphore" where
  "sem_enter cur tok sem =
     (if semCount sem > 0 then (True, sem\<lparr>semCount := semCount sem - 1\<rparr>)
      else (False, sem\<lparr>stok := (stok sem)(tok := Some cur), fifo := fifo sem @ [tok]\<rparr>))"

definition sem_wait_begin :: "nat \<Rightarrow> token \<Rightarrow> Semaphore \<Rightarrow> kstate \<Rightarrow> bool \<times> Semaphore \<times> kstate" where
  "sem_wait_begin core tok sem s =
     (let (got, sem1) = sem_enter (runningThreads s ! core) tok sem
      in if got then (True, sem1, s) else (False, sem1, thread_wait_begin core s))"

text \<open>One turn of the loop after a context switch.\<close>

definition sem_wait_resume :: "nat \<Rightarrow> token \<Rightarrow> Semaphore \<Rightarrow> kstate \<Rightarrow> bool \<times> kstate" where
  "sem_wait_resume core tok sem s =
     (if stok sem tok = None then (True, s) else (False, thread_wait_begin core s))"

definition sem_timedWait_begin :: "config \<Rightarrow> nat \<Rightarrow> token \<Rightarrow> int \<Rightarrow> Semaphore \<Rightarrow> kstate
    \<Rightarrow> (TimedWaitResult option \<times> Semaphore \<times> kstate) result" where
  "sem_timedWait_begin cfg core tok absTime sem s =
     (let (got, sem1) = sem_enter (runningThreads s ! core) tok sem
      in if got then Inr (Some NoTimeout, sem1, s)
         else rbind (timedWait_begin cfg core absTime s) (\<lambda>s1. Inr (None, sem1, s1)))"

definition sem_timedWait_resume :: "config \<Rightarrow> nat \<Rightarrow> token \<Rightarrow> int \<Rightarrow> Semaphore \<Rightarrow> kstate
    \<Rightarrow> (TimedWaitResult option \<times> Semaphore \<times> kstate) result" where
  "sem_timedWait_resume cfg core tok absTime sem s =
     (let (res, s1) = timedWait_end (runningThreads s ! core) absTime s
      in if res = Timeout then Inr (Some Timeout, sem\<lparr>fifo := remove1 tok (fifo sem)\<rparr>, s1)
         else if stok sem tok = None then Inr (Some NoTimeout, sem, s1)
         else rbind (timedWait_begin cfg core absTime s1) (\<lambda>s2. Inr (None, sem, s2)))"

definition IRQtryWait :: "Semaphore \<Rightarrow> bool \<times> Semaphore" where
  "IRQtryWait sem = (if semCount sem > 0 then (True, sem\<lparr>semCount := semCount sem - 1\<rparr>) else (False, sem))"

text \<open>The counter is returned as a signed integer.\<close>

definition sem_IRQreset :: "Semaphore \<Rightarrow> int \<times> Semaphore" where
  "sem_IRQreset sem = (sint (semCount sem), sem\<lparr>semCount := 0\<rparr>)"

definition getCount :: "Semaphore \<Rightarrow> 32 word" where
  "getCount sem = semCount sem"

section \<open>Sequences of operations\<close>

text \<open>Signals and waits in any order, each wait with a token of its own. The third component of the
  result is the tokens of the waits that are over, in the order in which they ended.\<close>

datatype sem_op = Signal | Wait tid token

primrec sem_step :: "sem_op \<Rightarrow> Semaphore \<times> token list \<Rightarrow> (Semaphore \<times> token list) result" where
  "sem_step Signal st = (let (sem, done) = st in
     rbind (sem_signal sem) (\<lambda>(wk, sem1). Inr (sem1, if fifo sem = [] then done else done @ [hd (fifo sem)])))"
| "sem_step (Wait t tok) st = (let (sem, done) = st; (got, sem1) = sem_enter t tok sem
     in Inr (sem1, if got then done @ [tok] else done))"

primrec sem_run :: "sem_op list \<Rightarrow> Semaphore \<times> token list \<Rightarrow> (Semaphore \<times> token list) result" where
  "sem_run [] st = Inr st"
| "sem_run (op # ops) st = rbind (sem_step op st) (sem_run ops)"

definition signals :: "sem_op list \<Rightarrow> nat" where
  "signals ops = length (filter (\<lambda>op. op = Signal) ops)"

definition waits :: "sem_op list \<Rightarrow> token list" where
  "waits ops = concat (map (\<lambda>op. case op of Signal \<Rightarrow> [] | Wait t tok \<Rightarrow> [tok]) ops)"

lemma signals_simps [simp]: "signals [] = 0" "signals (Signal # ops) = Suc (signals ops)" "signals (Wait t tok # ops) = signals ops"
  by (simp_all add: signals_def)

lemma waits_simps [simp]: "waits [] = []" "waits (Signal # ops) = waits ops" "waits (Wait t tok # ops) = tok # waits ops"
  by (simp_all add: waits_def)

text \<open>What the semaphore holds after \<open>k\<close> permits and the waits \<open>ws\<close>.\<close>

definition sem_ok :: "nat \<Rightarrow> token list \<Rightarrow> Semaphore \<Rightarrow> token list \<Rightarrow> bool" where
  "sem_ok k ws sem done =
     (unat (semCount sem) = k - length ws \<and> done = take k ws \<and> fifo sem = drop k ws
      \<and> (\<forall>tok \<in> set (drop k ws). stok sem tok \<noteq> None) \<and> (\<forall>tok \<in> set (take k ws). stok sem tok = None))"

lemma sem_signal_ok:
  assumes ok: "sem_ok k ws sem done" and d: "distinct ws" and b: "k + 1 < 2 ^ 32"
  shows "\<exists>sem' done'. sem_step Signal (sem, done) = Inr (sem', done') \<and> sem_ok (Suc k) ws sem' done'"
proof (cases "k < length ws")
  case True
  then have e: "drop k ws = ws ! k # drop (Suc k) ws" "take (Suc k) ws = take k ws @ [ws ! k]"
    by (simp_all add: Cons_nth_drop_Suc take_Suc_conv_app_nth)
  then obtain t where t: "stok sem (ws ! k) = Some t" using ok by (auto simp: sem_ok_def)
  have nin: "ws ! k \<notin> set (drop (Suc k) ws)" using d True
    by (metis Cons_nth_drop_Suc distinct.simps(2) distinct_drop)
  let ?sem = "sem\<lparr>stok := (stok sem)(ws ! k := None), fifo := drop (Suc k) ws\<rparr>"
  have "sem_step Signal (sem, done) = Inr (?sem, done @ [ws ! k])"
    using ok e t by (simp add: sem_ok_def sem_signal_def)
  moreover have "sem_ok (Suc k) ws ?sem (done @ [ws ! k])"
    using ok e nin True by (auto simp: sem_ok_def)
  ultimately show ?thesis by blast
next
  case False
  then have f: "fifo sem = []" "unat (semCount sem) = k - length ws" using ok by (auto simp: sem_ok_def)
  have "unat (semCount sem + 1) = Suc k - length ws"
    using f(2) b False by (simp add: unat_word_ariths)
  then show ?thesis using f(1) ok False by (simp add: sem_ok_def sem_signal_def)
qed

lemma sem_enter_ok:
  assumes ok: "sem_ok k ws sem done" and n: "tok \<notin> set ws" and fresh: "stok sem tok = None"
  shows "\<exists>sem' done'. sem_step (Wait t tok) (sem, done) = Inr (sem', done') \<and> sem_ok k (ws @ [tok]) sem' done'
     \<and> (\<forall>x. x \<noteq> tok \<longrightarrow> stok sem' x = stok sem x)"
proof (cases "length ws < k")
  case True
  then have c: "semCount sem > 0" using ok by (metis sem_ok_def unat_gt_0 zero_less_diff word_gt_0_no word_neq_0_conv)
  have "unat (semCount sem - 1) = unat (semCount sem) - 1" using c by (metis One_nat_def unat_1 unat_minus_one word_neq_0_conv)
  then show ?thesis using ok c True fresh by (auto simp: sem_ok_def sem_enter_def)
next
  case False
  then have "unat (semCount sem) = 0" using ok by (simp add: sem_ok_def)
  then have "semCount sem = 0" by (simp add: unat_eq_0)
  then show ?thesis using ok n False by (auto simp: sem_ok_def sem_enter_def dest: in_set_takeD in_set_dropD)
qed

lemma sem_step_fresh:
  assumes "sem_step Signal (sem, done) = Inr (sem', done')" "stok sem x = None"
  shows "stok sem' x = None"
  using assms by (auto simp: sem_signal_def split: list.splits option.splits)

lemma sem_run_ok:
  assumes "sem_ok k ws sem done" "distinct (ws @ waits ops)" "\<forall>tok \<in> set (waits ops). stok sem tok = None"
    "k + signals ops < 2 ^ 32"
  shows "\<exists>sem' done'. sem_run ops (sem, done) = Inr (sem', done')
     \<and> sem_ok (k + signals ops) (ws @ waits ops) sem' done'"
  using assms
proof (induction ops arbitrary: k ws sem "done")
  case (Cons op ops)
  show ?case
  proof (cases op)
    case Signal
    obtain sem1 done1 where s1: "sem_step Signal (sem, done) = Inr (sem1, done1)" "sem_ok (Suc k) ws sem1 done1"
      using sem_signal_ok[OF Cons.prems(1)] Cons.prems(2,4) Signal by auto
    have "\<forall>tok \<in> set (waits ops). stok sem1 tok = None"
      using sem_step_fresh[OF s1(1)] Cons.prems(3) Signal by simp
    from Cons.IH[OF s1(2) _ this] Cons.prems(2,4) Signal s1(1) show ?thesis by simp
  next
    case (Wait t tok)
    obtain sem1 done1 where s1: "sem_step (Wait t tok) (sem, done) = Inr (sem1, done1)" "sem_ok k (ws @ [tok]) sem1 done1"
        "\<forall>x. x \<noteq> tok \<longrightarrow> stok sem1 x = stok sem x"
      using sem_enter_ok[OF Cons.prems(1), of tok t] Cons.prems(2,3) Wait by auto
    have "\<forall>x \<in> set (waits ops). stok sem1 x = None" using s1(3) Cons.prems(2,3) Wait by auto
    from Cons.IH[OF s1(2) _ this] Cons.prems(2,4) Wait s1(1) show ?thesis by simp
  qed
qed simp

section \<open>Properties\<close>



text \<open>A signal can be lost to a wait that times out. When the timer interrupt has already woken a
  thread out of its timed wait, but the thread has not run yet, its token is still the front of the
  queue; a signal then goes to that token and does not increment the counter, and the thread
  nevertheless returns that it timed out. Afterwards the counter is zero and nobody has got the
  signal.\<close>

theorem semaphore_timeout_loses_signal:
  assumes inv: "sched_inv n s" and k: "known s t"
    and timer: "(t, max absTime MIN_SLEEP) \<notin> set (sleepingList s)"
    and sem: "fifo sem = [tok]" "stok sem tok = Some t" "semCount sem = 0"
  shows "\<exists>sem1 s1. IRQsignal cfg core sem s = Inr (sem1, s1) \<and> runningThreads s1 = runningThreads s
      \<and> (\<forall>core'. runningThreads s1 ! core' = t \<longrightarrow>
          (\<exists>sem2 s2. sem_timedWait_resume cfg core' tok absTime sem1 s1 = Inr (Some Timeout, sem2, s2)
             \<and> getCount sem2 = 0 \<and> fifo sem2 = []))"
proof -
  obtain s0 where s0: "IRQwakeup cfg core t s = Inr (consider_and_invoke cfg FromFirst t core s0)"
      "s0 = s\<lparr>threads := threads s0, readyThreads := readyThreads s0, notReadyThreads := notReadyThreads s0\<rparr>"
    using IRQwakeup_spec[OF inv k, of cfg core] by blast
  let ?s1 = "consider_and_invoke cfg FromFirst t core s0"
  have f: "runningThreads s0 = runningThreads s" "sleepingList s0 = sleepingList s" by (subst s0(2), simp)+
  obtain need x where c: "IRQconsiderRescheduling cfg FromFirst t core s0 = (need, x)" by fastforce
  have g: "runningThreads ?s1 = runningThreads s" "sleepingList ?s1 = sleepingList s"
    using c f by (cases rule: consider_cases; simp add: consider_and_invoke_def c)+
  let ?sem1 = "sem\<lparr>stok := (stok sem)(tok := None), fifo := []\<rparr>"
  have "IRQsignal cfg core sem s = Inr (?sem1, ?s1)" using sem s0(1) by (simp add: IRQsignal_def sem_signal_def)
  moreover have "\<exists>sem2 s2. sem_timedWait_resume cfg core' tok absTime ?sem1 ?s1 = Inr (Some Timeout, sem2, s2)
             \<and> getCount sem2 = 0 \<and> fifo sem2 = []" if "runningThreads ?s1 ! core' = t" for core'
    using that timer g(2) sem(3) by (simp add: sem_timedWait_resume_def timedWait_end_def ts_remove_def getCount_def)
  ultimately show ?thesis using g(1) by blast
qed

theorem semaphore_timeout_loses_signal_witness:
  "\<exists>sem1 s1 sem2 s2. IRQsignal (demo_cfg False) 0 \<lparr>semCount = 0, fifo = [7], stok = (\<lambda>_. Some 2)\<rparr> demo_join = Inr (sem1, s1)
     \<and> sem_timedWait_resume (demo_cfg False) 0 7 500 sem1 s1 = Inr (Some Timeout, sem2, s2) \<and> getCount sem2 = 0"
proof -
  let ?sem = "\<lparr>semCount = 0, fifo = [7], stok = (\<lambda>_. Some 2)\<rparr> :: Semaphore"
  have j: "(2, max 500 MIN_SLEEP) \<notin> set (sleepingList demo_join)" "runningThreads demo_join ! 0 = 2"
    by (simp_all add: demo_join_def demo_state_def)
  from semaphore_timeout_loses_signal[OF demo_join_inv(1,2) j(1), of ?sem 7 "demo_cfg False" 0] j(2)
  show ?thesis by fastforce
qed

end
