(* ===== verification/EDF_Scheduler.thy ===== *)
theory EDF_Scheduler
  imports Priority_Scheduler
begin

text \<open>
  The earliest deadline first scheduler, \<^verbatim>\<open>kernel/scheduler/edf\<close>: real-time threads are
  scheduled by deadline, threads of the default priority round-robin when no real-time thread is ready.

  The thread records and kernel variables are those of theory Kernel_State, with the deadline in the
  field \<open>priority\<close>; the two ready queues of this scheduler replace \<open>readyThreads\<close>, which stays
  empty. Removing a thread from a queue while it is linked in the other one corrupts both lists: the
  model returns \<open>ListCorruption\<close>.
\<close>

section \<open>Deadlines\<close>

text \<open>The deadlines with a special meaning: non-real-time threads and idle threads.\<close>

definition RR_DEADLINE :: int where "RR_DEADLINE = max_ll - 2"
definition IDLE_DEADLINE :: int where "IDLE_DEADLINE = max_ll - 1"

definition edf_validate :: "int \<Rightarrow> bool" where
  "edf_validate deadline = (deadline \<ge> 0 \<and> deadline \<noteq> max_ll - 1)"

definition edf_mutexLessOp :: "int \<Rightarrow> int \<Rightarrow> bool" where
  "edf_mutexLessOp a b = (a > b)"

text \<open>The comparison operators are reversed: the lower deadline is the higher priority.\<close>

definition edf_less :: "int \<Rightarrow> int \<Rightarrow> bool" where
  "edf_less a b = (a > b)"

record edf_state =
  kern :: kstate
  readyEdfThreads :: "tid list"
  readyRrThreads :: "tid list"

abbreviation dl :: "edf_state \<Rightarrow> tid \<Rightarrow> int" where
  "dl st t \<equiv> prio (kern st) t"

abbreviation eflags :: "edf_state \<Rightarrow> tid \<Rightarrow> 8 word" where
  "eflags st t \<equiv> flagsOf (kern st) t"

section \<open>Operations\<close>

definition edf_enqueue :: "tid \<Rightarrow> edf_state \<Rightarrow> edf_state" where
  "edf_enqueue t st =
     (if dl st t = RR_DEADLINE then st\<lparr>readyRrThreads := fq_enqueue t (readyRrThreads st)\<rparr>
      else st\<lparr>readyEdfThreads := ts_enqueue (dl st) t (readyEdfThreads st)\<rparr>)"

definition edf_push_notReady :: "tid \<Rightarrow> edf_state \<Rightarrow> edf_state" where
  "edf_push_notReady t st = st\<lparr>kern := (kern st)\<lparr>notReadyThreads := t # notReadyThreads (kern st)\<rparr>\<rparr>"

definition edf_IRQaddThread :: "config \<Rightarrow> tid \<Rightarrow> int \<Rightarrow> edf_state \<Rightarrow> bool \<times> edf_state" where
  "edf_IRQaddThread cfg t p st =
     (let st1 = st\<lparr>kern := upd_thread t (\<lambda>th. th\<lparr>priority := p, savedPriority := p\<rparr>) (kern st)\<rparr>
      in (True, if with_processes cfg \<and> \<not> isReady (eflags st1 t) then edf_push_notReady t st1
                else edf_enqueue t st1))"

definition edf_IRQexists :: "tid \<Rightarrow> edf_state \<Rightarrow> bool" where
  "edf_IRQexists t st =
     (if t \<in> set (runningThreads (kern st)) then \<not> isDeleted (eflags st t)
      else if fq_contains t (readyRrThreads st) then True
      else if ts_contains t (readyEdfThreads st) then True
      else if t \<in> set (notReadyThreads (kern st)) then \<not> isDeleted (eflags st t)
      else False)"

definition edf_removeDeadThreads :: "edf_state \<Rightarrow> edf_state" where
  "edf_removeDeadThreads st = st\<lparr>kern := removeDeadThreads (kern st)\<rparr>"

definition set_deadline :: "tid \<Rightarrow> int \<Rightarrow> edf_state \<Rightarrow> edf_state" where
  "set_deadline t p st = st\<lparr>kern := upd_thread t (\<lambda>th. th\<lparr>priority := p\<rparr>) (kern st)\<rparr>"

definition edf_IRQsetPriority :: "ExtraChecks \<Rightarrow> tid \<Rightarrow> int \<Rightarrow> edf_state \<Rightarrow> edf_state result" where
  "edf_IRQsetPriority ck t newPriority st =
     ensure (ck = Kernel \<longrightarrow> \<not> isZombie (eflags st t)) UNEXPECTED
      (if t \<in> set (runningThreads (kern st)) then Inr (set_deadline t newPriority st)
       else if \<not> isReady (eflags st t) then Inr (set_deadline t newPriority st)
       else let oldRR = (dl st t = max_ll - 2); newRR = (newPriority = max_ll - 2) in
         if oldRR \<or> newRR then Inr (set_deadline t newPriority st)
         else rbind (if oldRR
                     then ensure (t \<notin> set (readyEdfThreads st)) ListCorruption
                       (Inr (st\<lparr>readyRrThreads := fq_remove t (readyRrThreads st)\<rparr>))
                     else ensure (t \<notin> set (readyRrThreads st)) ListCorruption
                       (Inr (st\<lparr>readyEdfThreads := snd (ts_remove t (readyEdfThreads st))\<rparr>)))
                (\<lambda>st1. Inr (edf_enqueue t (set_deadline t newPriority st1))))"

definition edf_IRQsetIdleThread :: "nat \<Rightarrow> tid \<Rightarrow> edf_state \<Rightarrow> edf_state" where
  "edf_IRQsetIdleThread whichCore t st =
     (let k1 = upd_thread t (\<lambda>th. th\<lparr>priority := max_ll - 1, savedPriority := max_ll - 1\<rparr>) (kern st)
      in st\<lparr>kern := k1\<lparr>idle := (idle k1)[whichCore := t]\<rparr>\<rparr>)"

definition edf_IRQwokenThread :: "tid \<Rightarrow> edf_state \<Rightarrow> edf_state result" where
  "edf_IRQwokenThread t st =
     (if t \<in> set (runningThreads (kern st)) then Inr st
      else rbind (if t \<in> set (notReadyThreads (kern st))
                  then Inr (st\<lparr>kern := (kern st)\<lparr>notReadyThreads := remove1 t (notReadyThreads (kern st))\<rparr>\<rparr>)
                  else ensure (t \<notin> set (readyEdfThreads st) \<union> set (readyRrThreads st)) ListCorruption (Inr st))
             (\<lambda>st1. Inr (edf_enqueue t st1)))"

section \<open>IRQrunScheduler\<close>

definition edf_put_prev :: "nat \<Rightarrow> edf_state \<Rightarrow> edf_state" where
  "edf_put_prev core st =
     (let prev = runningThreads (kern st) ! core in
      if prev = idle (kern st) ! core then st
      else if isZombie (eflags st prev)
        then st\<lparr>kern := (kern st)\<lparr>notReadyThreads := notReadyThreads (kern st) @ [prev]\<rparr>\<rparr>
      else if \<not> isReady (eflags st prev) then edf_push_notReady prev st
      else edf_enqueue prev st)"

text \<open>The deadlines of the running threads, with 0 for the current core so as to exclude it.\<close>

definition runningDeadline :: "nat \<Rightarrow> edf_state \<Rightarrow> int list" where
  "runningDeadline core st = (map (dl st) (runningThreads (kern st)))[core := 0]"

text \<open>The first core a thread may run on whose running deadline satisfies a condition: the loops
  \<^verbatim>\<open>for(int c=0;c<CPU_NUM_CORES;c++)\<close>.\<close>

fun find_core :: "8 word \<Rightarrow> (int \<Rightarrow> bool) \<Rightarrow> int list \<Rightarrow> nat \<Rightarrow> nat option" where
  "find_core a ok [] c = None"
| "find_core a ok (r # rs) c =
     (if \<not> affine a c then find_core a ok rs (Suc c)
      else if \<not> ok r then find_core a ok rs (Suc c)
      else Some c)"

text \<open>A pass over one of the ready queues: the thread to run and the rest of the queue behind it,
  the queue without it, and the core found for a thread that cannot run on this one.\<close>

fun edf_scan :: "(tid \<Rightarrow> 8 word) \<Rightarrow> (tid \<Rightarrow> int \<Rightarrow> bool) \<Rightarrow> nat \<Rightarrow> int list \<Rightarrow> tid list \<Rightarrow> nat option
    \<Rightarrow> (tid \<times> tid list) option \<times> tid list \<times> nat option" where
  "edf_scan aff ok core rd [] oc = (None, [], oc)"
| "edf_scan aff ok core rd (x # xs) oc =
     (if affine (aff x) core then (Some (x, xs), xs, oc)
      else let oc' = (case oc of Some c \<Rightarrow> Some c | None \<Rightarrow> find_core (aff x) (ok x) rd 0);
               (sel, rest, oc'') = edf_scan aff ok core rd xs oc'
           in (sel, x # rest, oc''))"

text \<open>The common end: the new running thread, its context and the preemption timer. Real-time
  threads and idle have no time slice.\<close>

definition edf_dispatch :: "config \<Rightarrow> int \<Rightarrow> nat \<Rightarrow> tid \<Rightarrow> edf_state \<Rightarrow> edf_state" where
  "edf_dispatch cfg now core t st =
     st\<lparr>kern := IRQcomputePreemption cfg now core (if dl st t = RR_DEADLINE then MAX_TIME_SLICE else 0)
       ((kern st)\<lparr>runningThreads := (runningThreads (kern st))[core := t],
          ctxsave := (ctxsave (kern st))(core :=
            (if with_processes cfg \<and> isInUserspace (eflags st t) then UserCtx t else KernelCtx t))\<rparr>)\<rparr>"

definition edf_invoke :: "nat \<Rightarrow> edf_state \<Rightarrow> edf_state" where
  "edf_invoke c st = st\<lparr>kern := IRQinvokeSchedulerOnCore c (kern st)\<rparr>"

text \<open>The first running thread with a later deadline, in an SMP kernel without affinity.\<close>

fun first_later :: "int \<Rightarrow> int list \<Rightarrow> nat \<Rightarrow> nat option" where
  "first_later d [] c = None"
| "first_later d (r # rs) c = (if d < r then Some c else first_later d rs (Suc c))"

definition edf_followup_plain :: "edf_state \<Rightarrow> edf_state" where
  "edf_followup_plain st =
     (let second = (if readyEdfThreads st \<noteq> [] then dl st (hd (readyEdfThreads st))
                    else if readyRrThreads st \<noteq> [] then max_ll - 2
                    else max_ll - 1)
      in if second \<noteq> max_ll - 1 then
           (case first_later second (map (dl st) (runningThreads (kern st))) 0 of
              Some c \<Rightarrow> edf_invoke c st
            | None \<Rightarrow> st)
         else st)"

fun edf_rest :: "(tid \<Rightarrow> 8 word) \<Rightarrow> (tid \<Rightarrow> int) \<Rightarrow> int \<Rightarrow> int list \<Rightarrow> tid list \<Rightarrow> nat option \<times> bool" where
  "edf_rest aff d latest rd [] = (None, False)"
| "edf_rest aff d latest rd (x # xs) =
     (if d x \<ge> latest then (None, True)
      else case find_core (aff x) (\<lambda>r. \<not> r < d x) rd 0 of
             Some c \<Rightarrow> (Some c, True)
           | None \<Rightarrow> edf_rest aff d latest rd xs)"

fun rr_rest :: "(tid \<Rightarrow> 8 word) \<Rightarrow> int list \<Rightarrow> tid list \<Rightarrow> nat option" where
  "rr_rest aff rd [] = None"
| "rr_rest aff rd (x # xs) =
     (case find_core (aff x) (\<lambda>r. r = max_ll - 1) rd 0 of
        Some c \<Rightarrow> Some c
      | None \<Rightarrow> rr_rest aff rd xs)"

text \<open>With affinity, the parts of the queues the iterators have not passed yet.\<close>

definition edf_followup_affine :: "int list \<Rightarrow> nat option \<Rightarrow> tid list \<Rightarrow> tid list \<Rightarrow> edf_state \<Rightarrow> edf_state" where
  "edf_followup_affine rd oc edfIt rrIt st =
     (case oc of
        Some c \<Rightarrow> edf_invoke c st
      | None \<Rightarrow>
          (let aff = (\<lambda>t. affinity (threads (kern st) t));
               latest = fold max (tl rd) (hd rd);
               (found, completed) = edf_rest aff (dl st) latest rd edfIt
           in case found of
                Some c \<Rightarrow> edf_invoke c st
              | None \<Rightarrow>
                  if completed then st
                  else if latest = max_ll - 1 then
                    (case rr_rest aff rd rrIt of Some c \<Rightarrow> edf_invoke c st | None \<Rightarrow> st)
                  else st))"

definition edf_schedule_plain :: "config \<Rightarrow> int \<Rightarrow> nat \<Rightarrow> edf_state \<Rightarrow> edf_state" where
  "edf_schedule_plain cfg now core st =
     (let (n1, edf) = ts_dequeueOne (readyEdfThreads st);
          (n2, rr) = (case n1 of Some t \<Rightarrow> (Some t, readyRrThreads st)
                                | None \<Rightarrow> fq_dequeueOne (readyRrThreads st));
          next = (case n2 of Some t \<Rightarrow> t | None \<Rightarrow> idle (kern st) ! core);
          st1 = edf_dispatch cfg now core next (st\<lparr>readyEdfThreads := edf, readyRrThreads := rr\<rparr>)
      in if with_smp cfg then edf_followup_plain st1 else st1)"

definition edf_schedule_affine :: "config \<Rightarrow> int \<Rightarrow> nat \<Rightarrow> edf_state \<Rightarrow> edf_state" where
  "edf_schedule_affine cfg now core st =
     (let aff = (\<lambda>t. affinity (threads (kern st) t)); rd = runningDeadline core st;
          (sel1, edf, oc1) = edf_scan aff (\<lambda>x r. \<not> r < dl st x) core rd (readyEdfThreads st) None
      in case sel1 of
           Some (t, edfIt) \<Rightarrow>
             edf_followup_affine rd oc1 edfIt (readyRrThreads st)
               (edf_dispatch cfg now core t (st\<lparr>readyEdfThreads := edf\<rparr>))
         | None \<Rightarrow>
             (let (sel2, rr, oc2) = edf_scan aff (\<lambda>x r. r = max_ll - 1) core rd (readyRrThreads st) oc1
              in case sel2 of
                   Some (t, rrIt) \<Rightarrow>
                     edf_followup_affine rd oc2 [] rrIt
                       (edf_dispatch cfg now core t (st\<lparr>readyRrThreads := rr\<rparr>))
                 | None \<Rightarrow>
                     edf_followup_affine rd oc2 [] []
                       (edf_dispatch cfg now core (idle (kern st) ! core) st)))"

definition edf_IRQrunScheduler :: "config \<Rightarrow> int \<Rightarrow> nat \<Rightarrow> edf_state \<Rightarrow> edf_state result" where
  "edf_IRQrunScheduler cfg now core st =
     rbind (IRQstackOverflowCheck core (kern st)) (\<lambda>k.
       if holdingCore k = Some core then Inr (st\<lparr>kern := k\<lparr>pendingWakeup := True\<rparr>\<rparr>)
       else let st1 = edf_put_prev core (st\<lparr>kern := k\<rparr>)
            in Inr (if with_affinity cfg \<and> with_smp cfg then edf_schedule_affine cfg now core st1
                    else edf_schedule_plain cfg now core st1))"

section \<open>The invariant\<close>

definition edf_all :: "edf_state \<Rightarrow> tid list" where
  "edf_all st = readyEdfThreads st @ readyRrThreads st @ notReadyThreads (kern st) @ busy (kern st) @ idle (kern st)"

definition real_time :: "int \<Rightarrow> bool" where
  "real_time d = (d \<noteq> max_ll - 2 \<and> d \<noteq> max_ll - 1)"

definition edf_inv :: "edf_state \<Rightarrow> bool" where
  "edf_inv st =
     (length (runningThreads (kern st)) = length (idle (kern st)) \<and> 0 < length (idle (kern st))
      \<and> distinct (edf_all st) \<and> idle_home (kern st)
      \<and> ts_inv (dl st) (readyEdfThreads st)
      \<and> list_all (\<lambda>t. isReady (eflags st t) \<and> real_time (dl st t)) (readyEdfThreads st)
      \<and> list_all (\<lambda>t. isReady (eflags st t) \<and> dl st t = max_ll - 2) (readyRrThreads st)
      \<and> list_all (\<lambda>t. \<not> isReady (eflags st t) \<and> dl st t \<noteq> max_ll - 1) (notReadyThreads (kern st))
      \<and> list_all (\<lambda>t. dl st t \<noteq> max_ll - 1) (busy (kern st))
      \<and> list_all (\<lambda>t. dl st t = max_ll - 1 \<and> isReady (eflags st t)) (idle (kern st))
      \<and> sorted_wrt (\<lambda>x y. isZombie (eflags st x) \<longrightarrow> isZombie (eflags st y)) (notReadyThreads (kern st)))"

lemma edf_invD:
  assumes "edf_inv st"
  shows "length (runningThreads (kern st)) = length (idle (kern st))" "0 < length (idle (kern st))"
    "distinct (edf_all st)" "idle_home (kern st)" "ts_inv (dl st) (readyEdfThreads st)"
    "list_all (\<lambda>t. isReady (eflags st t) \<and> real_time (dl st t)) (readyEdfThreads st)"
    "list_all (\<lambda>t. isReady (eflags st t) \<and> dl st t = max_ll - 2) (readyRrThreads st)"
    "list_all (\<lambda>t. \<not> isReady (eflags st t) \<and> dl st t \<noteq> max_ll - 1) (notReadyThreads (kern st))"
    "list_all (\<lambda>t. dl st t \<noteq> max_ll - 1) (busy (kern st))"
    "list_all (\<lambda>t. dl st t = max_ll - 1 \<and> isReady (eflags st t)) (idle (kern st))"
    "sorted_wrt (\<lambda>x y. isZombie (eflags st x) \<longrightarrow> isZombie (eflags st y)) (notReadyThreads (kern st))"
  using assms unfolding edf_inv_def by blast+

text \<open>The state with the idle thread in the place of the thread running on a core.\<close>

definition edf_park :: "nat \<Rightarrow> edf_state \<Rightarrow> edf_state" where
  "edf_park core st = st\<lparr>kern := park core (kern st)\<rparr>"

text \<open>The queues after the previous thread has been put back.\<close>

definition edf_after :: "nat \<Rightarrow> edf_state \<Rightarrow> tid list \<times> tid list" where
  "edf_after core st =
     (let prev = runningThreads (kern st) ! core in
      if prev = idle (kern st) ! core \<or> \<not> isReady (eflags st prev) then (readyEdfThreads st, readyRrThreads st)
      else if dl st prev = max_ll - 2 then (readyEdfThreads st, readyRrThreads st @ [prev])
      else (ts_enqueue (dl st) prev (readyEdfThreads st), readyRrThreads st))"

lemma edf_cong:
  assumes "threads (kern st') = threads (kern st)" "runningThreads (kern st') = runningThreads (kern st)"
    "idle (kern st') = idle (kern st)" "notReadyThreads (kern st') = notReadyThreads (kern st)"
    "readyEdfThreads st' = readyEdfThreads st" "readyRrThreads st' = readyRrThreads st"
  shows "edf_inv st' = edf_inv st" "edf_all st' = edf_all st"
  by (simp_all only: edf_inv_def edf_all_def busy_def idle_home_def assms)

lemma idle_home_cong: "runningThreads s' = runningThreads s \<Longrightarrow> idle s' = idle s \<Longrightarrow> idle_home s' = idle_home s"
  by (simp only: idle_home_def)

lemma edf_prev_notin:
  assumes inv: "edf_inv st" and core: "core < length (idle (kern st))" and p: "runningThreads (kern st) ! core = p" "p \<noteq> idle (kern st) ! core"
  shows "p \<notin> set (idle (kern st))" "p \<in> set (busy (kern st))"
    "p \<notin> set (readyEdfThreads st)" "p \<notin> set (readyRrThreads st)" "p \<notin> set (notReadyThreads (kern st))"
proof -
  note d = edf_invD[OF inv]
  show ni: "p \<notin> set (idle (kern st))" using idle_home_nth[OF d(4) core] p by metis
  have "p \<in> set (runningThreads (kern st))" using p(1) core d(1) nth_mem by metis
  then show b: "p \<in> set (busy (kern st))" using ni by (simp add: busy_def)
  then show "p \<notin> set (readyEdfThreads st)" "p \<notin> set (readyRrThreads st)" "p \<notin> set (notReadyThreads (kern st))"
    using d(3) by (auto simp: edf_all_def)
qed

lemma edf_put_prev_spec:
  assumes inv: "edf_inv st" and core: "core < length (idle (kern st))"
  shows "edf_inv (edf_park core (edf_put_prev core st))"
    "mset (edf_all (edf_park core (edf_put_prev core st))) = mset (edf_all st)"
    "(readyEdfThreads (edf_put_prev core st), readyRrThreads (edf_put_prev core st)) = edf_after core st"
    "threads (kern (edf_put_prev core st)) = threads (kern st)" "idle (kern (edf_put_prev core st)) = idle (kern st)"
    "runningThreads (kern (edf_put_prev core st)) = runningThreads (kern st)"
proof -
  note d = edf_invD[OF inv]
  let ?p = "runningThreads (kern st) ! core" and ?s = "edf_put_prev core st"
  show f: "threads (kern ?s) = threads (kern st)" "idle (kern ?s) = idle (kern st)"
    "runningThreads (kern ?s) = runningThreads (kern st)"
    by (simp_all add: edf_put_prev_def edf_push_notReady_def edf_enqueue_def Let_def)
  show "(readyEdfThreads ?s, readyRrThreads ?s) = edf_after core st"
    by (auto simp: edf_put_prev_def edf_push_notReady_def edf_enqueue_def edf_after_def Let_def RR_DEADLINE_def
        fq_enqueue_def zombie_not_ready)
  have home: "idle_home (kern (edf_park core ?s))"
    using idle_home_update[of "kern st" "idle (kern st) ! core" core] d(1,4)
    by (simp add: idle_home_def edf_park_def park_def f)
  have goal: "edf_inv (edf_park core ?s) \<and> mset (edf_all (edf_park core ?s)) = mset (edf_all st)"
  proof (cases "?p = idle (kern st) ! core")
    case True
    then have "edf_put_prev core st = st" by (simp add: edf_put_prev_def)
    moreover have "(runningThreads (kern st))[core := idle (kern st) ! core] = runningThreads (kern st)"
      using True by (metis list_update_id)
    ultimately show ?thesis using edf_cong[of "edf_park core st" st] inv by (simp add: edf_park_def)
  next
    case False
    note n = edf_prev_notin[OF inv core refl False]
    have busy: "mset (busy (kern st)) = add_mset ?p (mset (busy (kern (edf_park core ?s))))"
      using busy_park[of core "kern st" "idle (kern st) ! core"] core d(1) n(1)
      by (simp add: busy_def edf_park_def park_def f)
    have bl: "list_all P (busy (kern (edf_park core ?s)))" "P ?p" if "list_all P (busy (kern st))" for P
      using list_all_add_mset[OF busy, of P] that by simp_all
    have pd: "dl st ?p \<noteq> max_ll - 1" using bl(2)[OF d(9)] .
    have all: "mset (edf_all (edf_park core ?s)) = mset (edf_all st)"
      using busy False by (auto simp: edf_all_def edf_park_def edf_put_prev_def edf_push_notReady_def edf_enqueue_def
          fq_enqueue_def mset_ts_enqueue Let_def)
    have di: "distinct (edf_all (edf_park core ?s))" using distinct_mset[OF all] d(3) by simp
    have q: "ts_inv (dl st) (ts_enqueue (dl st) ?p (readyEdfThreads st))" using ts_enqueue_inv[OF d(5) n(3)] .
    have z: "sorted_wrt (\<lambda>x y. isZombie (eflags st x) \<longrightarrow> isZombie (eflags st y)) (notReadyThreads (kern st) @ [?p])"
      if "isZombie (eflags st ?p)" using that d(11) by (simp add: sorted_wrt_append)
    have "edf_inv (edf_park core ?s)"
      unfolding edf_inv_def
      using d di home bl(1)[OF d(9)] q z pd zombie_not_ready[of "eflags st ?p"]
      by (simp add: edf_park_def f)
         (auto simp: edf_put_prev_def edf_push_notReady_def edf_enqueue_def fq_enqueue_def Let_def RR_DEADLINE_def
          real_time_def set_ts_enqueue list_all_iff)
    with all show ?thesis by blast
  qed
  then show "edf_inv (edf_park core ?s)" "mset (edf_all (edf_park core ?s)) = mset (edf_all st)" by blast+
qed

text \<open>Running a thread taken out of the queues, or the idle thread.\<close>

lemma edf_dispatch_fields [simp]:
  "threads (kern (edf_dispatch cfg now core t st)) = threads (kern st)"
  "idle (kern (edf_dispatch cfg now core t st)) = idle (kern st)"
  "runningThreads (kern (edf_dispatch cfg now core t st)) = (runningThreads (kern st))[core := t]"
  "notReadyThreads (kern (edf_dispatch cfg now core t st)) = notReadyThreads (kern st)"
  "readyEdfThreads (edf_dispatch cfg now core t st) = readyEdfThreads st"
  "readyRrThreads (edf_dispatch cfg now core t st) = readyRrThreads st"
  "schedRequests (kern (edf_dispatch cfg now core t st)) = schedRequests (kern st)"
  by (simp_all add: edf_dispatch_def)

lemma edf_invoke_fields [simp]:
  "threads (kern (edf_invoke c st)) = threads (kern st)" "idle (kern (edf_invoke c st)) = idle (kern st)"
  "runningThreads (kern (edf_invoke c st)) = runningThreads (kern st)"
  "notReadyThreads (kern (edf_invoke c st)) = notReadyThreads (kern st)"
  "readyEdfThreads (edf_invoke c st) = readyEdfThreads st" "readyRrThreads (edf_invoke c st) = readyRrThreads st"
  by (simp_all add: edf_invoke_def)

lemma edf_dispatch_inv:
  assumes inv: "edf_inv (edf_park core st)" and core: "core < length (idle (kern st))"
    and q: "mset (readyEdfThreads st) + mset (readyRrThreads st) = add_mset t (mset E + mset R)"
      "set E \<subseteq> set (readyEdfThreads st)" "set R \<subseteq> set (readyRrThreads st)" "ts_inv (dl st) E"
  shows "edf_inv (edf_dispatch cfg now core t (st\<lparr>readyEdfThreads := E, readyRrThreads := R\<rparr>))"
    "mset (edf_all (edf_dispatch cfg now core t (st\<lparr>readyEdfThreads := E, readyRrThreads := R\<rparr>))) = mset (edf_all (edf_park core st))"
proof -
  note d = edf_invD[OF inv]
  let ?s = "edf_dispatch cfg now core t (st\<lparr>readyEdfThreads := E, readyRrThreads := R\<rparr>)"
  have tq: "t \<in> set (readyEdfThreads st) \<union> set (readyRrThreads st)"
    using q(1) by (metis set_mset_mset set_mset_union union_single_eq_member)
  then have ni: "t \<notin> set (idle (kern st))" using d(3) by (auto simp: edf_all_def edf_park_def)
  have td: "dl st t \<noteq> max_ll - 1" using tq d(6,7) by (auto simp: list_all_iff edf_park_def real_time_def)
  let ?p = "park core (kern st)"
  have pk: "runningThreads ?p = (runningThreads (kern st))[core := idle (kern st) ! core]" "length (runningThreads (kern st)) = length (idle (kern st))"
    using d(1) by (simp_all add: edf_park_def)
  have bk: "mset (busy (kern ?s)) = add_mset t (mset (busy ?p))"
    using busy_update[of core ?p t] core pk ni by (simp add: busy_def)
  show all: "mset (edf_all ?s) = mset (edf_all (edf_park core st))"
    using bk q(1) by (simp add: edf_all_def edf_park_def add_ac)
  have "idle_home (?p\<lparr>runningThreads := (runningThreads ?p)[core := t]\<rparr>)"
    using d(1,4) ni by (intro idle_home_update) (simp_all add: edf_park_def)
  then have home: "idle_home (kern ?s)"
    by (rule idle_home_cong[THEN iffD1, rotated 2]) simp_all
  have bl: "list_all P (busy (kern ?s))" if "list_all P (busy ?p)" "P t" for P
    using list_all_add_mset[OF bk, of P] that by simp
  have e: "list_all (\<lambda>x. isReady (eflags st x) \<and> real_time (dl st x)) E"
    using d(6) q(2) unfolding list_all_iff edf_park_def by auto
  have r: "list_all (\<lambda>x. isReady (eflags st x) \<and> dl st x = max_ll - 2) R"
    using d(7) q(3) unfolding list_all_iff edf_park_def by auto
  have b: "list_all (\<lambda>x. dl st x \<noteq> max_ll - 1) (busy (kern ?s))"
    using bl[of "\<lambda>x. dl st x \<noteq> max_ll - 1"] d(9) td by (simp add: edf_park_def)
  have di: "distinct (edf_all ?s)" using distinct_mset[OF all] d(3) by blast
  have o: "0 < length (idle (kern st))" "list_all (\<lambda>x. \<not> isReady (eflags st x) \<and> dl st x \<noteq> max_ll - 1) (notReadyThreads (kern st))"
    "list_all (\<lambda>x. dl st x = max_ll - 1 \<and> isReady (eflags st x)) (idle (kern st))"
    "sorted_wrt (\<lambda>x y. isZombie (eflags st x) \<longrightarrow> isZombie (eflags st y)) (notReadyThreads (kern st))"
    using d(2,8,10,11) by (simp_all add: edf_park_def)
  show "edf_inv ?s" unfolding edf_inv_def using e r b di o home q(4) pk(2) by simp
qed

lemma edf_dispatch_idle:
  assumes inv: "edf_inv (edf_park core st)" and core: "core < length (idle (kern st))"
  shows "edf_inv (edf_dispatch cfg now core (idle (kern st) ! core) st)"
    "mset (edf_all (edf_dispatch cfg now core (idle (kern st) ! core) st)) = mset (edf_all (edf_park core st))"
  using edf_cong[of "edf_dispatch cfg now core (idle (kern st) ! core) st" "edf_park core st"] inv
  by (simp_all add: edf_park_def)

lemma edf_scan_spec:
  "edf_scan aff ok core rd xs oc = (sel, rest, oc') \<Longrightarrow>
     (case find (\<lambda>x. affine (aff x) core) xs of
        None \<Rightarrow> sel = None \<and> rest = xs
      | Some t \<Rightarrow> (\<exists>it. sel = Some (t, it)) \<and> rest = remove1 t xs \<and> t \<in> set xs)"
proof (induction xs arbitrary: oc sel rest oc')
  case (Cons x xs)
  show ?case
  proof (cases "affine (aff x) core")
    case False
    obtain sel1 rest1 oc1 where s: "edf_scan aff ok core rd xs
        (case oc of Some c \<Rightarrow> Some c | None \<Rightarrow> find_core (aff x) (ok x) rd 0) = (sel1, rest1, oc1)"
      by (metis prod_cases3)
    have "sel = sel1" "rest = x # rest1" using Cons.prems s False by (auto split: option.splits)
    moreover have "x \<noteq> t" if "find (\<lambda>x. affine (aff x) core) xs = Some t" for t
      using that False by (auto simp: find_Some_iff)
    ultimately show ?thesis using Cons.IH[OF s] False by (auto split: option.splits)
  qed (use Cons.prems in auto)
qed simp

lemma edf_followup_frame:
  "threads (kern (edf_followup_affine rd oc a b st)) = threads (kern st) \<and> runningThreads (kern (edf_followup_affine rd oc a b st)) = runningThreads (kern st)
     \<and> edf_inv (edf_followup_affine rd oc a b st) = edf_inv st \<and> edf_all (edf_followup_affine rd oc a b st) = edf_all st"
  "threads (kern (edf_followup_plain st)) = threads (kern st) \<and> runningThreads (kern (edf_followup_plain st)) = runningThreads (kern st)
     \<and> edf_inv (edf_followup_plain st) = edf_inv st \<and> edf_all (edf_followup_plain st) = edf_all st"
proof -
  have i: "edf_inv (edf_invoke c st) = edf_inv st" "edf_all (edf_invoke c st) = edf_all st" for c
    by (rule edf_cong; simp)+
  show "threads (kern (edf_followup_affine rd oc a b st)) = threads (kern st) \<and> runningThreads (kern (edf_followup_affine rd oc a b st)) = runningThreads (kern st)
     \<and> edf_inv (edf_followup_affine rd oc a b st) = edf_inv st \<and> edf_all (edf_followup_affine rd oc a b st) = edf_all st"
    by (auto simp: edf_followup_affine_def Let_def i split: option.splits prod.splits)
  show "threads (kern (edf_followup_plain st)) = threads (kern st) \<and> runningThreads (kern (edf_followup_plain st)) = runningThreads (kern st)
     \<and> edf_inv (edf_followup_plain st) = edf_inv st \<and> edf_all (edf_followup_plain st) = edf_all st"
    by (auto simp: edf_followup_plain_def Let_def i split: option.splits)
qed

definition edf_may_run :: "config \<Rightarrow> edf_state \<Rightarrow> tid \<Rightarrow> nat \<Rightarrow> bool" where
  "edf_may_run cfg st t core = (with_affinity cfg \<and> with_smp cfg \<longrightarrow> affine (affinity (threads (kern st) t)) core)"

text \<open>The thread to run: the first that may run on the core, real-time threads by deadline, then the
  others in turn, then idle.\<close>

definition edf_choice :: "config \<Rightarrow> nat \<Rightarrow> edf_state \<Rightarrow> tid" where
  "edf_choice cfg core st = (let (E, R) = edf_after core st in
     case find (\<lambda>t. edf_may_run cfg st t core) (E @ R) of Some t \<Rightarrow> t | None \<Rightarrow> idle (kern st) ! core)"

lemma find_append: "find P (xs @ ys) = (case find P xs of Some x \<Rightarrow> Some x | None \<Rightarrow> find P ys)"
  by (induction xs) auto

text \<open>What a run of the scheduler does to a parked state.\<close>

definition edf_ran :: "nat \<Rightarrow> edf_state \<Rightarrow> tid \<Rightarrow> edf_state \<Rightarrow> bool" where
  "edf_ran core st t st' =
     (edf_inv st' \<and> mset (edf_all st') = mset (edf_all (edf_park core st)) \<and> threads (kern st') = threads (kern st)
      \<and> runningThreads (kern st') = (runningThreads (kern st))[core := t])"

lemma edf_ran_take:
  assumes inv: "edf_inv (edf_park core st)" and core: "core < length (idle (kern st))" and t: "t \<in> set (readyEdfThreads st) \<union> set (readyRrThreads st)"
  shows "t \<in> set (readyEdfThreads st) \<Longrightarrow> edf_ran core st t (edf_dispatch cfg now core t (st\<lparr>readyEdfThreads := remove1 t (readyEdfThreads st)\<rparr>))"
    "t \<in> set (readyRrThreads st) \<Longrightarrow> edf_ran core st t (edf_dispatch cfg now core t (st\<lparr>readyRrThreads := remove1 t (readyRrThreads st)\<rparr>))"
proof -
  note d = edf_invD[OF inv]
  have e: "ts_inv (dl st) (readyEdfThreads st)" "ts_inv (dl st) (remove1 t (readyEdfThreads st))"
    using d(5) ts_inv_remove1[of "dl st"] by (simp_all add: edf_park_def)
  have s1: "st\<lparr>readyEdfThreads := E, readyRrThreads := readyRrThreads st\<rparr> = st\<lparr>readyEdfThreads := E\<rparr>"
    and s2: "st\<lparr>readyEdfThreads := readyEdfThreads st, readyRrThreads := R\<rparr> = st\<lparr>readyRrThreads := R\<rparr>" for E R
    by simp_all
  show "edf_ran core st t (edf_dispatch cfg now core t (st\<lparr>readyEdfThreads := remove1 t (readyEdfThreads st)\<rparr>))"
    if "t \<in> set (readyEdfThreads st)"
    using edf_dispatch_inv[OF inv core, of t "remove1 t (readyEdfThreads st)" "readyRrThreads st" cfg now] e(2) that
    unfolding s1 by (simp add: edf_ran_def set_remove1_subset)
  show "edf_ran core st t (edf_dispatch cfg now core t (st\<lparr>readyRrThreads := remove1 t (readyRrThreads st)\<rparr>))"
    if "t \<in> set (readyRrThreads st)"
    using edf_dispatch_inv[OF inv core, of t "readyEdfThreads st" "remove1 t (readyRrThreads st)" cfg now] e(1) that
    unfolding s2 by (simp add: edf_ran_def set_remove1_subset)
qed

lemma edf_ran_followup:
  "edf_ran core st t (edf_followup_affine rd oc a b x) = edf_ran core st t x"
  "edf_ran core st t (edf_followup_plain x) = edf_ran core st t x"
  by (simp_all add: edf_ran_def edf_followup_frame)

lemma edf_ran_idle:
  assumes "edf_inv (edf_park core st)" "core < length (idle (kern st))"
  shows "edf_ran core st (idle (kern st) ! core) (edf_dispatch cfg now core (idle (kern st) ! core) st)"
  using edf_dispatch_idle[OF assms] by (simp add: edf_ran_def)

lemma edf_schedule_plain_ran:
  assumes inv: "edf_inv (edf_park core st)" and core: "core < length (idle (kern st))"
  shows "edf_ran core st (case readyEdfThreads st @ readyRrThreads st of [] \<Rightarrow> idle (kern st) ! core | t # _ \<Rightarrow> t)
     (edf_schedule_plain cfg now core st)"
proof (cases "readyEdfThreads st")
  case (Cons t ts)
  then show ?thesis using edf_ran_take(1)[OF inv core, of t cfg now]
    by (simp add: edf_schedule_plain_def ts_dequeueOne_def edf_ran_followup Let_def)
next
  case Nil
  then have e: "st\<lparr>readyEdfThreads := [], readyRrThreads := r\<rparr> = st\<lparr>readyRrThreads := r\<rparr>" for r by (cases st) simp
  show ?thesis
  proof (cases "readyRrThreads st")
    case (Cons t ts)
    then show ?thesis using edf_ran_take(2)[OF inv core, of t cfg now, folded e] Nil
      by (simp add: edf_schedule_plain_def ts_dequeueOne_def fq_dequeueOne_def edf_ran_followup Let_def)
  next
    case Nil
    then have "st\<lparr>readyEdfThreads := [], readyRrThreads := []\<rparr> = st" using \<open>readyEdfThreads st = []\<close> by (cases st) simp
    then have "edf_ran core st (idle (kern st) ! core) (edf_dispatch cfg now core (idle (kern st) ! core) (st\<lparr>readyEdfThreads := [], readyRrThreads := []\<rparr>))"
      using edf_ran_idle[OF inv core, of cfg now] by metis
    with Nil \<open>readyEdfThreads st = []\<close> show ?thesis
      by (simp add: edf_schedule_plain_def ts_dequeueOne_def fq_dequeueOne_def edf_ran_followup Let_def)
  qed
qed

lemma edf_schedule_affine_ran:
  assumes inv: "edf_inv (edf_park core st)" and core: "core < length (idle (kern st))"
  shows "edf_ran core st (case find (\<lambda>t. affine (affinity (threads (kern st) t)) core) (readyEdfThreads st @ readyRrThreads st) of
       None \<Rightarrow> idle (kern st) ! core | Some t \<Rightarrow> t) (edf_schedule_affine cfg now core st)"
proof -
  let ?aff = "\<lambda>t. affinity (threads (kern st) t)" and ?rd = "runningDeadline core st"
  let ?P = "\<lambda>t. affine (?aff t) core"
  obtain sel1 edf oc1 where s1: "edf_scan ?aff (\<lambda>x r. \<not> r < dl st x) core ?rd (readyEdfThreads st) None = (sel1, edf, oc1)"
    by (metis prod_cases3)
  obtain sel2 rr oc2 where s2: "edf_scan ?aff (\<lambda>x r. r = max_ll - 1) core ?rd (readyRrThreads st) oc1 = (sel2, rr, oc2)"
    by (metis prod_cases3)
  show ?thesis
  proof (cases "find ?P (readyEdfThreads st)")
    case (Some t)
    then obtain it where "sel1 = Some (t, it)" "edf = remove1 t (readyEdfThreads st)" "t \<in> set (readyEdfThreads st)"
      using edf_scan_spec[OF s1] by auto
    then show ?thesis using edf_ran_take(1)[OF inv core, of t cfg now] s1 Some
      by (simp add: edf_schedule_affine_def find_append edf_ran_followup Let_def)
  next
    case None
    then have n: "sel1 = None" using edf_scan_spec[OF s1] by simp
    show ?thesis
    proof (cases "find ?P (readyRrThreads st)")
      case (Some t)
      then obtain it where "sel2 = Some (t, it)" "rr = remove1 t (readyRrThreads st)" "t \<in> set (readyRrThreads st)"
        using edf_scan_spec[OF s2] by auto
      then show ?thesis using edf_ran_take(2)[OF inv core, of t cfg now] s1 s2 n None Some
        by (simp add: edf_schedule_affine_def find_append edf_ran_followup Let_def)
    next
      case none2: None
      then have "sel2 = None" using edf_scan_spec[OF s2] by simp
      then show ?thesis using edf_ran_idle[OF inv core, of cfg now] s1 s2 n None none2
        by (simp add: edf_schedule_affine_def find_append edf_ran_followup Let_def)
    qed
  qed
qed

lemma edf_run_ran:
  assumes inv: "edf_inv st" and c: "can_schedule core (kern st)"
  shows "\<exists>st'. edf_IRQrunScheduler cfg now core st = Inr st' \<and> edf_inv st' \<and> mset (edf_all st') = mset (edf_all st)
     \<and> threads (kern st') = threads (kern st)
     \<and> runningThreads (kern st') = (runningThreads (kern st))[core := edf_choice cfg core st]"
proof -
  have core: "core < length (idle (kern st))" using c by (simp add: can_schedule_def)
  let ?s1 = "edf_put_prev core st"
  note p = edf_put_prev_spec[OF inv core]
  have E: "readyEdfThreads ?s1 = fst (edf_after core st)" "readyRrThreads ?s1 = snd (edf_after core st)"
    using p(3) by (metis fst_conv snd_conv)+
  have core1: "core < length (idle (kern ?s1))" using core p(5) by simp
  have r: "edf_IRQrunScheduler cfg now core st = Inr (if with_affinity cfg \<and> with_smp cfg then edf_schedule_affine cfg now core ?s1
                    else edf_schedule_plain cfg now core ?s1)"
    using c by (simp add: edf_IRQrunScheduler_def IRQstackOverflowCheck_def can_schedule_def Let_def)
  have f: "find (\<lambda>t. True) xs = (case xs of [] \<Rightarrow> None | x # _ \<Rightarrow> Some x)" for xs :: "tid list" by (cases xs) auto
  have ch: "edf_choice cfg core st = (if with_affinity cfg \<and> with_smp cfg
      then (case find (\<lambda>t. affine (affinity (threads (kern ?s1) t)) core) (readyEdfThreads ?s1 @ readyRrThreads ?s1) of
       None \<Rightarrow> idle (kern ?s1) ! core | Some t \<Rightarrow> t)
      else (case readyEdfThreads ?s1 @ readyRrThreads ?s1 of [] \<Rightarrow> idle (kern ?s1) ! core | t # _ \<Rightarrow> t))"
    by (auto simp: edf_choice_def edf_may_run_def E p(4,5) f split: prod.splits list.splits option.splits)
  have "edf_ran core ?s1 (edf_choice cfg core st) (if with_affinity cfg \<and> with_smp cfg then edf_schedule_affine cfg now core ?s1
                    else edf_schedule_plain cfg now core ?s1)"
    unfolding ch using edf_schedule_plain_ran[OF p(1) core1] edf_schedule_affine_ran[OF p(1) core1] by simp
  with r p(2,4,6) show ?thesis by (simp add: edf_ran_def)
qed

text \<open>Changing the deadline of one thread that is in neither ready queue.\<close>

lemma edf_inv_lists:
  assumes inv: "edf_inv st" and k: "runningThreads (kern st') = runningThreads (kern st)" "idle (kern st') = idle (kern st)"
    and all: "mset (edf_all st') = mset (edf_all st)"
    and e: "ts_inv (dl st') (readyEdfThreads st')" "list_all (\<lambda>t. isReady (eflags st' t) \<and> real_time (dl st' t)) (readyEdfThreads st')"
    and r: "list_all (\<lambda>t. isReady (eflags st' t) \<and> dl st' t = max_ll - 2) (readyRrThreads st')"
    and n: "list_all (\<lambda>t. \<not> isReady (eflags st' t) \<and> dl st' t \<noteq> max_ll - 1) (notReadyThreads (kern st'))"
      "sorted_wrt (\<lambda>x y. isZombie (eflags st' x) \<longrightarrow> isZombie (eflags st' y)) (notReadyThreads (kern st'))"
    and b: "list_all (\<lambda>t. dl st' t \<noteq> max_ll - 1) (busy (kern st))"
    and i: "\<And>t. t \<in> set (idle (kern st)) \<Longrightarrow> threads (kern st') t = threads (kern st) t"
  shows "edf_inv st'"
proof -
  note d = edf_invD[OF inv]
  have "busy (kern st') = busy (kern st)" by (simp add: busy_def k)
  moreover have "idle_home (kern st')" using idle_home_cong[OF k] d(4) by simp
  moreover have "list_all (\<lambda>t. dl st' t = max_ll - 1 \<and> isReady (eflags st' t)) (idle (kern st))"
    using d(10) i by (simp add: list_all_iff)
  ultimately show ?thesis
    unfolding edf_inv_def using d(1,2,3) distinct_mset[OF all] e r n b k by simp
qed

lemma edf_disjoint:
  assumes "edf_inv st"
  shows "t \<in> set (readyEdfThreads st) \<Longrightarrow> t \<notin> set (readyRrThreads st) \<and> t \<notin> set (notReadyThreads (kern st)) \<and> t \<notin> set (busy (kern st)) \<and> t \<notin> set (idle (kern st))"
    "t \<in> set (readyRrThreads st) \<Longrightarrow> t \<notin> set (readyEdfThreads st) \<and> t \<notin> set (notReadyThreads (kern st)) \<and> t \<notin> set (busy (kern st)) \<and> t \<notin> set (idle (kern st))"
    "t \<in> set (notReadyThreads (kern st)) \<Longrightarrow> t \<notin> set (readyEdfThreads st) \<and> t \<notin> set (readyRrThreads st) \<and> t \<notin> set (busy (kern st)) \<and> t \<notin> set (idle (kern st))"
    "t \<in> set (busy (kern st)) \<Longrightarrow> t \<notin> set (readyEdfThreads st) \<and> t \<notin> set (readyRrThreads st) \<and> t \<notin> set (notReadyThreads (kern st)) \<and> t \<notin> set (idle (kern st))"
  using edf_invD(3)[OF assms] by (auto simp: edf_all_def)

lemma edf_running: "edf_inv st \<Longrightarrow> t \<in> set (runningThreads (kern st)) \<Longrightarrow> t \<notin> set (idle (kern st)) \<Longrightarrow> t \<in> set (busy (kern st))"
  by (simp add: busy_def)

lemma set_deadline_fields [simp]:
  "readyEdfThreads (set_deadline t p st) = readyEdfThreads st" "readyRrThreads (set_deadline t p st) = readyRrThreads st"
  "runningThreads (kern (set_deadline t p st)) = runningThreads (kern st)" "idle (kern (set_deadline t p st)) = idle (kern st)"
  "notReadyThreads (kern (set_deadline t p st)) = notReadyThreads (kern st)"
  "eflags (set_deadline t p st) x = eflags st x" "dl (set_deadline t p st) x = (if x = t then p else dl st x)"
  "busy (kern (set_deadline t p st)) = busy (kern st)"
  by (simp_all add: set_deadline_def busy_def)

lemma edf_setPriority_inv:
  assumes inv: "edf_inv st" and t: "t \<in> set (edf_all st)" "t \<notin> set (idle (kern st))"
    and z: "ck = Kernel \<longrightarrow> \<not> isZombie (eflags st t)" and p: "p \<noteq> max_ll - 1"
    and same: "t \<in> set (readyEdfThreads st) \<Longrightarrow> p \<noteq> max_ll - 2" "t \<in> set (readyRrThreads st) \<Longrightarrow> p = max_ll - 2"
  shows "\<exists>st'. edf_IRQsetPriority ck t p st = Inr st' \<and> edf_inv st' \<and> mset (edf_all st') = mset (edf_all st) \<and> dl st' t = p"
proof -
  note d = edf_invD[OF inv] and dj = edf_disjoint[OF inv, of t]
  have frame: "\<And>x. x \<in> set (idle (kern st)) \<Longrightarrow> threads (kern (set_deadline t p st)) x = threads (kern st) x"
    using t(2) by (auto simp: set_deadline_def)
  consider (edf) "t \<in> set (readyEdfThreads st)" | (rr) "t \<in> set (readyRrThreads st)"
    | (other) "t \<in> set (notReadyThreads (kern st)) \<or> t \<in> set (busy (kern st))" using t by (auto simp: edf_all_def)
  then show ?thesis
  proof cases
    case edf
    have nr: "t \<notin> set (runningThreads (kern st))" using dj(1)[OF edf] t(2) edf_running[OF inv] by blast
    have rdy: "isReady (eflags st t)" "dl st t \<noteq> max_ll - 2" using edf d(6) by (auto simp: list_all_iff real_time_def)
    let ?q = "remove1 t (readyEdfThreads st)"
    let ?s = "(set_deadline t p st)\<lparr>readyEdfThreads := ts_enqueue (dl (set_deadline t p st)) t ?q\<rparr>"
    have e: "edf_IRQsetPriority ck t p st = Inr ?s"
      using nr rdy same(1)[OF edf] z dj(1)[OF edf]
      by (simp add: edf_IRQsetPriority_def ensure_def ts_remove_def edf_enqueue_def RR_DEADLINE_def set_deadline_def Let_def cong: if_cong)
    have q: "ts_inv (dl st) ?q" "t \<notin> set ?q" using ts_inv_remove1[OF d(5)] d(5) by (simp_all add: ts_inv_def)
    have cong: "ts_inv (dl (set_deadline t p st)) ?q" using ts_inv_cong[of ?q "dl (set_deadline t p st)" "dl st"] q by fastforce
    have "edf_inv ?s"
    proof (rule edf_inv_lists[OF inv])
      show "mset (edf_all ?s) = mset (edf_all st)"
        using edf by (simp add: edf_all_def mset_ts_enqueue)
      show "ts_inv (dl ?s) (readyEdfThreads ?s)" using ts_enqueue_inv[OF cong q(2)] by (simp add: fun_eq_iff)
      show "list_all (\<lambda>x. isReady (eflags ?s x) \<and> real_time (dl ?s x)) (readyEdfThreads ?s)"
        using d(6) rdy(1) p same(1)[OF edf] notin_set_remove1[of _ "readyEdfThreads st" t]
        by (auto simp: list_all_iff set_ts_enqueue real_time_def dest: notin_set_remove1)
    qed (use d dj(1)[OF edf] frame t(2) in \<open>auto simp: list_all_iff\<close>)
    then show ?thesis using e edf by (simp add: edf_all_def mset_ts_enqueue)
  next
    case rr
    have nr: "t \<notin> set (runningThreads (kern st))" using dj(2)[OF rr] t(2) edf_running[OF inv] by blast
    have rdy: "isReady (eflags st t)" "dl st t = max_ll - 2" using rr d(7) by (auto simp: list_all_iff)
    have "set_deadline t p st = st"
      using rdy(2) same(2)[OF rr] by (cases st) (simp add: set_deadline_def upd_thread_def fun_upd_idem)
    then show ?thesis using inv nr rdy same(2)[OF rr] z by (simp add: edf_IRQsetPriority_def ensure_def Let_def)
  next
    case other
    have nq: "t \<notin> set (readyEdfThreads st)" "t \<notin> set (readyRrThreads st)" using dj(3,4) other by blast+
    have "t \<in> set (runningThreads (kern st)) \<or> \<not> isReady (eflags st t)"
      using other d(8) by (auto simp: busy_def list_all_iff)
    then have e: "edf_IRQsetPriority ck t p st = Inr (set_deadline t p st)"
      using z by (auto simp: edf_IRQsetPriority_def ensure_def)
    have all: "edf_all (set_deadline t p st) = edf_all st" by (simp add: edf_all_def)
    have cong: "ts_inv (dl (set_deadline t p st)) (readyEdfThreads st)"
      using ts_inv_cong[of "readyEdfThreads st" "dl (set_deadline t p st)" "dl st"] nq d(5) by fastforce
    have "edf_inv (set_deadline t p st)"
    proof (rule edf_inv_lists[OF inv])
      show "ts_inv (dl (set_deadline t p st)) (readyEdfThreads (set_deadline t p st))" using cong by simp
      show "list_all (\<lambda>x. \<not> isReady (eflags (set_deadline t p st) x) \<and> dl (set_deadline t p st) x \<noteq> max_ll - 1) (notReadyThreads (kern (set_deadline t p st)))"
        using d(8) p by (simp add: list_all_iff)
      show "list_all (\<lambda>x. dl (set_deadline t p st) x \<noteq> max_ll - 1) (busy (kern st))"
        using d(9) p by (simp add: list_all_iff)
    qed (use d nq frame t(2) all in \<open>auto simp: list_all_iff\<close>)
    then show ?thesis using e all by simp
  qed
qed

text \<open>A thread in no list: the scheduler does not look at it.\<close>

lemma edf_fresh:
  assumes inv: "edf_inv st" and t: "t \<notin> set (edf_all st)"
  shows "edf_inv (st\<lparr>kern := upd_thread t f (kern st)\<rparr>)" (is "edf_inv ?s")
proof -
  note d = edf_invD[OF inv]
  have out: "t \<notin> set (readyEdfThreads st)" "t \<notin> set (readyRrThreads st)" "t \<notin> set (notReadyThreads (kern st))"
    "t \<notin> set (busy (kern st))" "t \<notin> set (idle (kern st))" using t by (auto simp: edf_all_def)
  have same: "\<And>x. x \<noteq> t \<Longrightarrow> threads (kern ?s) x = threads (kern st) x" by simp
  show ?thesis
  proof (rule edf_inv_lists[OF inv])
    show "mset (edf_all ?s) = mset (edf_all st)" by (simp add: edf_all_def busy_def)
    show "ts_inv (dl ?s) (readyEdfThreads ?s)"
      using ts_inv_cong[of "readyEdfThreads st" "dl ?s" "dl st"] d(5) out(1) same by fastforce
    show "sorted_wrt (\<lambda>x y. isZombie (eflags ?s x) \<longrightarrow> isZombie (eflags ?s y)) (notReadyThreads (kern ?s))"
      using d(11) out(3) by (auto elim!: sorted_wrt_mono_rel[rotated] split: if_splits)
  qed (use d out in \<open>auto simp: list_all_iff\<close>)
qed

lemma edf_enqueue_inv:
  assumes inv: "edf_inv st" and t: "t \<notin> set (edf_all st)" and r: "isReady (eflags st t)" "dl st t \<noteq> max_ll - 1"
  shows "edf_inv (edf_enqueue t st)" "mset (edf_all (edf_enqueue t st)) = add_mset t (mset (edf_all st))"
proof -
  note d = edf_invD[OF inv]
  let ?s = "edf_enqueue t st"
  have k: "kern ?s = kern st" by (simp add: edf_enqueue_def)
  show all: "mset (edf_all ?s) = add_mset t (mset (edf_all st))"
    by (simp add: edf_enqueue_def edf_all_def fq_enqueue_def mset_ts_enqueue)
  have "distinct (t # edf_all st)" using d(3) t by simp
  then have dist: "distinct (edf_all ?s)" using distinct_mset[of "edf_all ?s" "t # edf_all st"] all by simp
  have tn: "t \<notin> set (readyEdfThreads st)" using t by (simp add: edf_all_def)
  have q: "ts_inv (dl st) (readyEdfThreads ?s)" using ts_enqueue_inv[OF d(5) tn] d(5) by (simp add: edf_enqueue_def)
  have e: "list_all (\<lambda>t. isReady (eflags st t) \<and> real_time (dl st t)) (readyEdfThreads ?s)"
    using d(6) r by (auto simp: edf_enqueue_def list_all_iff set_ts_enqueue real_time_def RR_DEADLINE_def)
  have rr: "list_all (\<lambda>t. isReady (eflags st t) \<and> dl st t = max_ll - 2) (readyRrThreads ?s)"
    using d(7) r by (auto simp: edf_enqueue_def list_all_iff fq_enqueue_def RR_DEADLINE_def)
  show "edf_inv ?s" unfolding edf_inv_def using d dist q e rr by (simp add: k)
qed

lemma edf_drop:
  assumes inv: "edf_inv st" and t: "t \<in> set (notReadyThreads (kern st))"
  defines "st1 \<equiv> st\<lparr>kern := (kern st)\<lparr>notReadyThreads := remove1 t (notReadyThreads (kern st))\<rparr>\<rparr>"
  shows "edf_inv st1" "t \<notin> set (edf_all st1)" "add_mset t (mset (edf_all st1)) = mset (edf_all st)"
proof -
  note d = edf_invD[OF inv]
  show all: "add_mset t (mset (edf_all st1)) = mset (edf_all st)"
    using t by (simp add: st1_def edf_all_def busy_def)
  then have "distinct (t # edf_all st1)" using distinct_mset[of "t # edf_all st1" "edf_all st"] d(3) by simp
  then have dist: "t \<notin> set (edf_all st1)" "distinct (edf_all st1)" by simp_all
  then show "t \<notin> set (edf_all st1)" by simp
  have n: "list_all P (remove1 t ys)" if "list_all P ys" for P and ys :: "tid list"
    using that by (meson list_all_iff notin_set_remove1)
  have so: "sorted_wrt P (remove1 t ys)" if "sorted_wrt P ys" for P and ys :: "tid list"
    using that by (induction ys) (auto dest: notin_set_remove1)
  show "edf_inv st1" unfolding edf_inv_def
    using d dist(2) n[OF d(8)] so[OF d(11)] idle_home_cong[of "kern st1" "kern st"]
    by (simp add: st1_def busy_def)
qed

text \<open>Waking a thread: its flags have been changed to ready, and the scheduler moves it to a ready queue.\<close>

lemma edf_woken_inv:
  assumes inv: "edf_inv st" and t: "t \<in> set (notReadyThreads (kern st))" and f: "isReady f"
  shows "\<exists>st'. edf_IRQwokenThread t (st\<lparr>kern := upd_thread t (\<lambda>th. th\<lparr>tflags := f\<rparr>) (kern st)\<rparr>) = Inr st'
     \<and> edf_inv st' \<and> mset (edf_all st') = mset (edf_all st) \<and> t \<in> set (readyEdfThreads st') \<union> set (readyRrThreads st')"
proof -
  note d = edf_invD[OF inv]
  let ?f = "\<lambda>th. th\<lparr>tflags := f\<rparr>" and ?n = "remove1 t (notReadyThreads (kern st))"
  let ?s = "st\<lparr>kern := (kern st)\<lparr>notReadyThreads := ?n\<rparr>\<rparr>"
  let ?u = "?s\<lparr>kern := upd_thread t ?f (kern ?s)\<rparr>"
  note dr = edf_drop[OF inv t]
  have nr: "t \<notin> set (runningThreads (kern st))"
    using edf_disjoint(3)[OF inv t] edf_running[OF inv] by blast
  have u: "edf_inv ?u" "edf_all ?u = edf_all ?s"
    using edf_fresh[OF dr(1,2), of ?f] by (simp_all add: edf_all_def busy_def)
  have dlu: "isReady (eflags ?u t)" "dl ?u t \<noteq> max_ll - 1" using f d(8) t by (simp_all add: list_all_iff)
  have tu: "t \<notin> set (edf_all ?u)" using dr(2) u(2) by simp
  note q = edf_enqueue_inv[OF u(1) tu dlu]
  have sw: "(upd_thread t ?f (kern st))\<lparr>notReadyThreads := ?n\<rparr> = upd_thread t ?f ((kern st)\<lparr>notReadyThreads := ?n\<rparr>)"
    by (simp add: upd_thread_def)
  have e: "edf_IRQwokenThread t (st\<lparr>kern := upd_thread t ?f (kern st)\<rparr>) = Inr (edf_enqueue t ?u)"
    using nr t by (simp add: edf_IRQwokenThread_def sw)
  have "t \<in> set (readyEdfThreads (edf_enqueue t ?u)) \<union> set (readyRrThreads (edf_enqueue t ?u))"
    by (simp add: edf_enqueue_def fq_enqueue_def set_ts_enqueue)
  then show ?thesis using e q dr(3) u(2) by (metis (no_types, lifting))
qed

lemma edf_add_inv:
  assumes inv: "edf_inv st" and t: "t \<notin> set (edf_all st)" "\<not> isZombie (eflags st t)" and p: "edf_validate p"
    and f: "\<not> with_processes cfg \<Longrightarrow> isReady (eflags st t)"
  shows "\<exists>st'. edf_IRQaddThread cfg t p st = (True, st') \<and> edf_inv st' \<and> mset (edf_all st') = add_mset t (mset (edf_all st))"
proof -
  let ?u = "st\<lparr>kern := upd_thread t (\<lambda>th. th\<lparr>priority := p, savedPriority := p\<rparr>) (kern st)\<rparr>"
  have u: "edf_inv ?u" "edf_all ?u = edf_all st"
    using edf_fresh[OF inv t(1)] by (simp_all add: edf_all_def busy_def)
  have tu: "t \<notin> set (edf_all ?u)" "eflags ?u t = eflags st t" "dl ?u t \<noteq> max_ll - 1" using u(2) t p by (simp_all add: edf_validate_def)
  show ?thesis
  proof (cases "isReady (eflags st t)")
    case True
    then show ?thesis using edf_enqueue_inv[OF u(1) tu(1)] tu u(2) by (simp add: edf_IRQaddThread_def Let_def)
  next
    case False
    note d = edf_invD[OF u(1)]
    let ?s = "edf_push_notReady t ?u"
    have m: "mset (edf_all ?s) = add_mset t (mset (edf_all st))"
      by (simp add: edf_push_notReady_def edf_all_def busy_def)
    have "distinct (edf_all ?s)" using distinct_mset[of "edf_all ?s" "t # edf_all st"] m t(1) edf_invD(3)[OF inv] by simp
    moreover have "sorted_wrt (\<lambda>x y. isZombie (eflags ?u x) \<longrightarrow> isZombie (eflags ?u y)) (t # notReadyThreads (kern ?u))"
      using d(11) t(2) by simp
    moreover have "list_all (\<lambda>x. \<not> isReady (eflags ?u x) \<and> dl ?u x \<noteq> max_ll - 1) (t # notReadyThreads (kern ?u))"
      using d(8) False tu by simp
    ultimately have "edf_inv ?s"
      unfolding edf_inv_def using d(1-7,9,10) idle_home_cong[of "kern ?s" "kern ?u"]
      by (simp add: edf_push_notReady_def busy_def)
    then show ?thesis using False f m by (auto simp: edf_IRQaddThread_def Let_def)
  qed
qed

section \<open>The scheduler interface\<close>

lemma edf_fields_followup [simp]:
  "holdingCore (kern (edf_invoke c st)) = holdingCore (kern st)" "idle (kern (edf_invoke c st)) = idle (kern st)"
  "holdingCore (kern (edf_followup_plain st)) = holdingCore (kern st)" "idle (kern (edf_followup_plain st)) = idle (kern st)"
  "holdingCore (kern (edf_followup_affine rd oc a b st)) = holdingCore (kern st)"
  "idle (kern (edf_followup_affine rd oc a b st)) = idle (kern st)"
  "holdingCore (kern (edf_dispatch cfg now core t st)) = holdingCore (kern st)"
  "idle (kern (edf_dispatch cfg now core t st)) = idle (kern st)"
  "holdingCore (kern (edf_put_prev core st)) = holdingCore (kern st)"
  "idle (kern (edf_put_prev core st)) = idle (kern st)"
  by (simp_all add: edf_invoke_def edf_followup_plain_def edf_followup_affine_def edf_dispatch_def edf_put_prev_def
      edf_push_notReady_def edf_enqueue_def Let_def split: option.split prod.split)

lemma edf_run_fields:
  assumes "edf_IRQrunScheduler cfg now core st = Inr st'"
  shows "holdingCore (kern st') = holdingCore (kern st)" "idle (kern st') = idle (kern st)"
  using assms
  by (auto simp: edf_IRQrunScheduler_def rbind_def IRQstackOverflowCheck_def ensure_def Let_def edf_schedule_affine_def edf_schedule_plain_def
      split: sum.splits if_splits prod.splits option.splits)

abbreviation edf_wake_with :: "tid \<Rightarrow> 8 word \<Rightarrow> edf_state \<Rightarrow> edf_state result" where
  "edf_wake_with t f st \<equiv> edf_IRQwokenThread t (st\<lparr>kern := upd_thread t (\<lambda>th. th\<lparr>tflags := f\<rparr>) (kern st)\<rparr>)"

lemma edf_woken_fields:
  assumes "edf_wake_with t f st = Inr st'"
  shows "runnable (kern st') = runnable (kern st)" "idle (kern st') = idle (kern st)"
  using assms
  by (auto simp: edf_IRQwokenThread_def rbind_def ensure_def edf_enqueue_def runnable_def upd_thread_def split: if_splits)

interpretation edf_sched: basic_scheduler "\<lambda>st. edf_inv st \<and> runnable (kern st)" "\<lambda>st. mset (edf_all st)"
  "\<lambda>st. length (idle (kern st))" "edf_IRQrunScheduler cfg" edf_wake_with "\<lambda>st. notReadyThreads (kern st)"
proof (unfold_locales, goal_cases)
  case (1 st core now)
  then have "can_schedule core (kern st)" by (simp add: can_schedule_def runnable_def)
  then obtain st' where "edf_IRQrunScheduler cfg now core st = Inr st'" "edf_inv st'"
      "mset (edf_all st') = mset (edf_all st)" "threads (kern st') = threads (kern st)"
    using edf_run_ran 1 by blast
  then show ?case using 1 edf_run_fields[of cfg now core st st'] by (simp add: runnable_def)
next
  case (2 st t f)
  then obtain st' where "edf_wake_with t f st = Inr st'" "edf_inv st'" "mset (edf_all st') = mset (edf_all st)"
    using edf_woken_inv[of st t f] by blast
  then show ?case using 2 edf_woken_fields[of t f st st'] by simp
qed

section \<open>Properties\<close>

text \<open>One core: idle thread 0, the round-robin threads 2 and 3, the first of them running, and the
  real-time threads 4 and 5 of deadlines 200 and 100.\<close>

definition demo_edf :: edf_state where
  "demo_edf = \<lparr>kern = demo_state (\<lambda>t. if t = 0 then demo_thread (max_ll - 1) 1 0
       else if t = 4 then demo_thread 200 1 0 else if t = 5 then demo_thread 100 1 0
       else demo_thread (max_ll - 2) 1 0) [2] [] [],
     readyEdfThreads = [5, 4], readyRrThreads = [3]\<rparr>"

lemma demo_edf_inv: "edf_inv demo_edf"
  by (simp add: edf_inv_def demo_edf_def demo_state_def demo_thread_def edf_all_def busy_def idle_home_def
      ts_inv_def real_time_def isReady_def max_ll_def)

lemma demo_edf_can: "can_schedule 0 (kern demo_edf)" "runnable (kern demo_edf)"
  by (simp_all add: can_schedule_def runnable_def demo_edf_def demo_state_def demo_thread_def)

text \<open>What the first thread of a sorted queue that satisfies a condition is.\<close>

lemma find_sorted:
  assumes "sorted_wrt (\<lambda>x y. d x \<le> d y) xs" "find P xs = Some t"
  shows "t \<in> set xs \<and> P t \<and> (\<forall>x \<in> set xs. P x \<longrightarrow> d t \<le> (d x :: int))"
  using assms by (induction xs) (auto split: if_splits)

lemma edf_after_queues:
  assumes inv: "edf_inv st" and core: "core < length (idle (kern st))"
  shows "sorted_wrt (\<lambda>x y. dl st x \<le> dl st y) (fst (edf_after core st))"
proof -
  note p = edf_put_prev_spec[OF inv core]
  have "fst (edf_after core st) = readyEdfThreads (edf_put_prev core st)" using p(3) by (metis fst_conv)
  then have "ts_inv (dl st) (fst (edf_after core st))" using edf_invD(5)[OF p(1)] p(4) by (simp add: edf_park_def)
  then show ?thesis by (simp add: ts_inv_def sorted_wrt_map)
qed




definition demo_edf_blocked :: edf_state where
  "demo_edf_blocked = \<lparr>kern = demo_state (\<lambda>t. if t = 0 then demo_thread (max_ll - 1) 1 0
       else if t = 4 then demo_thread 200 1 WAIT else if t = 5 then demo_thread 100 1 0
       else demo_thread (max_ll - 2) 1 0) [2] [] [4],
     readyEdfThreads = [5], readyRrThreads = [3]\<rparr>"

lemma demo_edf_blocked_inv: "edf_inv demo_edf_blocked"
  by (simp add: edf_inv_def demo_edf_blocked_def demo_state_def demo_thread_def edf_all_def busy_def idle_home_def
      ts_inv_def real_time_def isReady_def max_ll_def WAIT_def)


text \<open>Giving a deadline to a ready round-robin thread leaves it in the round-robin queue: the
  invariant is lost. The next change of its deadline to another real-time deadline removes it from
  the list of real-time threads, in which it is not, and corrupts the lists.\<close>

theorem edf_deadline_of_ready_rr_thread:
  assumes "edf_inv st" and "t \<in> set (readyRrThreads st)" and "p \<noteq> RR_DEADLINE" "q \<noteq> RR_DEADLINE"
    and "\<not> isZombie (eflags st t)"
  shows "\<exists>st1. edf_IRQsetPriority ck t p st = Inr st1 \<and> dl st1 t = p \<and> t \<in> set (readyRrThreads st1)
     \<and> t \<notin> set (readyEdfThreads st1) \<and> \<not> edf_inv st1
     \<and> edf_IRQsetPriority ck t q st1 = Inl ListCorruption"
proof -
  note d = edf_invD[OF assms(1)] and dj = edf_disjoint(2)[OF assms(1,2)]
  have nr: "t \<notin> set (runningThreads (kern st))" using dj edf_running[OF assms(1)] by blast
  have rr: "isReady (eflags st t)" "dl st t = max_ll - 2" using d(7) assms(2) by (auto simp: list_all_iff)
  have e: "edf_IRQsetPriority ck t p st = Inr (set_deadline t p st)"
    using nr rr assms(5) by (simp add: edf_IRQsetPriority_def ensure_def)
  have "\<not> edf_inv (set_deadline t p st)"
    using edf_invD(7)[of "set_deadline t p st"] assms(2,3) by (auto simp: list_all_iff RR_DEADLINE_def dest!: bspec[of _ _ t])
  moreover have "edf_IRQsetPriority ck t q (set_deadline t p st) = Inl ListCorruption"
    using nr rr assms(2-5) by (simp add: edf_IRQsetPriority_def ensure_def RR_DEADLINE_def)
  ultimately show ?thesis using e dj assms(2) by (intro exI[of _ "set_deadline t p st"]) simp
qed

theorem edf_deadline_of_ready_rr_thread_witness:
  "\<exists>st1. edf_IRQsetPriority NoChecks 3 50 demo_edf = Inr st1 \<and> edf_IRQsetPriority NoChecks 3 60 st1 = Inl ListCorruption"
proof -
  have "3 \<in> set (readyRrThreads demo_edf)" "(50 :: int) \<noteq> RR_DEADLINE" "(60 :: int) \<noteq> RR_DEADLINE"
    "\<not> isZombie (eflags demo_edf 3)"
    by (simp_all add: demo_edf_def demo_state_def demo_thread_def isZombie_def RR_DEADLINE_def max_ll_def)
  from edf_deadline_of_ready_rr_thread[OF demo_edf_inv this, of NoChecks] show ?thesis by blast
qed

end
