(* ===== verification/Time_Conversion.thy ===== *)
theory Time_Conversion
  imports Miosix_Prelude
begin

text \<open>
  The conversion between timer ticks and nanoseconds of \<^verbatim>\<open>kernel/timeconversion.h\<close> and
  \<^verbatim>\<open>kernel/timeconversion.cpp\<close>: the multiplications on 32 and 64 bits in their three versions, the
  fixed point conversion, the offline optimisation of the coefficients, the online adjustment with its
  cache, and the coarse conversion of time slices.

  The constructor of \<^verbatim>\<open>TimeConversion\<close> computes the two initial factors in single precision floating
  point; the model takes them as arguments.
\<close>

unbundle bit_operations_syntax

section \<open>Multiplications\<close>

definition lo :: "64 word \<Rightarrow> 32 word" where
  "lo x = ucast (x AND 0xffffffff)"

definition hi :: "64 word \<Rightarrow> 32 word" where
  "hi x = ucast (drop_bit 32 x)"

definition mul32x32to64 :: "32 word \<Rightarrow> 32 word \<Rightarrow> 64 word" where
  "mul32x32to64 a b = ucast a * ucast b"

text \<open>The version for processors without a long multiplication.\<close>

definition mul32x32to64_no_asm :: "32 word \<Rightarrow> 32 word \<Rightarrow> 64 word" where
  "mul32x32to64_no_asm a b =
     (let t0 = (a AND 0xFFFF) * (b AND 0xFFFF);
          t1 = drop_bit 16 a * drop_bit 16 b;
          res = ucast t0 OR push_bit 32 (ucast t1);
          res1 = res + push_bit 16 (ucast (drop_bit 16 a * (b AND 0xFFFF)));
          res2 = res1 + push_bit 16 (ucast ((a AND 0xFFFF) * drop_bit 16 b))
      in res2)"

text \<open>The Thumb assembly version: the instructions in their order on the registers \<open>t0\<close> to \<open>t4\<close>,
  \<^verbatim>\<open>adds\<close> giving the carry that \<^verbatim>\<open>adcs\<close> uses.\<close>

definition carry :: "32 word \<Rightarrow> 32 word \<Rightarrow> 32 word" where
  "carry x y = (if 2 ^ 32 \<le> unat x + unat y then 1 else 0)"

definition mul32x32to64_asm :: "32 word \<Rightarrow> 32 word \<Rightarrow> 64 word" where
  "mul32x32to64_asm a b =
     (let t0 = a; t1 = b;
          t3 = push_bit 16 t0; t3 = drop_bit 16 t3;
          t4 = push_bit 16 t1; t4 = drop_bit 16 t4;
          t2 = t3; t2 = t2 * t4;
          t0 = drop_bit 16 t0; t4 = t4 * t0;
          t1 = drop_bit 16 t1; t3 = t3 * t1;
          t1 = t1 * t0;
          t0 = push_bit 16 t4; t4 = drop_bit 16 t4;
          c = carry t0 t2; t0 = t0 + t2; t1 = t1 + t4 + c;
          t2 = push_bit 16 t3; t3 = drop_bit 16 t3;
          c = carry t0 t2; t0 = t0 + t2; t1 = t1 + t3 + c
      in ucast t0 OR push_bit 32 (ucast t1))"

definition mul64x32d32 :: "64 word \<Rightarrow> 32 word \<Rightarrow> 32 word \<Rightarrow> 64 word" where
  "mul64x32d32 a bi bf =
     (let aLo = lo a; aHi = hi a;
          result = mul32x32to64 bi aLo;
          result = result + mul32x32to64 bf aHi;
          bfaLo = mul32x32to64 bf aLo;
          result = result + ucast (hi bfaLo);
          result = result + push_bit 32 (ucast (bi * aHi))
      in result)"

section \<open>Conversion\<close>

record TimeConversionFactor =
  integerPart :: "32 word"
  fractionalPart :: "32 word"

text \<open>\<^verbatim>\<open>operator+\<close>: the sum wraps.\<close>

definition factor_add :: "TimeConversionFactor \<Rightarrow> int \<Rightarrow> TimeConversionFactor" where
  "factor_add tcf delta = tcf\<lparr>fractionalPart := fractionalPart tcf + of_int delta\<rparr>"

definition convert :: "64 word \<Rightarrow> TimeConversionFactor \<Rightarrow> 64 word" where
  "convert x tcf = mul64x32d32 x (integerPart tcf) (fractionalPart tcf)"

record TimeConversion =
  toNs :: TimeConversionFactor
  toTick :: TimeConversionFactor
  adjustIntervalNs :: "64 word"
  lastAdjustTimeNs :: "64 word"
  adjustOffsetNs :: "64 word"

text \<open>Signed 64 bit numbers are words read by \<open>sint\<close>.\<close>

definition sign :: "64 word \<Rightarrow> bool" where
  "sign x = (0 \<le> sint x)"

definition uabs :: "64 word \<Rightarrow> 64 word" where
  "uabs x = (if sign x then x else - x)"

definition tick2ns :: "TimeConversion \<Rightarrow> 64 word \<Rightarrow> 64 word" where
  "tick2ns tc tick = convert tick (toNs tc)"

text \<open>The loop of \<^verbatim>\<open>ns2tick\<close>, with the number of iterations left.\<close>

fun adjust_loop :: "nat \<Rightarrow> 64 word \<Rightarrow> TimeConversion \<Rightarrow> TimeConversion" where
  "adjust_loop 0 uns tc = tc"
| "adjust_loop (Suc i) uns tc =
     (let guess = uns + adjustOffsetNs tc;
          last = convert (convert guess (toTick tc)) (toNs tc);
          tc1 = tc\<lparr>lastAdjustTimeNs := last, adjustOffsetNs := guess - last\<rparr>
      in if uabs (uns - last) < drop_bit 1 (adjustIntervalNs tc) then tc1 else adjust_loop i uns tc1)"

definition ns2tick :: "64 word \<Rightarrow> TimeConversion \<Rightarrow> 64 word \<times> TimeConversion" where
  "ns2tick uns tc =
     (let tc1 = (if uabs (uns - lastAdjustTimeNs tc) > adjustIntervalNs tc
                 then adjust_loop 5 uns (tc\<lparr>adjustOffsetNs := 0\<rparr>) else tc)
      in (convert (uns + adjustOffsetNs tc1) (toTick tc1), tc1))"

definition TimeConversion_new :: TimeConversion where
  "TimeConversion_new = \<lparr>toNs = \<lparr>integerPart = 1, fractionalPart = 0\<rparr>, toTick = \<lparr>integerPart = 1, fractionalPart = 0\<rparr>,
     adjustIntervalNs = -1, lastAdjustTimeNs = 0, adjustOffsetNs = 0\<rparr>"

definition computeRoundTripError :: "64 word \<Rightarrow> int \<Rightarrow> TimeConversion \<Rightarrow> 64 word" where
  "computeRoundTripError tick delta tc =
     (let adjustedToTick = factor_add (toTick tc) delta;
          ns = convert tick (toNs tc);
          roundTrip = convert ns adjustedToTick
      in tick - roundTrip)"

text \<open>Division of \<^verbatim>\<open>int\<close> by two rounds towards zero.\<close>

definition half :: "int \<Rightarrow> int" where
  "half x = sgn x * (\<bar>x\<bar> div 2)"

lemma half_between: "\<bar>half x * 2 - x\<bar> \<le> 1"
  by (cases "0 < x"; cases "x < 0") (auto simp: half_def; presburger)+

lemma half_closer:
  assumes "half (a + b) \<noteq> a" "half (a + b) \<noteq> b"
  shows "\<bar>half (a + b) - b\<bar> < \<bar>a - b\<bar>" "\<bar>a - half (a + b)\<bar> < \<bar>a - b\<bar>"
  using half_between[of "a + b"] assms by linarith+

text \<open>The binary search, on the two deltas and their errors.\<close>

function bisect :: "(int \<Rightarrow> 64 word) \<Rightarrow> int \<Rightarrow> int \<Rightarrow> 64 word \<Rightarrow> 64 word \<Rightarrow> int \<times> int \<times> 64 word \<times> 64 word" where
  "bisect err aDelta bDelta aError bError =
     (let cDelta = half (aDelta + bDelta) in
      if cDelta = aDelta \<or> cDelta = bDelta then (aDelta, bDelta, aError, bError)
      else let cError = err cDelta in
        if sign aError = sign cError then bisect err cDelta bDelta cError bError
        else bisect err aDelta cDelta aError cError)"
  by pat_completeness auto

termination
  by (relation "measure (\<lambda>(_, a, b, _). nat \<bar>a - b\<bar>)") (auto dest: half_closer simp: zless_nat_eq_int_zless)

declare bisect.simps [simp del]

text \<open>The choice of the period of the online adjustment: at most nine halvings.\<close>

fun shrink :: "nat \<Rightarrow> TimeConversion \<Rightarrow> 64 word \<Rightarrow> 64 word \<Rightarrow> 64 word" where
  "shrink 0 tc tick ival = ival"
| "shrink (Suc i) tc tick ival =
     (if uabs (computeRoundTripError tick 0 tc) < 2 then ival
      else shrink i tc (drop_bit 1 tick) (drop_bit 1 ival))"

definition best_delta :: "TimeConversion \<Rightarrow> int" where
  "best_delta tc =
     (let longUptimeTick = convert (2 ^ 62) (toTick tc);
          err = (\<lambda>delta. computeRoundTripError longUptimeTick delta tc);
          aDelta = uint (fractionalPart (toTick tc) div 40000);
          bDelta = - aDelta;
          aError = err aDelta;
          bError = err bDelta;
          (aDelta, bDelta, aError, bError) =
            (if sign aError \<noteq> sign bError then bisect err aDelta bDelta aError bError
             else (aDelta, bDelta, aError, bError))
      in if uabs aError < uabs bError then aDelta else bDelta)"

definition oneTimeOptimizeCoefficients :: "TimeConversion \<Rightarrow> TimeConversion" where
  "oneTimeOptimizeCoefficients tc =
     (let tc1 = tc\<lparr>toTick := factor_add (toTick tc) (best_delta tc)\<rparr>;
          tick = convert 128000000000 (toTick tc1)
      in tc1\<lparr>adjustIntervalNs := drop_bit 1 (shrink 9 tc1 tick 128000000000)\<rparr>)"

text \<open>The constructor with a frequency, from the initial factors.\<close>

definition TimeConversion_hz :: "TimeConversionFactor \<Rightarrow> TimeConversionFactor \<Rightarrow> TimeConversion" where
  "TimeConversion_hz ns tick =
     oneTimeOptimizeCoefficients \<lparr>toNs = ns, toTick = tick, adjustIntervalNs = 0, lastAdjustTimeNs = 0, adjustOffsetNs = 0\<rparr>"

section \<open>Coarse conversion\<close>

definition coarse_toTick :: "32 word \<Rightarrow> 32 word" where
  "coarse_toTick hz = of_int (min 0xffffffff (0x100000000 * uint hz div 1000000000))"

definition coarse_ns2tick :: "32 word \<Rightarrow> 32 word \<Rightarrow> 32 word" where
  "coarse_ns2tick tick ns = ucast (drop_bit 32 (mul32x32to64 ns tick))"

section \<open>The multiplications are exact\<close>

lemma unat_less: "unat (x :: 'a::len word) < 2 ^ LENGTH('a)"
  by (rule unsigned_less)

lemma unat_lo: "unat (lo x) = unat x mod 2 ^ 32"
proof -
  have "x AND 0xffffffff = take_bit 32 x" by (simp add: take_bit_eq_mask mask_eq_exp_minus_1)
  then have "unat (lo x) = take_bit 32 (take_bit 32 (unat x))"
    unfolding lo_def unsigned_ucast_eq by (simp only: unsigned_take_bit_eq) simp
  then show ?thesis by (simp add: take_bit_eq_mod)
qed

lemma unat_hi: "unat (hi x) = unat x div 2 ^ 32"
proof -
  have "unat x < 2 ^ 64" using unat_less[of x] by simp
  then have "unat x div 2 ^ 32 < 2 ^ 32" by (simp add: less_mult_imp_div_less)
  moreover have "unat (hi x) = take_bit 32 (drop_bit 32 (take_bit 64 (unat x)))"
    unfolding hi_def unsigned_ucast_eq unsigned_drop_bit_eq by simp
  ultimately show ?thesis using \<open>unat x < 2 ^ 64\<close> by (simp add: drop_bit_eq_div take_bit_eq_mod)
qed

lemma unat_32: "unat (x :: 32 word) < 2 ^ 32" using unat_less[of x] by simp

lemma mult_less: "(x :: nat) < 2 ^ 32 \<Longrightarrow> y < 2 ^ 32 \<Longrightarrow> x * y < 2 ^ 64"
proof -
  assume "x < 2 ^ 32" "y < 2 ^ 32"
  then have "x * y < 2 ^ 32 * 2 ^ 32" by (intro mult_strict_mono) auto
  then show ?thesis by simp
qed

lemma unat_ucast_64: "unat (ucast (x :: 32 word) :: 64 word) = unat x"
  using unat_32[of x] by (simp add: unsigned_ucast_eq take_bit_eq_mod)

lemma unat_mul32x32to64: "unat (mul32x32to64 a b) = unat a * unat b"
  using mult_less[OF unat_32[of a] unat_32[of b]] by (simp add: mul32x32to64_def unat_word_ariths unat_ucast_64)

lemma div_fixed:
  fixes aH aL bi bf :: nat
  shows "((aH * 2 ^ 32 + aL) * (bi * 2 ^ 32 + bf)) div 2 ^ 32 = aH * bi * 2 ^ 32 + aL * bi + aH * bf + (aL * bf) div 2 ^ 32"
proof -
  have "(aH * 2 ^ 32 + aL) * (bi * 2 ^ 32 + bf) = (aH * bi * 2 ^ 32 + aL * bi + aH * bf) * 2 ^ 32 + aL * bf"
    by (simp add: algebra_simps)
  then show ?thesis by (simp only: div_mult_self3[of "2 ^ 32 :: nat"] power_not_zero) simp
qed

definition factor :: "TimeConversionFactor \<Rightarrow> nat" where
  "factor tcf = unat (integerPart tcf) * 2 ^ 32 + unat (fractionalPart tcf)"

lemma unat_push_32: "unat (push_bit 32 (ucast (w :: 32 word)) :: 64 word) = unat w * 2 ^ 32"
proof -
  have "unat w * 2 ^ 32 < 2 ^ 64" using unat_32[of w] by simp
  then show ?thesis by (simp add: push_bit_eq_mult unat_word_ariths unat_ucast_64)
qed

lemma mul64x32d32_value:
  "unat (mul64x32d32 a bi bf) = (unat a * (unat bi * 2 ^ 32 + unat bf)) div 2 ^ 32 mod 2 ^ 64"
proof -
  let ?aH = "unat (hi a)" and ?aL = "unat (lo a)" and ?bi = "unat bi" and ?bf = "unat bf"
  have a: "unat a = ?aH * 2 ^ 32 + ?aL" by (simp add: unat_hi unat_lo)
  have p: "unat (push_bit 32 (ucast (bi * hi a)) :: 64 word) = (?bi * ?aH mod 2 ^ 32) * 2 ^ 32"
    unfolding unat_push_32 by (simp add: unat_word_ariths)
  have m: "(?bi * ?aH mod 2 ^ 32) * 2 ^ 32 = (?bi * ?aH * 2 ^ 32) mod 2 ^ 64"
    using mult_mod_left[of "?bi * ?aH" "2 ^ 32" "2 ^ 32"] by simp
  have add: "unat (x + y) = (unat x + unat y) mod 2 ^ 64" for x y :: "64 word"
    by (simp add: unat_word_ariths)
  have "unat (mul64x32d32 a bi bf)
      = (?bi * ?aL + ?bf * ?aH + (?bf * ?aL) div 2 ^ 32 + (?bi * ?aH * 2 ^ 32) mod 2 ^ 64) mod 2 ^ 64"
    unfolding mul64x32d32_def Let_def add p m unat_mul32x32to64 unat_ucast_64 unat_hi[of "mul32x32to64 bf (lo a)"]
    by (simp only: mod_simps)
  also have "\<dots> = (?aH * ?bi * 2 ^ 32 + ?aL * ?bi + ?aH * ?bf + (?aL * ?bf) div 2 ^ 32) mod 2 ^ 64"
    unfolding mod_add_right_eq by (simp only: ac_simps)
  finally show ?thesis unfolding a div_fixed .
qed

lemma convert_value: "unat (convert x tcf) = (unat x * factor tcf) div 2 ^ 32 mod 2 ^ 64"
  by (simp add: convert_def mul64x32d32_value factor_def)

lemma unat_pack:
  "unat (ucast t0 OR push_bit 32 (ucast t1) :: 64 word) = unat (t1 :: 32 word) * 2 ^ 32 + unat (t0 :: 32 word)"
proof -
  have "ucast t0 OR push_bit 32 (ucast t1) = (ucast t0 + push_bit 32 (ucast t1) :: 64 word)"
    by (rule disjunctive_add[symmetric]) (auto simp: bit_simps dest: bit_imp_le_length)
  moreover have "unat t1 * 2 ^ 32 + unat t0 < 2 ^ 64"
    using unat_32[of t0] unat_32[of t1] by simp
  ultimately show ?thesis by (simp add: unat_word_ariths unat_ucast_64 unat_push_32)
qed

lemma unat_push_16: "unat (push_bit 16 (x :: 32 word)) = (unat x mod 2 ^ 16) * 2 ^ 16"
proof -
  have "unat (push_bit 16 x) = unat x * 2 ^ 16 mod (2 ^ 16 * 2 ^ 16)" by (simp add: push_bit_eq_mult unat_word_ariths)
  then show ?thesis by (simp only: mult_mod_left)
qed

lemma unat_half_words:
  "unat (a AND 0xFFFF :: 32 word) = unat a mod 2 ^ 16" "unat (drop_bit 16 (a :: 32 word)) = unat a div 2 ^ 16"
  "unat (drop_bit 16 (push_bit 16 (a :: 32 word))) = unat a mod 2 ^ 16"
proof -
  have "a AND 0xFFFF = take_bit 16 a" by (simp add: take_bit_eq_mask mask_eq_exp_minus_1)
  then show "unat (a AND 0xFFFF :: 32 word) = unat a mod 2 ^ 16"
    by (simp only: unsigned_take_bit_eq) (simp add: take_bit_eq_mod)
  have d: "unat (drop_bit 16 (w :: 32 word)) = unat w div 2 ^ 16" for w
  proof -
    have "unat (drop_bit 16 w) = drop_bit 16 (take_bit 32 (unat w))" unfolding unsigned_drop_bit_eq by simp
    then show ?thesis using unat_32[of w] by (simp add: drop_bit_eq_div take_bit_eq_mod)
  qed
  show "unat (drop_bit 16 a) = unat a div 2 ^ 16" by (rule d)
  show "unat (drop_bit 16 (push_bit 16 a)) = unat a mod 2 ^ 16" unfolding d unat_push_16 by simp
qed

lemma mult_16: "(x :: nat) < 2 ^ 16 \<Longrightarrow> y < 2 ^ 16 \<Longrightarrow> x * y < 2 ^ 32"
proof -
  assume "x < 2 ^ 16" "y < 2 ^ 16"
  then have "x * y < 2 ^ 16 * 2 ^ 16" by (intro mult_strict_mono) auto
  then show ?thesis by simp
qed

lemma unat_mult_16:
  assumes "unat (x :: 32 word) < 2 ^ 16" "unat y < 2 ^ 16"
  shows "unat (x * y) = unat x * unat y"
  using mult_16[OF assms] by (simp add: unat_word_ariths)

lemma half_bounds: "unat (a :: 32 word) mod 2 ^ 16 < 2 ^ 16" "unat (a :: 32 word) div 2 ^ 16 < 2 ^ 16"
  using unat_32[of a] by (simp_all add: less_mult_imp_div_less)

lemma split_product:
  fixes a b :: nat
  shows "(a div 2 ^ 16) * (b div 2 ^ 16) * 2 ^ 32 + (a mod 2 ^ 16) * (b mod 2 ^ 16)
     + (a div 2 ^ 16) * (b mod 2 ^ 16) * 2 ^ 16 + (a mod 2 ^ 16) * (b div 2 ^ 16) * 2 ^ 16 = a * b"
proof -
  define p q r t where "p = a div 2 ^ 16" "q = a mod 2 ^ 16" "r = b div 2 ^ 16" "t = b mod 2 ^ 16"
  have "a = p * 2 ^ 16 + q" "b = r * 2 ^ 16 + t" by (simp_all add: p_q_r_t_def)
  then show ?thesis unfolding p_q_r_t_def[symmetric] by (simp add: algebra_simps)
qed

lemma no_asm_eq: "mul32x32to64_no_asm a b = mul32x32to64 a b"
proof -
  let ?P = "unat (drop_bit 16 a)" and ?Q = "unat (a AND 0xFFFF)" and ?R = "unat (drop_bit 16 b)" and ?T = "unat (b AND 0xFFFF)"
  have b: "?P < 2 ^ 16" "?Q < 2 ^ 16" "?R < 2 ^ 16" "?T < 2 ^ 16" by (simp_all only: unat_half_words half_bounds)
  have push: "unat (push_bit 16 (ucast (w :: 32 word)) :: 64 word) = unat w * 2 ^ 16" for w
  proof -
    have "unat w * 2 ^ 16 < 2 ^ 64" using unat_32[of w] by simp
    then show ?thesis by (simp add: push_bit_eq_mult unat_word_ariths unat_ucast_64)
  qed
  have add: "unat (x + y) = (unat x + unat y) mod 2 ^ 64" for x y :: "64 word"
    by (simp add: unat_word_ariths)
  have "unat (mul32x32to64_no_asm a b) = (?P * ?R * 2 ^ 32 + ?Q * ?T + ?P * ?T * 2 ^ 16 + ?Q * ?R * 2 ^ 16) mod 2 ^ 64"
    unfolding mul32x32to64_no_asm_def Let_def add unat_pack push
      unat_mult_16[OF b(1,3)] unat_mult_16[OF b(2,4)] unat_mult_16[OF b(1,4)] unat_mult_16[OF b(2,3)]
    by (simp only: mod_simps)
  also have "\<dots> = (unat a * unat b) mod 2 ^ 64" unfolding unat_half_words split_product by (rule refl)
  also have "\<dots> = unat (mul32x32to64 a b)"
    using mult_less[OF unat_32[of a] unat_32[of b]] by (simp add: unat_mul32x32to64)
  finally show ?thesis by (simp add: word_unat_eq_iff)
qed

text \<open>A 64 bit sum by two additions with carry.\<close>

lemma add_with_carry:
  "unat (h + h' + carry l l') * 2 ^ 32 + unat (l + l') =
     (unat h * 2 ^ 32 + unat l + (unat h' * 2 ^ 32 + unat l')) mod 2 ^ 64"
proof -
  let ?c = "unat (carry l l')"
  have low: "unat (l + l') + ?c * 2 ^ 32 = unat l + unat l'"
    using unat_32[of l] unat_32[of l'] by (auto simp: carry_def unat_word_ariths mod_if)
  have "unat (h + h' + carry l l') * 2 ^ 32 = ((unat h + unat h' + ?c) * 2 ^ 32) mod (2 ^ 32 * 2 ^ 32)"
    by (simp add: unat_word_ariths mod_simps mult_mod_left)
  then have "(unat (h + h' + carry l l') * 2 ^ 32 + unat (l + l')) mod 2 ^ 64
      = ((unat h + unat h' + ?c) * 2 ^ 32 + unat (l + l')) mod 2 ^ 64" by (simp add: mod_simps)
  also have "(unat h + unat h' + ?c) * 2 ^ 32 + unat (l + l') = unat h * 2 ^ 32 + unat l + (unat h' * 2 ^ 32 + unat l')"
    using low by (simp add: algebra_simps)
  finally have e: "(unat (h + h' + carry l l') * 2 ^ 32 + unat (l + l')) mod 2 ^ 64
      = (unat h * 2 ^ 32 + unat l + (unat h' * 2 ^ 32 + unat l')) mod 2 ^ 64" .
  have "unat (h + h' + carry l l') * 2 ^ 32 + unat (l + l') < 2 ^ 64"
    using unat_32[of "h + h' + carry l l'"] unat_32[of "l + l'"] by simp
  then show ?thesis using e by simp
qed

lemma shift_split: "unat (drop_bit 16 (x :: 32 word)) * 2 ^ 32 + unat (push_bit 16 x) = unat x * 2 ^ 16"
proof -
  have "n div k * (k * k) + n mod k * k = n * k" for n k :: nat
    by (metis div_mult_mod_eq distrib_right mult.assoc)
  from this[of "unat x" "2 ^ 16"] show ?thesis unfolding unat_half_words unat_push_16 by simp
qed

lemma asm_eq: "mul32x32to64_asm a b = mul32x32to64 a b"
proof -
  let ?al = "drop_bit 16 (push_bit 16 a)" and ?bl = "drop_bit 16 (push_bit 16 b)" and ?ah = "drop_bit 16 a" and ?bh = "drop_bit 16 b"
  let ?X = "?bl * ?ah" and ?Y = "?al * ?bh"
  let ?l = "push_bit 16 ?X + ?al * ?bl" and ?h = "?bh * ?ah + drop_bit 16 ?X + carry (push_bit 16 ?X) (?al * ?bl)"
  have bd: "unat ?al < 2 ^ 16" "unat ?bl < 2 ^ 16" "unat ?ah < 2 ^ 16" "unat ?bh < 2 ^ 16"
    by (simp_all only: unat_half_words half_bounds)
  have "unat ?h * 2 ^ 32 + unat ?l = (unat (?bh * ?ah) * 2 ^ 32 + unat (push_bit 16 ?X) + (unat (drop_bit 16 ?X) * 2 ^ 32 + unat (?al * ?bl))) mod 2 ^ 64"
    by (rule add_with_carry)
  also have "\<dots> = (unat (?bh * ?ah) * 2 ^ 32 + unat ?X * 2 ^ 16 + unat (?al * ?bl)) mod 2 ^ 64"
    unfolding shift_split[of ?X, symmetric] by (simp only: ac_simps)
  finally have s1: "unat ?h * 2 ^ 32 + unat ?l = (unat (?bh * ?ah) * 2 ^ 32 + unat ?X * 2 ^ 16 + unat (?al * ?bl)) mod 2 ^ 64" .
  have "unat (mul32x32to64_asm a b) = unat (?h + drop_bit 16 ?Y + carry ?l (push_bit 16 ?Y)) * 2 ^ 32 + unat (?l + push_bit 16 ?Y)"
    unfolding mul32x32to64_asm_def Let_def unat_pack by (rule refl)
  also have "\<dots> = (unat ?h * 2 ^ 32 + unat ?l + (unat (drop_bit 16 ?Y) * 2 ^ 32 + unat (push_bit 16 ?Y))) mod 2 ^ 64"
    by (rule add_with_carry)
  also have "\<dots> = (unat (?bh * ?ah) * 2 ^ 32 + unat ?X * 2 ^ 16 + unat (?al * ?bl) + unat ?Y * 2 ^ 16) mod 2 ^ 64"
    unfolding s1 shift_split by (simp only: mod_simps)
  also have "\<dots> = (unat a * unat b) mod 2 ^ 64"
    unfolding unat_mult_16[OF bd(4,3)] unat_mult_16[OF bd(2,3)] unat_mult_16[OF bd(1,2)] unat_mult_16[OF bd(1,4)]
      unat_half_words(3)
    unfolding unat_half_words split_product[of "unat a" "unat b", symmetric] by (simp only: ac_simps)
  also have "\<dots> = unat (mul32x32to64 a b)"
    using mult_less[OF unat_32[of a] unat_32[of b]] by (simp add: unat_mul32x32to64)
  finally show ?thesis by (simp add: word_unat_eq_iff)
qed

section \<open>The offline optimisation\<close>

lemma half_adjacent:
  assumes "half (a + b) = a \<or> half (a + b) = b"
  shows "\<bar>a - b\<bar> \<le> 1"
  using half_between[of "a + b"] assms by linarith

lemma half_in:
  shows "min a b \<le> half (a + b)" "half (a + b) \<le> max a b"
  using half_between[of "a + b"] by linarith+

lemma bisect_spec:
  assumes "bisect err a b ea eb = (a', b', ea', eb')" "ea = err a" "eb = err b" "sign ea \<noteq> sign eb"
  shows "ea' = err a' \<and> eb' = err b' \<and> sign ea' \<noteq> sign eb' \<and> \<bar>a' - b'\<bar> \<le> 1
     \<and> min a b \<le> min a' b' \<and> max a' b' \<le> max a b"
  using assms
proof (induction err a b ea eb rule: bisect.induct)
  case (1 err a b ea eb)
  let ?c = "half (a + b)"
  show ?case
  proof (cases "?c = a \<or> ?c = b")
    case True
    then show ?thesis using "1.prems" half_adjacent[of a b] by (auto simp: bisect.simps[of err a b])
  next
    case False
    show ?thesis
    proof (cases "sign ea = sign (err ?c)")
      case True
      have "bisect err ?c b (err ?c) eb = (a', b', ea', eb')"
        using "1.prems"(1) False True by (simp add: bisect.simps[of err a b] Let_def)
      from "1.IH"(1)[OF refl False refl True this] "1.prems" True half_in[of a b] show ?thesis by auto
    next
      case F: False
      have "bisect err a ?c ea (err ?c) = (a', b', ea', eb')"
        using "1.prems"(1) False F by (simp add: bisect.simps[of err a b] Let_def)
      from "1.IH"(2)[OF refl False refl F this] "1.prems" F half_in[of a b] show ?thesis by auto
    qed
  qed
qed

abbreviation long_error :: "TimeConversion \<Rightarrow> int \<Rightarrow> 64 word" where
  "long_error tc d \<equiv> computeRoundTripError (convert (2 ^ 62) (toTick tc)) d tc"

abbreviation max_delta :: "TimeConversion \<Rightarrow> int" where
  "max_delta tc \<equiv> uint (fractionalPart (toTick tc) div 40000)"

lemma best_delta_spec:
  shows "\<bar>best_delta tc\<bar> \<le> max_delta tc"
    "sign (long_error tc (max_delta tc)) \<noteq> sign (long_error tc (- max_delta tc)) \<Longrightarrow>
       \<exists>d. \<bar>best_delta tc - d\<bar> \<le> 1 \<and> sign (long_error tc d) \<noteq> sign (long_error tc (best_delta tc))
         \<and> uabs (long_error tc (best_delta tc)) \<le> uabs (long_error tc d)"
proof -
  let ?e = "long_error tc" and ?D = "max_delta tc"
  obtain a b ea eb where b: "(if sign (?e ?D) \<noteq> sign (?e (- ?D)) then bisect ?e ?D (- ?D) (?e ?D) (?e (- ?D))
      else (?D, - ?D, ?e ?D, ?e (- ?D))) = (a, b, ea, eb)" by (metis prod_cases4)
  have best: "best_delta tc = (if uabs ea < uabs eb then a else b)"
    unfolding best_delta_def Let_def b by simp
  have D: "0 \<le> ?D" by simp
  show "\<bar>best_delta tc\<bar> \<le> ?D"
  proof (cases "sign (?e ?D) \<noteq> sign (?e (- ?D))")
    case True
    with bisect_spec[of ?e ?D "- ?D" "?e ?D" "?e (- ?D)" a b ea eb] b D best show ?thesis by auto
  qed (use b D best in auto)
  show "\<exists>d. \<bar>best_delta tc - d\<bar> \<le> 1 \<and> sign (?e d) \<noteq> sign (?e (best_delta tc)) \<and> uabs (?e (best_delta tc)) \<le> uabs (?e d)"
    if s: "sign (?e ?D) \<noteq> sign (?e (- ?D))"
  proof -
    have "ea = ?e a" "eb = ?e b" "sign ea \<noteq> sign eb" "\<bar>a - b\<bar> \<le> 1"
      using bisect_spec[of ?e ?D "- ?D" "?e ?D" "?e (- ?D)" a b ea eb] b s by auto
    then show ?thesis unfolding best
      by (intro exI[of _ "if uabs ea < uabs eb then b else a"]) (auto simp: not_less)
  qed
qed

lemma shrink_spec:
  "\<exists>k \<le> i. shrink i tc tick ival = drop_bit k ival
     \<and> (k < i \<longrightarrow> uabs (computeRoundTripError (drop_bit k tick) 0 tc) < 2)"
proof (induction i arbitrary: tick ival)
  case (Suc i)
  show ?case
  proof (cases "uabs (computeRoundTripError tick 0 tc) < 2")
    case True
    then show ?thesis by (intro exI[of _ 0]) simp
  next
    case False
    obtain k where "k \<le> i" "shrink i tc (drop_bit 1 tick) (drop_bit 1 ival) = drop_bit k (drop_bit 1 ival)"
        "k < i \<longrightarrow> uabs (computeRoundTripError (drop_bit k (drop_bit 1 tick)) 0 tc) < 2"
      using Suc.IH by blast
    then show ?thesis using False by (intro exI[of _ "Suc k"]) (simp del: drop_bit_Suc)
  qed
qed simp

text \<open>C15. The three versions of the long multiplication, native, portable and in assembly, compute
  the same 64 bit product, and the fixed point multiplication computes exactly the integer part of
  the product with a 32.32 number, modulo \<open>2 ^ 64\<close>.\<close>

theorem time_multiplication_exact:
  "mul32x32to64_no_asm a b = mul32x32to64 a b \<and> mul32x32to64_asm a b = mul32x32to64 a b
   \<and> unat (mul32x32to64 a b) = unat a * unat b
   \<and> unat (mul64x32d32 x bi bf) = (unat x * (unat bi * 2 ^ 32 + unat bf)) div 2 ^ 32 mod 2 ^ 64"
  by (simp only: no_asm_eq asm_eq unat_mul32x32to64 mul64x32d32_value)

text \<open>C31. The offline optimisation always ends. It changes the factor by at most one part in 40000,
  and chooses the period of the online adjustment among 64 s, 32 s, ..., 125 ms, where the round trip
  error at twice the chosen period is below two ticks unless the period is the shortest. When the
  round trip errors at the two ends of the search have different signs, the chosen correction is one
  of two neighbouring ones between which the sign changes, the one with the smaller error.\<close>

theorem optimize_coefficients:
  "\<exists>d k. oneTimeOptimizeCoefficients tc
       = tc\<lparr>toTick := factor_add (toTick tc) d, adjustIntervalNs := drop_bit k 64000000000\<rparr>
     \<and> \<bar>d\<bar> \<le> max_delta tc \<and> k \<le> 9
     \<and> (k < 9 \<longrightarrow> uabs (computeRoundTripError (drop_bit k (convert 128000000000 (factor_add (toTick tc) d))) 0
           (tc\<lparr>toTick := factor_add (toTick tc) d\<rparr>)) < 2)
     \<and> (sign (long_error tc (max_delta tc)) \<noteq> sign (long_error tc (- max_delta tc)) \<longrightarrow>
         (\<exists>d'. \<bar>d - d'\<bar> \<le> 1 \<and> sign (long_error tc d') \<noteq> sign (long_error tc d)
           \<and> uabs (long_error tc d) \<le> uabs (long_error tc d')))"
proof -
  let ?d = "best_delta tc"
  let ?tc = "tc\<lparr>toTick := factor_add (toTick tc) ?d\<rparr>"
  let ?t = "convert 128000000000 (toTick ?tc)"
  obtain k where k: "k \<le> 9" "shrink 9 ?tc ?t 128000000000 = drop_bit k 128000000000"
      "k < 9 \<longrightarrow> uabs (computeRoundTripError (drop_bit k ?t) 0 ?tc) < 2"
    using shrink_spec[of 9 ?tc ?t 128000000000] by blast
  have "drop_bit 1 (drop_bit k 128000000000) = drop_bit k (drop_bit 1 (128000000000 :: 64 word))"
    by (simp only: drop_bit_drop_bit add.commute)
  also have "drop_bit 1 (128000000000 :: 64 word) = 64000000000" by code_simp
  finally have "oneTimeOptimizeCoefficients tc
      = tc\<lparr>toTick := factor_add (toTick tc) ?d, adjustIntervalNs := drop_bit k 64000000000\<rparr>"
    unfolding oneTimeOptimizeCoefficients_def Let_def k(2) by simp
  then show ?thesis using k best_delta_spec(1)[of tc]
    by (intro exI[of _ ?d] exI[of _ k] conjI impI best_delta_spec(2)) simp_all
qed

text \<open>The conversion for a timer of 8 MHz.\<close>

definition demo_tc :: TimeConversion where
  "demo_tc = \<lparr>toNs = \<lparr>integerPart = 125, fractionalPart = 0\<rparr>, toTick = \<lparr>integerPart = 0, fractionalPart = 34359738\<rparr>,
     adjustIntervalNs = 16000000000, lastAdjustTimeNs = 0, adjustOffsetNs = 0\<rparr>"

theorem optimize_coefficients_witness:
  "\<exists>d. \<bar>d\<bar> \<le> 858 \<and> (\<exists>d'. \<bar>d - d'\<bar> \<le> 1 \<and> sign (long_error demo_tc d') \<noteq> sign (long_error demo_tc d))"
proof -
  have "sign (long_error demo_tc (max_delta demo_tc)) \<noteq> sign (long_error demo_tc (- max_delta demo_tc))"
    "max_delta demo_tc = 858" by code_simp+
  with optimize_coefficients[of demo_tc] show ?thesis by auto
qed

section \<open>The round trip\<close>

text \<open>The cached offset belongs to some time point \<open>x\<close> around which the two conversions have been
  matched. Every call of \<open>ns2tick\<close> keeps this.\<close>

definition cache_ok :: "TimeConversion \<Rightarrow> bool" where
  "cache_ok tc = (\<exists>x. lastAdjustTimeNs tc = convert (convert x (toTick tc)) (toNs tc)
     \<and> adjustOffsetNs tc = x - lastAdjustTimeNs tc)"

lemma adjust_loop_factors [simp]:
  "toNs (adjust_loop i uns tc) = toNs tc" "toTick (adjust_loop i uns tc) = toTick tc"
  "adjustIntervalNs (adjust_loop i uns tc) = adjustIntervalNs tc"
  by (induction i arbitrary: tc) (auto simp: Let_def)

lemma adjust_loop_cache: "0 < i \<or> cache_ok tc \<Longrightarrow> cache_ok (adjust_loop i uns tc)"
proof (induction i arbitrary: tc)
  case (Suc i)
  have "cache_ok (tc\<lparr>lastAdjustTimeNs := convert (convert (uns + adjustOffsetNs tc) (toTick tc)) (toNs tc),
      adjustOffsetNs := uns + adjustOffsetNs tc - convert (convert (uns + adjustOffsetNs tc) (toTick tc)) (toNs tc)\<rparr>)"
    by (auto simp: cache_ok_def)
  with Suc.IH show ?case by (simp add: Let_def)
qed simp

lemma ns2tick_cache:
  assumes "cache_ok tc" "ns2tick uns tc = (r, tc1)"
  shows "cache_ok tc1" "toNs tc1 = toNs tc" "toTick tc1 = toTick tc"
    "r = convert (uns + adjustOffsetNs tc1) (toTick tc1)"
  using assms adjust_loop_cache[of 5] by (auto simp: ns2tick_def Let_def split: if_splits)

lemma div_pow_exact: "\<exists>e. 0 \<le> e \<and> e < 2 ^ 32 \<and> (n :: int) div 2 ^ 32 * 2 ^ 32 = n - e"
  by (intro exI[of _ "n mod 2 ^ 32"]) (simp add: minus_mod_eq_div_mult)

lemma convert_exact:
  assumes "uint x * int (factor tcf) < 2 ^ 96"
  shows "\<exists>e. 0 \<le> e \<and> e < 2 ^ 32 \<and> uint (convert x tcf) * 2 ^ 32 = uint x * int (factor tcf) - e"
proof -
  have "int (unat x * factor tcf) < int (2 ^ 96)" using assms by simp
  then have "unat x * factor tcf < 2 ^ 96" by (simp only: of_nat_less_iff)
  then have "unat x * factor tcf div 2 ^ 32 < 2 ^ 64" by (simp add: less_mult_imp_div_less)
  then have "unat (convert x tcf) = unat x * factor tcf div 2 ^ 32" by (simp only: convert_value mod_less)
  then have "int (unat (convert x tcf)) = int (unat x) * int (factor tcf) div 2 ^ 32" by (simp only: zdiv_int of_nat_mult) simp
  then have "uint (convert x tcf) = uint x * int (factor tcf) div 2 ^ 32" by simp
  then show ?thesis using div_pow_exact[of "uint x * int (factor tcf)"] by simp
qed

text \<open>The error of the round trip, in integers.\<close>

lemma round_trip_error:
  fixes N M :: int and T ns x t1 l y r :: int
  assumes e: "0 \<le> e1" "e1 < P" "0 \<le> e2" "e2 < P" "0 \<le> e3" "e3 < P" "0 \<le> e4" "e4 < P"
    and eq: "ns * P = T * N - e1" "t1 * P = x * M - e3" "l * P = t1 * N - e2" "y = x + ns - l" "r * P = y * M - e4"
    and M: "0 \<le> M" "M < P" and N: "0 < N" and c: "0 \<le> c"
    and near: "\<bar>ns - l\<bar> \<le> I" and drift: "(I + 1) * \<bar>P * P - N * M\<bar> \<le> c * (P * N)"
  shows "\<bar>r - T\<bar> \<le> c + 1"
proof -
  have P: "0 < P" using e by linarith
  define D where "D = P * P - N * M"
  have "(r - T) * (P * P) = (t1 - T) * D + (e3 - e4) * P + (e2 - e1) * M"
  proof -
    have "r * (P * P) = (y * M - e4) * P" using eq(5) by (metis mult.assoc)
    also have "\<dots> = (x * M + (ns - l) * M - e4) * P" unfolding eq(4) by (simp add: algebra_simps)
    also have "\<dots> = (t1 * P + e3 - e4) * P + ((ns * P) - (l * P)) * M" using eq(2) by (simp add: algebra_simps)
    also have "\<dots> = (t1 * P + e3 - e4) * P + ((T - t1) * N - e1 + e2) * M" unfolding eq(1,3) by (simp add: algebra_simps)
    finally show ?thesis by (simp add: D_def algebra_simps)
  qed
  moreover have "\<bar>(e3 - e4) * P\<bar> < P * P" using e P by (simp add: abs_mult)
  moreover have "\<bar>(e2 - e1) * M\<bar> \<le> P * P"
    using e M by (simp add: abs_mult mult_mono)
  moreover have "\<bar>(t1 - T) * D\<bar> \<le> c * (P * P)"
  proof -
    have "(T - t1) * N = (ns - l) * P + e1 - e2" using eq(1,3) by (simp add: algebra_simps)
    moreover have "\<bar>(ns - l) * P\<bar> \<le> I * P" using near P by (simp add: abs_mult mult_right_mono)
    ultimately have "\<bar>(T - t1) * N\<bar> \<le> (I + 1) * P" using e by (simp add: algebra_simps)
    then have "\<bar>(T - t1) * N\<bar> * \<bar>D\<bar> \<le> (I + 1) * P * \<bar>D\<bar>" by (rule mult_right_mono) simp
    also have "\<dots> \<le> c * (P * P) * N" using mult_left_mono[OF drift, of P] P unfolding D_def by (simp add: algebra_simps)
    finally have "\<bar>(T - t1) * N\<bar> * \<bar>D\<bar> \<le> c * (P * P) * N" .
    moreover have "\<bar>(T - t1) * N\<bar> * \<bar>D\<bar> = \<bar>(t1 - T) * D\<bar> * N"
      using N by (simp only: abs_mult abs_minus_commute[of T t1] abs_of_pos mult_ac)
    ultimately have "\<bar>(t1 - T) * D\<bar> * N \<le> c * (P * P) * N" by simp
    then show ?thesis using N by simp
  qed
  ultimately have "\<bar>(r - T) * (P * P)\<bar> < c * (P * P) + P * P + P * P" by linarith
  moreover have "\<bar>(r - T) * (P * P)\<bar> = \<bar>r - T\<bar> * (P * P)" using P by (simp only: abs_mult abs_of_pos)
  moreover have "c * (P * P) + P * P + P * P = (c + 2) * (P * P)" by (simp add: algebra_simps)
  ultimately have "\<bar>r - T\<bar> * (P * P) < (c + 2) * (P * P)" by simp
  moreover have "0 < P * P" using P by simp
  ultimately have "\<bar>r - T\<bar> < c + 2" by (simp only: mult_less_cancel_right_pos)
  then show ?thesis by linarith
qed

lemma uint_add_sint:
  fixes a b :: "64 word"
  assumes "0 \<le> uint a + sint b" "uint a + sint b < 2 ^ 64"
  shows "uint (a + b) = uint a + sint b"
proof -
  have "a + b = of_int (uint a + sint b)" by simp
  then show ?thesis using assms by (simp only: uint_word_of_int) simp
qed



section \<open>Time slices\<close>

text \<open>C39. The coarse conversion of a time slice to timer ticks, for frequencies up to 1 GHz: it
  never rounds up, and is less than two ticks below the exact value.\<close>

theorem coarse_conversion_bounds:
  assumes "unat hz \<le> 1000000000"
  shows "unat (coarse_ns2tick (coarse_toTick hz) ns) * 1000000000 \<le> unat ns * unat hz
       \<and> unat ns * unat hz < (unat (coarse_ns2tick (coarse_toTick hz) ns) + 2) * 1000000000"
proof -
  let ?f = "2 ^ 32 * unat hz div 1000000000" and ?t = "coarse_toTick hz" and ?r = "unat (coarse_ns2tick (coarse_toTick hz) ns)"
  have t: "unat ?t = min (2 ^ 32 - 1) ?f"
  proof -
    have "min 0xffffffff (0x100000000 * uint hz div 1000000000) = int (min (2 ^ 32 - 1) ?f)"
      by (simp add: zdiv_int of_nat_min)
    then have "?t = of_nat (min (2 ^ 32 - 1) ?f)" unfolding coarse_toTick_def by simp
    then show ?thesis by (simp add: unat_of_nat)
  qed
  have "coarse_ns2tick ?t ns = hi (mul32x32to64 ns ?t)" by (simp add: coarse_ns2tick_def hi_def)
  then have r: "?r = unat ns * unat ?t div 2 ^ 32" by (simp add: unat_hi unat_mul32x32to64)
  have f: "?f * 1000000000 \<le> 2 ^ 32 * unat hz" "2 ^ 32 * unat hz < (?f + 1) * 1000000000"
    by (simp_all add: div_times_less_eq_dividend dividend_less_div_times)
  have tf: "unat ?t * 1000000000 \<le> 2 ^ 32 * unat hz" "2 ^ 32 * unat hz \<le> (unat ?t + 1) * 1000000000"
    using t f assms by (auto simp: min_def)
  have rr: "?r * 2 ^ 32 \<le> unat ns * unat ?t" "unat ns * unat ?t < (?r + 1) * 2 ^ 32"
    unfolding r by (simp_all add: div_times_less_eq_dividend dividend_less_div_times)
  have "?r * 2 ^ 32 * 1000000000 \<le> unat ns * (unat ?t * 1000000000)" using rr(1) by simp
  also have "\<dots> \<le> unat ns * (2 ^ 32 * unat hz)" using tf(1) by (rule mult_left_mono) simp
  finally have lower: "?r * 1000000000 \<le> unat ns * unat hz" by (simp add: mult.commute)
  have "unat ns * (2 ^ 32 * unat hz) \<le> unat ns * ((unat ?t + 1) * 1000000000)" using tf(2) by (rule mult_left_mono) simp
  also have "\<dots> = (unat ns * unat ?t + unat ns) * 1000000000" by (simp add: algebra_simps)
  also have "\<dots> < ((?r + 1) * 2 ^ 32 + 2 ^ 32) * 1000000000" using rr(2) unat_32[of ns] by simp
  finally have "unat ns * unat hz < (?r + 2) * 1000000000" by simp
  with lower show ?thesis by blast
qed

theorem coarse_conversion_bounds_witness:
  "unat (coarse_ns2tick (coarse_toTick 48000000) 1000000) * 1000000000 \<le> 48000000000000"
  using coarse_conversion_bounds[of 48000000 1000000] by simp

end
