(* ===== verification/Unicode_Util.thy ===== *)
theory Unicode_Util
  imports Miosix_Prelude
begin

text \<open>
  The conversions between UTF-8, UTF-16 and code points of \<^verbatim>\<open>util/unicode.h\<close> and \<^verbatim>\<open>util/unicode.cpp\<close>,
  which the file systems use for file names.

  Characters and code points are natural numbers: every value fits its C++ type, and no operation
  wraps. A string is the list of the characters from an iterator to the end of the memory the
  program may read: reading behind it is \<open>OutOfBounds\<close>. A destination buffer is the list of the
  characters written to it.
\<close>

unbundle bit_operations_syntax

section \<open>Code points\<close>

datatype unicode_error = OK | INSUFFICIENT_SPACE | INVALID_STRING

definition invalid :: nat where "invalid = 0xffffffff"

text \<open>The loop over the additional bytes: the code point or \<open>None\<close> for an invalid character, and the
  iterator.\<close>

fun more_bytes :: "bool \<Rightarrow> nat \<Rightarrow> nat \<Rightarrow> nat list \<Rightarrow> (nat option \<times> nat list) result" where
  "more_bytes checkEnd 0 c it = Inr (Some c, it)"
| "more_bytes checkEnd (Suc i) c [] = (if checkEnd then Inr (None, []) else Inl OutOfBounds)"
| "more_bytes checkEnd (Suc i) c (next # it) =
     (if next AND 0xc0 \<noteq> 0x80 then Inr (None, it)
      else more_bytes checkEnd i (push_bit 6 c OR (next AND 0x3f)) it)"

text \<open>The overlong encodings, by the number of additional bytes.\<close>

definition overlong :: "nat \<Rightarrow> nat \<Rightarrow> bool" where
  "overlong additionalBytes c =
     (additionalBytes = 1 \<and> c < 0x80 \<or> additionalBytes = 2 \<and> c < 0x800 \<or> additionalBytes = 3 \<and> c < 0x10000)"

definition decode_rest :: "bool \<Rightarrow> nat \<Rightarrow> nat \<Rightarrow> nat list \<Rightarrow> (nat \<times> nat list) result" where
  "decode_rest checkEnd additionalBytes c it =
     rbind (more_bytes checkEnd additionalBytes c it) (\<lambda>(r, it1). Inr
       (case r of None \<Rightarrow> (invalid, it1)
        | Some c1 \<Rightarrow> (if overlong additionalBytes c1 then invalid
                     else if 0xd800 \<le> c1 \<and> c1 \<le> 0xdfff then invalid
                     else if c1 > 0x10ffff then invalid
                     else c1, it1)))"

fun nextUtf8 :: "bool \<Rightarrow> nat list \<Rightarrow> (nat \<times> nat list) result" where
  "nextUtf8 checkEnd [] = (if checkEnd then Inr (0, []) else Inl OutOfBounds)"
| "nextUtf8 checkEnd (c # it) =
     (if c < 0x80 then Inr (c, it)
      else if c AND 0xe0 = 0xc0 then decode_rest checkEnd 1 (c AND 0x1f) it
      else if c AND 0xf0 = 0xe0 then decode_rest checkEnd 2 (c AND 0x0f) it
      else if c AND 0xf8 = 0xf0 then decode_rest checkEnd 3 (c AND 0x07) it
      else Inr (invalid, it))"

section \<open>Strings\<close>

text \<open>A sequence of \<^verbatim>\<open>PUT\<close> behind what has been written.\<close>

fun PUT :: "int \<Rightarrow> nat list \<Rightarrow> nat list \<Rightarrow> unicode_error \<times> nat list" where
  "PUT dstSize dst [] = (OK, dst)"
| "PUT dstSize dst (x # xs) =
     (if int (length dst) \<ge> dstSize then (INSUFFICIENT_SPACE, dst) else PUT dstSize (dst @ [x]) xs)"

definition putUtf8 :: "nat \<Rightarrow> int \<Rightarrow> unicode_error \<times> nat list" where
  "putUtf8 c dstSize =
     (if 0xd800 \<le> c \<and> c \<le> 0xdfff then (INVALID_STRING, [])
      else if c > 0x10ffff then (INVALID_STRING, [])
      else if c < 0x80 then PUT dstSize [] [c]
      else if c < 0x800 then PUT dstSize [] [drop_bit 6 c OR 0xc0, (c AND 0x3f) OR 0x80]
      else if c < 0x10000 then
        PUT dstSize [] [drop_bit 12 c OR 0xe0, (drop_bit 6 c AND 0x3f) OR 0x80, (c AND 0x3f) OR 0x80]
      else PUT dstSize [] [drop_bit 18 c OR 0xf0, (drop_bit 12 c AND 0x3f) OR 0x80,
                           (drop_bit 6 c AND 0x3f) OR 0x80, (c AND 0x3f) OR 0x80])"

lemma more_bytes_length: "more_bytes ce n c it = Inr (r, it1) \<Longrightarrow> length it1 \<le> length it"
  by (induction ce n c it rule: more_bytes.induct) (auto split: if_splits)

lemma decode_rest_length:
  assumes "decode_rest ce n c it = Inr (c1, it1)"
  shows "length it1 \<le> length it"
proof -
  obtain r it2 where m: "more_bytes ce n c it = Inr (r, it2)"
    using assms by (cases "more_bytes ce n c it") (auto simp: decode_rest_def)
  have "it1 = it2" using assms unfolding decode_rest_def m by (cases r) simp_all
  with more_bytes_length[OF m] show ?thesis by simp
qed

lemma nextUtf8_length: "nextUtf8 False src = Inr (c, it) \<Longrightarrow> length it < length src"
  by (cases src) (auto dest!: decode_rest_length split: if_splits)

text \<open>The results are what has been written, without the terminator that \<^verbatim>\<open>length-1\<close> does not count.\<close>

function utf8toutf16 :: "int \<Rightarrow> nat list \<Rightarrow> nat list \<Rightarrow> (unicode_error \<times> nat list) result" where
  "utf8toutf16 dstSize dst src =
     (case nextUtf8 False src of
        Inl e \<Rightarrow> Inl e
      | Inr (c, it) \<Rightarrow>
          if c = 0 then Inr (case PUT dstSize dst [0] of (OK, d) \<Rightarrow> (OK, butlast d) | r \<Rightarrow> r)
          else if c = invalid then Inr (INVALID_STRING, dst)
          else
            (case PUT dstSize dst (if c > 0xffff then [0xd800 - drop_bit 10 0x10000 + drop_bit 10 c, 0xdc00 + (c AND 0x3ff)]
                                   else [c]) of
               (OK, d) \<Rightarrow> utf8toutf16 dstSize d it
             | r \<Rightarrow> Inr r))"
  by pat_completeness auto

termination
  by (relation "measure (\<lambda>(_, _, src). length src)") (auto dest: nextUtf8_length)

declare utf8toutf16.simps [simp del]

text \<open>A code point from UTF-16: \<open>None\<close> for an unpaired surrogate. The offset of the surrogates wraps
  in C++; the sum is the same number.\<close>

fun nextUtf16 :: "nat list \<Rightarrow> (nat option \<times> nat list) result" where
  "nextUtf16 [] = Inl OutOfBounds"
| "nextUtf16 (c # it) =
     (if 0xd800 \<le> c \<and> c \<le> 0xdbff then
        (case it of
           [] \<Rightarrow> Inl OutOfBounds
         | next # it1 \<Rightarrow>
             if next < 0xdc00 \<or> next > 0xdfff then Inr (None, it1)
             else Inr (Some (0x10000 + (push_bit 10 c - push_bit 10 0xd800) + (next - 0xdc00)), it1))
      else if 0xdc00 \<le> c \<and> c \<le> 0xdfff then Inr (None, it)
      else Inr (Some c, it))"

lemma nextUtf16_length: "nextUtf16 src = Inr (r, it) \<Longrightarrow> length it < length src"
  by (cases src) (auto split: if_splits list.splits)

function utf16toutf8 :: "int \<Rightarrow> nat list \<Rightarrow> nat list \<Rightarrow> (unicode_error \<times> nat list) result" where
  "utf16toutf8 dstSize dst src =
     (case src of
        [] \<Rightarrow> Inl OutOfBounds
      | c # it \<Rightarrow>
          if c = 0 then Inr (case PUT dstSize dst [0] of (OK, d) \<Rightarrow> (OK, butlast d) | r \<Rightarrow> r)
          else if c < 0x80 then
            (case PUT dstSize dst [c] of (OK, d) \<Rightarrow> utf16toutf8 dstSize d it | r \<Rightarrow> Inr r)
          else
            (case nextUtf16 src of
               Inl e \<Rightarrow> Inl e
             | Inr (None, it1) \<Rightarrow> Inr (INVALID_STRING, dst)
             | Inr (Some c1, it1) \<Rightarrow>
                 (case putUtf8 c1 (dstSize - int (length dst)) of
                    (OK, d) \<Rightarrow> utf16toutf8 dstSize (dst @ d) it1
                  | (e, d) \<Rightarrow> Inr (e, dst @ d))))"
  by pat_completeness auto

termination
  by (relation "measure (\<lambda>(_, _, src). length src)") (auto dest!: nextUtf16_length simp del: nextUtf16.simps)

declare utf16toutf8.simps [simp del]

text \<open>The number of bytes passed, the terminator included.\<close>

function validateUtf8 :: "nat \<Rightarrow> nat list \<Rightarrow> (bool \<times> nat) result" where
  "validateUtf8 n str =
     (case nextUtf8 False str of
        Inl e \<Rightarrow> Inl e
      | Inr (codePoint, it) \<Rightarrow>
          if codePoint = 0 then Inr (True, n + (length str - length it))
          else if codePoint = invalid then Inr (False, n + (length str - length it))
          else validateUtf8 (n + (length str - length it)) it)"
  by pat_completeness auto

termination
  by (relation "measure (\<lambda>(_, str). length str)") (auto dest: nextUtf8_length)

declare validateUtf8.simps [simp del]

function countCodePoints :: "nat \<Rightarrow> nat list \<Rightarrow> nat result" where
  "countCodePoints n str =
     (case nextUtf8 False str of
        Inl e \<Rightarrow> Inl e
      | Inr (codePoint, it) \<Rightarrow> if codePoint = 0 then Inr n else countCodePoints (n + 1) it)"
  by pat_completeness auto

termination
  by (relation "measure (\<lambda>(_, str). length str)") (auto dest: nextUtf8_length)

declare countCodePoints.simps [simp del]

section \<open>Encoding\<close>

text \<open>The code points, and the only encoding of each in UTF-8 and in UTF-16.\<close>

definition code_point :: "nat \<Rightarrow> bool" where
  "code_point c = (c \<le> 0x10ffff \<and> \<not> (0xd800 \<le> c \<and> c \<le> 0xdfff))"

definition utf8 :: "nat \<Rightarrow> nat list" where
  "utf8 c =
     (if c < 0x80 then [c]
      else if c < 0x800 then [c div 64 + 192, c mod 64 + 128]
      else if c < 0x10000 then [c div 4096 + 224, c div 64 mod 64 + 128, c mod 64 + 128]
      else [c div 262144 + 240, c div 4096 mod 64 + 128, c div 64 mod 64 + 128, c mod 64 + 128])"

definition utf16 :: "nat \<Rightarrow> nat list" where
  "utf16 c = (if c < 0x10000 then [c] else [(c - 0x10000) div 1024 + 0xd800, c mod 1024 + 0xdc00])"

lemma and_mask: "(x :: nat) AND (2 ^ n - 1) = x mod 2 ^ n"
  by (metis take_bit_eq_mask mask_eq_exp_minus_1 take_bit_eq_mod)

lemma and_low: "(x :: nat) AND 0x3f = x mod 64" "x AND 0x1f = x mod 32" "x AND 0x0f = x mod 16" "x AND 0x07 = x mod 8"
  "x AND 0x3ff = x mod 1024"
  using and_mask[of x 6] and_mask[of x 5] and_mask[of x 4] and_mask[of x 3] and_mask[of x 10] by simp_all

lemma and_high: "(x :: nat) AND push_bit k (mask j) = push_bit k (take_bit j (drop_bit k x))"
  by (rule bit_eqI) (auto simp: bit_simps)

lemma or_plus:
  assumes "(x :: nat) < 2 ^ k"
  shows "x OR push_bit k y = x + push_bit k y"
proof -
  have "take_bit k x = x" using assms by (simp add: take_bit_nat_eq_self)
  then have lt: "n < k" if "bit x n" for n using that bit_take_bit_iff[of k x n] by simp
  have "\<not> (bit x n \<and> bit (push_bit k y) n)" for n using lt[of n] by (auto simp: bit_push_bit_iff)
  then show ?thesis by (intro disjunctive_add[symmetric]) blast
qed

lemma or_lead:
  "(x :: nat) < 64 \<Longrightarrow> x OR 0x80 = x + 128" "x < 64 \<Longrightarrow> x OR 0xc0 = x + 192" "x < 32 \<Longrightarrow> x OR 0xe0 = x + 224"
  "x < 16 \<Longrightarrow> x OR 0xf0 = x + 240"
  using or_plus[of x 6 2] or_plus[of x 6 3] or_plus[of x 5 7] or_plus[of x 4 15] by (simp_all add: push_bit_eq_mult)

lemma and_tests:
  "(x :: nat) AND 0xe0 = 0xc0 \<longleftrightarrow> x div 32 mod 8 = 6" "x AND 0xf0 = 0xe0 \<longleftrightarrow> x div 16 mod 16 = 14"
  "x AND 0xf8 = 0xf0 \<longleftrightarrow> x div 8 mod 32 = 30" "x AND 0xc0 = 0x80 \<longleftrightarrow> x div 64 mod 4 = 2"
proof -
  have "x AND 0xe0 = (x div 32 mod 8) * 32" using and_high[of x 5 3]
    by (simp add: push_bit_eq_mult take_bit_eq_mod drop_bit_eq_div mask_eq_exp_minus_1)
  then show "x AND 0xe0 = 0xc0 \<longleftrightarrow> x div 32 mod 8 = 6" by simp
  have "x AND 0xf0 = (x div 16 mod 16) * 16" using and_high[of x 4 4]
    by (simp add: push_bit_eq_mult take_bit_eq_mod drop_bit_eq_div mask_eq_exp_minus_1)
  then show "x AND 0xf0 = 0xe0 \<longleftrightarrow> x div 16 mod 16 = 14" by simp
  have "x AND 0xf8 = (x div 8 mod 32) * 8" using and_high[of x 3 5]
    by (simp add: push_bit_eq_mult take_bit_eq_mod drop_bit_eq_div mask_eq_exp_minus_1)
  then show "x AND 0xf8 = 0xf0 \<longleftrightarrow> x div 8 mod 32 = 30" by simp
  have "x AND 0xc0 = (x div 64 mod 4) * 64" using and_high[of x 6 2]
    by (simp add: push_bit_eq_mult take_bit_eq_mod drop_bit_eq_div mask_eq_exp_minus_1)
  then show "x AND 0xc0 = 0x80 \<longleftrightarrow> x div 64 mod 4 = 2" by simp
qed

lemma shift_in: "push_bit 6 c OR ((x :: nat) AND 0x3f) = c * 64 + x mod 64"
  using or_plus[of "x mod 64" 6 c] by (simp add: and_low or.commute push_bit_eq_mult)

lemma more_bytes_step:
  "more_bytes ce (Suc i) c (x # it) = (if x div 64 mod 4 \<noteq> 2 then Inr (None, it) else more_bytes ce i (c * 64 + x mod 64) it)"
  by (simp only: more_bytes.simps shift_in and_tests)

lemmas nextUtf8_cons = nextUtf8.simps(2)[unfolded and_tests and_low]

declare more_bytes.simps(3) [simp del] nextUtf8.simps(2) [simp del]

lemma put_code_point:
  assumes "code_point c"
  shows "putUtf8 c n = PUT n [] (utf8 c)"
proof -
  have d: "c div 64 < 64" if "c < 0x800" using that by simp
  have e: "c div 4096 < 32" if "c < 0x10000" using that by simp
  have "c < 0x400000" using assms by (simp add: code_point_def)
  then have f: "c div 262144 < 16" by simp
  show ?thesis using assms d e f
    by (simp add: putUtf8_def utf8_def code_point_def and_low or_lead drop_bit_eq_div)
qed

lemma PUT_spec:
  "PUT n dst xs = (if xs = [] \<or> int (length dst + length xs) \<le> n then (OK, dst @ xs)
     else (INSUFFICIENT_SPACE, dst @ take (nat (n - int (length dst))) xs))"
proof (induction n dst xs rule: PUT.induct)
  case (2 n dst x xs)
  have "nat (n - int (length dst)) = Suc (nat (n - int (length dst) - 1))" if "int (length dst) < n" using that by simp
  then show ?case using 2 by (cases "int (length dst) \<ge> n") (auto simp: diff_diff_eq add.commute)
qed simp

lemma div_mod_in:
  assumes "(k :: nat) * m \<le> x" "x < k * m + m"
  shows "x div m = k" "x mod m = x - k * m"
proof -
  show d: "x div m = k" using assms by (intro div_nat_eqI) (simp_all add: mult.commute)
  show "x mod m = x - k * m" unfolding d[symmetric] by (simp add: minus_div_mult_eq_mod)
qed

lemma nextUtf8_lead:
  "q < 32 \<Longrightarrow> nextUtf8 ce ((q + 192) # it) = decode_rest ce 1 q it"
  "q < 16 \<Longrightarrow> nextUtf8 ce ((q + 224) # it) = decode_rest ce 2 q it"
  "q < 8 \<Longrightarrow> nextUtf8 ce ((q + 240) # it) = decode_rest ce 3 q it"
proof -
  assume "q < 32"
  then have "(q + 192) div 32 = 6" "(q + 192) mod 32 = q" using div_mod_in[of 6 32 "q + 192"] by simp_all
  then show "nextUtf8 ce ((q + 192) # it) = decode_rest ce 1 q it" unfolding nextUtf8_cons by simp
next
  assume "q < 16"
  then have "(q + 224) div 32 = 7" "(q + 224) div 16 = 14" "(q + 224) mod 16 = q"
    using div_mod_in[of 7 32 "q + 224"] div_mod_in[of 14 16 "q + 224"] by simp_all
  then show "nextUtf8 ce ((q + 224) # it) = decode_rest ce 2 q it" unfolding nextUtf8_cons by simp
next
  assume "q < 8"
  then have "(q + 240) div 32 = 7" "(q + 240) div 16 = 15" "(q + 240) div 8 = 30" "(q + 240) mod 8 = q"
    using div_mod_in[of 7 32 "q + 240"] div_mod_in[of 15 16 "q + 240"] div_mod_in[of 30 8 "q + 240"] by simp_all
  then show "nextUtf8 ce ((q + 240) # it) = decode_rest ce 3 q it" unfolding nextUtf8_cons by simp
qed

lemma more_bytes_trail: "more_bytes ce (Suc i) c ((y mod 64 + 128) # it) = more_bytes ce i (c * 64 + y mod 64) it"
proof -
  have "(y mod 64 + 128) div 64 = 2" "(y mod 64 + 128) mod 64 = y mod 64"
    using div_mod_in[of 2 64 "y mod 64 + 128"] by simp_all
  then show ?thesis unfolding more_bytes_step by simp
qed

lemma digits_64:
  "(c :: nat) div 64 * 64 + c mod 64 = c" "c div 4096 * 64 + c div 64 mod 64 = c div 64"
  "c div 262144 * 64 + c div 4096 mod 64 = c div 4096"
proof -
  have "c div 4096 = c div 64 div 64" "c div 262144 = c div 4096 div 64" by (simp_all add: div_mult2_eq[symmetric])
  then show "(c :: nat) div 64 * 64 + c mod 64 = c" "c div 4096 * 64 + c div 64 mod 64 = c div 64"
    "c div 262144 * 64 + c div 4096 mod 64 = c div 4096" by simp_all
qed

lemma decode_utf8:
  assumes "code_point c"
  shows "nextUtf8 ce (utf8 c @ rest) = Inr (c, rest)"
proof -
  consider "c < 0x80" | "0x80 \<le> c" "c < 0x800" | "0x800 \<le> c" "c < 0x10000" | "0x10000 \<le> c" by linarith
  then show ?thesis
  proof cases
    case 1
    then show ?thesis by (simp add: utf8_def nextUtf8_cons)
  next
    case 2
    then have "c div 64 < 32" by simp
    from nextUtf8_lead(1)[OF this] show ?thesis using 2
      by (simp add: utf8_def decode_rest_def overlong_def more_bytes_trail digits_64)
  next
    case 3
    then have "c div 4096 < 16" by simp
    from nextUtf8_lead(2)[OF this] show ?thesis using 3 assms
      by (auto simp: utf8_def decode_rest_def overlong_def code_point_def more_bytes_trail digits_64 numeral_2_eq_2)
  next
    case 4
    have "c < 262144 * 8" using assms by (simp add: code_point_def)
    then have "c div 262144 < 8" by (simp add: less_mult_imp_div_less)
    from nextUtf8_lead(3)[OF this] show ?thesis using 4 assms
      by (auto simp: utf8_def decode_rest_def overlong_def code_point_def more_bytes_trail digits_64 numeral_3_eq_3)
  qed
qed

text \<open>The other direction: what decodes to a code point is its encoding.\<close>

lemma lead_byte:
  assumes "(b :: nat) < 256"
  shows "b div 32 mod 8 = 6 \<Longrightarrow> b = b mod 32 + 192" "b div 16 mod 16 = 14 \<Longrightarrow> b = b mod 16 + 224"
    "b div 8 mod 32 = 30 \<Longrightarrow> b = b mod 8 + 240" "b div 64 mod 4 = 2 \<Longrightarrow> b = b mod 64 + 128"
proof -
  have d: "b div 32 < 8" "b div 16 < 16" "b div 8 < 32" "b div 64 < 4" using assms by simp_all
  show "b = b mod 32 + 192" if "b div 32 mod 8 = 6" using that d(1) div_mult_mod_eq[of b 32] by simp
  show "b = b mod 16 + 224" if "b div 16 mod 16 = 14" using that d(2) div_mult_mod_eq[of b 16] by simp
  show "b = b mod 8 + 240" if "b div 8 mod 32 = 30" using that d(3) div_mult_mod_eq[of b 8] by simp
  show "b = b mod 64 + 128" if "b div 64 mod 4 = 2" using that d(4) div_mult_mod_eq[of b 64] by simp
qed

lemma more_bytes_Some:
  assumes "more_bytes ce (Suc i) c it = Inr (Some c1, it1)" "list_all (\<lambda>b. b < 256) it"
  obtains y it' where "y < 64" "it = (y + 128) # it'" "more_bytes ce i (c * 64 + y) it' = Inr (Some c1, it1)"
    "list_all (\<lambda>b. b < 256) it'"
proof (cases it)
  case Nil
  then show ?thesis using assms by (auto split: if_splits)
next
  case (Cons x it')
  then have "x div 64 mod 4 = 2" "more_bytes ce i (c * 64 + x mod 64) it' = Inr (Some c1, it1)" "x < 256"
      "list_all (\<lambda>b. b < 256) it'"
    using assms by (auto simp: more_bytes_step split: if_splits)
  then show ?thesis using that[of "x mod 64" it'] lead_byte(4)[of x] Cons by simp
qed

lemma decode_rest_valid:
  assumes "decode_rest ce n q it = Inr (c, rest)" "c \<noteq> invalid"
  shows "more_bytes ce n q it = Inr (Some c, rest) \<and> \<not> overlong n c \<and> code_point c"
proof -
  obtain r it2 where m: "more_bytes ce n q it = Inr (r, it2)"
    using assms by (cases "more_bytes ce n q it") (auto simp: decode_rest_def)
  obtain c1 where r: "r = Some c1" using assms m by (cases r) (auto simp: decode_rest_def)
  show ?thesis using assms unfolding decode_rest_def m r by (auto simp: code_point_def split: if_splits)
qed

lemma digit_64: "(z :: nat) < 64 \<Longrightarrow> (w * 64 + z) div 64 = w" "z < 64 \<Longrightarrow> (w * 64 + z) mod 64 = z"
  by simp_all

lemma decode_only:
  assumes d: "nextUtf8 ce s = Inr (c, rest)" and c: "c \<noteq> invalid" and s: "s \<noteq> []" "list_all (\<lambda>b. b < 256) s"
  shows "code_point c \<and> s = utf8 c @ rest"
proof -
  obtain b it where it: "s = b # it" "b < 256" "list_all (\<lambda>b. b < 256) it" using s by (cases s) auto
  consider (1) "b < 0x80" "c = b" "rest = it"
    | (2) "b div 32 mod 8 = 6" "decode_rest ce 1 (b mod 32) it = Inr (c, rest)"
    | (3) "b div 16 mod 16 = 14" "decode_rest ce 2 (b mod 16) it = Inr (c, rest)"
    | (4) "b div 8 mod 32 = 30" "decode_rest ce 3 (b mod 8) it = Inr (c, rest)"
    using d c unfolding it(1) nextUtf8_cons by (auto split: if_splits)
  then show ?thesis
  proof cases
    case 1
    then show ?thesis using it by (simp add: utf8_def code_point_def)
  next
    case 2
    note v = decode_rest_valid[OF 2(2) c]
    obtain y it' where y: "y < 64" "it = (y + 128) # it'" "more_bytes ce 0 (b mod 32 * 64 + y) it' = Inr (Some c, rest)"
      using more_bytes_Some[of ce 0 "b mod 32" it c rest] v it(3) by auto
    let ?q = "b mod 32"
    have e: "c = ?q * 64 + y" "rest = it'" "?q < 32" using y(3) by simp_all
    then have "utf8 c = [?q + 192, y + 128]" using v y(1) by (simp add: utf8_def overlong_def)
    then show ?thesis using v it(1) y(2) e lead_byte(1)[OF it(2) 2(1)] by (metis append_Cons append_Nil)
  next
    case 3
    note v = decode_rest_valid[OF 3(2) c]
    obtain y it' where y: "y < 64" "it = (y + 128) # it'" "more_bytes ce 1 (b mod 16 * 64 + y) it' = Inr (Some c, rest)"
        "list_all (\<lambda>b. b < 256) it'"
      using more_bytes_Some[of ce 1 "b mod 16" it c rest] v it(3) by (auto simp: numeral_2_eq_2)
    obtain z it'' where z: "z < 64" "it' = (z + 128) # it''" "more_bytes ce 0 ((b mod 16 * 64 + y) * 64 + z) it'' = Inr (Some c, rest)"
      using more_bytes_Some[of ce 0 "b mod 16 * 64 + y" it' c rest] y(3,4) by auto
    let ?q = "b mod 16"
    have e: "c = (?q * 64 + y) * 64 + z" "rest = it''" "?q < 16" using z(3) by simp_all
    have "c div 64 = ?q * 64 + y" "c mod 64 = z" unfolding e(1) by (rule digit_64[OF z(1)])+
    moreover have "c < 0x10000"
    proof -
      have "?q \<le> 15" "y \<le> 63" "z \<le> 63" using e(3) y(1) z(1) by simp_all
      then have "?q * 64 + y \<le> 15 * 64 + 63" by (intro add_mono mult_right_mono) simp_all
      then have "c \<le> (15 * 64 + 63) * 64 + 63" unfolding e(1) by (rule add_mono[OF mult_right_mono[OF _ le0] \<open>z \<le> 63\<close>])
      then show ?thesis by simp
    qed
    moreover have "c div 4096 = c div 64 div 64" by (simp add: div_mult2_eq[symmetric])
    ultimately have "utf8 c = [?q + 224, y + 128, z + 128]" using v y(1) by (simp add: utf8_def overlong_def)
    then show ?thesis using v it(1) y(2) z(2) e lead_byte(2)[OF it(2) 3(1)] by (metis append_Cons append_Nil)
  next
    case 4
    note v = decode_rest_valid[OF 4(2) c]
    obtain y it' where y: "y < 64" "it = (y + 128) # it'" "more_bytes ce 2 (b mod 8 * 64 + y) it' = Inr (Some c, rest)"
        "list_all (\<lambda>b. b < 256) it'"
      using more_bytes_Some[of ce 2 "b mod 8" it c rest] v it(3) by (auto simp: numeral_3_eq_3 numeral_2_eq_2)
    obtain z it'' where z: "z < 64" "it' = (z + 128) # it''" "more_bytes ce 1 ((b mod 8 * 64 + y) * 64 + z) it'' = Inr (Some c, rest)"
        "list_all (\<lambda>b. b < 256) it''"
      using more_bytes_Some[of ce 1 "b mod 8 * 64 + y" it' c rest] y(3,4) by (auto simp: numeral_2_eq_2)
    obtain u it3 where u: "u < 64" "it'' = (u + 128) # it3"
        "more_bytes ce 0 (((b mod 8 * 64 + y) * 64 + z) * 64 + u) it3 = Inr (Some c, rest)"
      using more_bytes_Some[of ce 0 "(b mod 8 * 64 + y) * 64 + z" it'' c rest] z(3,4) by auto
    let ?q = "b mod 8"
    have e: "c = ((?q * 64 + y) * 64 + z) * 64 + u" "rest = it3" using u(3) by simp_all
    have "c div 64 = (?q * 64 + y) * 64 + z" "c mod 64 = u" unfolding e(1) by (rule digit_64[OF u(1)])+
    moreover have "c div 4096 = c div 64 div 64" "c div 262144 = c div 4096 div 64" by (simp_all add: div_mult2_eq[symmetric])
    ultimately have "c div 64 mod 64 = z" "c div 4096 = ?q * 64 + y" "c mod 64 = u" "c div 4096 mod 64 = y" "c div 262144 = ?q"
      by (simp_all only: digit_64 y(1) z(1))
    then have "utf8 c = [?q + 240, y + 128, z + 128, u + 128]" using v by (simp add: utf8_def overlong_def)
    then show ?thesis using v it(1) y(2) z(2) u(2) e lead_byte(3)[OF it(2) 4(1)] by (metis append_Cons append_Nil)
  qed
qed

section \<open>Strings of code points\<close>

text \<open>A string of code points other than nul, encoded and terminated.\<close>

definition text_of :: "nat list \<Rightarrow> bool" where
  "text_of cs = list_all (\<lambda>c. code_point c \<and> c \<noteq> 0) cs"

definition str8 :: "nat list \<Rightarrow> nat list" where
  "str8 cs = concat (map utf8 cs) @ [0]"

definition str16 :: "nat list \<Rightarrow> nat list" where
  "str16 cs = concat (map utf16 cs) @ [0]"

lemma code_point_0: "code_point 0" "utf8 0 = [0]" "utf16 0 = [0]"
  by (simp_all add: code_point_def utf8_def utf16_def)

lemma code_point_not_invalid: "code_point c \<Longrightarrow> c \<noteq> invalid"
  by (auto simp: code_point_def invalid_def)

lemma next_str8:
  assumes "text_of cs"
  shows "nextUtf8 ce (str8 cs @ rest) = (case cs of [] \<Rightarrow> Inr (0, rest) | c # cs' \<Rightarrow> Inr (c, str8 cs' @ rest))"
  using assms decode_utf8[of 0 ce rest] decode_utf8[of "hd cs" ce "str8 (tl cs) @ rest"]
  by (cases cs) (simp_all add: str8_def text_of_def code_point_0)

lemma utf16_units:
  assumes "code_point c"
  shows "(if c > 0xffff then [0xd800 - drop_bit 10 0x10000 + drop_bit 10 c, 0xdc00 + (c AND 0x3ff)] else [c]) = utf16 c"
proof (cases "c > 0xffff")
  case True
  have "c = (c - 0x10000) + 64 * 1024" using True by simp
  then have "c div 1024 = (c - 0x10000) div 1024 + 64" by (metis div_mult_self3 add.commute zero_neq_numeral)
  then show ?thesis using True by (simp add: utf16_def drop_bit_eq_div and_low)
qed (simp add: utf16_def)

lemma to_utf16:
  assumes "text_of cs" "int (length dst) + int (length (str16 cs)) \<le> n"
  shows "utf8toutf16 n dst (str8 cs @ rest) = Inr (OK, dst @ concat (map utf16 cs))"
  using assms
proof (induction cs arbitrary: dst)
  case Nil
  then show ?case
    by (simp add: utf8toutf16.simps[of n dst] next_str8 text_of_def PUT_spec str16_def)
next
  case (Cons c cs)
  have c: "code_point c" "c \<noteq> 0" "text_of cs" using Cons.prems(1) by (simp_all add: text_of_def)
  have "PUT n dst (utf16 c) = (OK, dst @ utf16 c)" using Cons.prems(2) by (simp add: PUT_spec str16_def)
  then show ?case
    using Cons.IH[of "dst @ utf16 c"] Cons.prems c code_point_not_invalid[OF c(1)] utf16_units[OF c(1)]
    by (simp add: utf8toutf16.simps[of n dst] next_str8 str16_def split: if_splits)
qed

lemma decode_utf16:
  assumes "code_point c"
  shows "nextUtf16 (utf16 c @ rest) = Inr (Some c, rest)"
proof (cases "c < 0x10000")
  case True
  then show ?thesis using assms by (auto simp: utf16_def code_point_def)
next
  case False
  have "c \<le> 0x10ffff" using assms by (simp add: code_point_def)
  then have h: "c - 0x10000 < 1024 * 1024" by simp
  then have "(c - 0x10000) div 1024 < 1024" by (simp add: less_mult_imp_div_less)
  moreover have "c mod 1024 = (c - 0x10000) mod 1024"
    using False mod_mult_self1[of "c - 0x10000" 64 1024] by simp
  moreover have "0x10000 + (c - 0x10000) div 1024 * 1024 + (c - 0x10000) mod 1024 = c"
    using False div_mult_mod_eq[of "c - 0x10000" 1024] by linarith
  moreover have "c mod 1024 < 1024" by simp
  ultimately show ?thesis using False by (simp add: utf16_def push_bit_eq_mult algebra_simps)
qed

lemma utf16_hd:
  assumes "code_point c" "c \<noteq> 0"
  shows "\<exists>u us. utf16 c = u # us \<and> u \<noteq> 0 \<and> (u < 0x80 \<longrightarrow> us = [] \<and> c = u \<and> utf8 c = [u])"
  using assms by (auto simp: utf16_def utf8_def)

lemma to_utf8:
  assumes "text_of cs" "int (length dst) + int (length (str8 cs)) \<le> n"
  shows "utf16toutf8 n dst (str16 cs @ rest) = Inr (OK, dst @ concat (map utf8 cs))"
  using assms
proof (induction cs arbitrary: dst)
  case Nil
  then show ?case by (simp add: utf16toutf8.simps[of n dst] PUT_spec str8_def str16_def)
next
  case (Cons c cs)
  have c: "code_point c" "c \<noteq> 0" "text_of cs" using Cons.prems(1) by (simp_all add: text_of_def)
  obtain u us where u: "utf16 c = u # us" "u \<noteq> 0" "u < 0x80 \<longrightarrow> us = [] \<and> c = u \<and> utf8 c = [u]"
    using utf16_hd[OF c(1,2)] by blast
  have src: "str16 (c # cs) @ rest = u # us @ str16 cs @ rest" by (simp add: str16_def u(1))
  have IH: "utf16toutf8 n (dst @ utf8 c) (str16 cs @ rest) = Inr (OK, dst @ utf8 c @ concat (map utf8 cs))"
    using Cons.IH[OF c(3), of "dst @ utf8 c"] Cons.prems(2) by (simp add: str8_def)
  have p: "PUT (n - int (length dst)) [] (utf8 c) = (OK, utf8 c)" using Cons.prems(2) by (simp add: PUT_spec str8_def)
  show ?case
  proof (cases "u < 0x80")
    case True
    then have "utf8 c = [u]" using u(3) by blast
    then have "PUT n dst [u] = (OK, dst @ utf8 c)" using Cons.prems(2) by (simp add: PUT_spec str8_def)
    then show ?thesis unfolding src using True u IH by (simp add: utf16toutf8.simps[of n dst])
  next
    case False
    have "nextUtf16 (u # us @ str16 cs @ rest) = Inr (Some c, str16 cs @ rest)"
      using decode_utf16[OF c(1), of "str16 cs @ rest"] u(1) by simp
    then show ?thesis unfolding src using False u(2) IH p put_code_point[OF c(1), of "n - int (length dst)"]
      by (simp add: utf16toutf8.simps[of n dst] del: nextUtf16.simps)
  qed
qed

lemma validate_text:
  assumes "text_of cs"
  shows "validateUtf8 n (str8 cs @ rest) = Inr (True, n + length (str8 cs))"
  using assms
proof (induction cs arbitrary: n)
  case Nil
  then show ?case by (simp add: validateUtf8.simps[of n] next_str8 text_of_def)
next
  case (Cons c cs)
  then show ?case
    using code_point_not_invalid[of c]
    by (simp add: validateUtf8.simps[of n] next_str8 text_of_def) (simp add: str8_def)
qed

lemma count_text: "text_of cs \<Longrightarrow> countCodePoints n (str8 cs @ rest) = Inr (n + length cs)"
proof (induction cs arbitrary: n)
  case (Cons c cs)
  then show ?case by (simp add: countCodePoints.simps[of n] next_str8 text_of_def)
next
  case Nil
  then show ?case by (simp add: countCodePoints.simps[of n] next_str8 text_of_def)
qed

lemma validate_only:
  assumes "validateUtf8 n s = Inr (True, k)" "list_all (\<lambda>b. b < 256) s"
  shows "\<exists>cs. text_of cs \<and> k = n + length (str8 cs) \<and> take (k - n) s = str8 cs"
  using assms
proof (induction n s rule: validateUtf8.induct)
  case (1 n s)
  obtain c it where d: "nextUtf8 False s = Inr (c, it)"
    using "1.prems"(1) by (cases "nextUtf8 False s") (auto simp: validateUtf8.simps[of n])
  have s: "s \<noteq> []" using d by auto
  have c: "c \<noteq> invalid" using "1.prems"(1) d by (auto simp: validateUtf8.simps[of n] invalid_def)
  note e = decode_only[OF d c s "1.prems"(2)]
  show ?case
  proof (cases "c = 0")
    case True
    then have "k = n + 1" "s = 0 # it" using "1.prems"(1) d e by (simp_all add: validateUtf8.simps[of n] code_point_0)
    then show ?thesis by (intro exI[of _ "[]"]) (simp add: text_of_def str8_def)
  next
    case False
    let ?n = "n + (length s - length it)"
    have v: "validateUtf8 ?n it = Inr (True, k)" using "1.prems"(1) d c False by (simp add: validateUtf8.simps[of n])
    have "list_all (\<lambda>b. b < 256) it" using "1.prems"(2) e by auto
    then obtain cs where cs: "text_of cs" "k = ?n + length (str8 cs)" "take (k - ?n) it = str8 cs"
      using "1.IH"[OF d refl False c v] by blast
    have l: "length s - length it = length (utf8 c)" using e by simp
    have "take (k - n) s = utf8 c @ str8 cs" using cs(2,3) e l by simp
    then show ?thesis using cs(1,2) e l False
      by (intro exI[of _ "c # cs"]) (simp add: text_of_def str8_def)
  qed
qed

lemma put_code_point_iff: "putUtf8 c n = (OK, bs) \<longleftrightarrow> code_point c \<and> int (length (utf8 c)) \<le> n \<and> bs = utf8 c"
proof (cases "code_point c")
  case True
  have "utf8 c \<noteq> []" by (simp add: utf8_def)
  then show ?thesis using True by (auto simp: put_code_point PUT_spec)
next
  case False
  then show ?thesis by (auto simp: putUtf8_def code_point_def)
qed

text \<open>C14. Decoding a character gives back the code point that was encoded, and only encodings of
  code points decode: what \<open>nextUtf8\<close> accepts, with or without a known end of the string, is exactly
  what \<open>putUtf8\<close> writes for the code point it returns. So there are no overlong encodings, no
  surrogates and no code points beyond 0x10ffff.\<close>

theorem utf8_round_trip:
  "(putUtf8 c n = (OK, bs) \<longrightarrow> nextUtf8 ce (bs @ rest) = Inr (c, rest))
   \<and> (nextUtf8 ce s = Inr (c', rest') \<and> c' \<noteq> invalid \<and> s \<noteq> [] \<and> list_all (\<lambda>b. b < 256) s
       \<longrightarrow> (\<exists>bs. putUtf8 c' 4 = (OK, bs) \<and> s = bs @ rest' \<and> length bs \<le> 4))"
proof (intro conjI impI)
  assume "putUtf8 c n = (OK, bs)"
  then show "nextUtf8 ce (bs @ rest) = Inr (c, rest)" by (simp add: put_code_point_iff decode_utf8)
next
  assume "nextUtf8 ce s = Inr (c', rest') \<and> c' \<noteq> invalid \<and> s \<noteq> [] \<and> list_all (\<lambda>b. b < 256) s"
  then have "code_point c' \<and> s = utf8 c' @ rest'" using decode_only by blast
  moreover have "length (utf8 c') \<le> 4" by (simp add: utf8_def)
  ultimately show "\<exists>bs. putUtf8 c' 4 = (OK, bs) \<and> s = bs @ rest' \<and> length bs \<le> 4" by (simp add: put_code_point_iff)
qed

theorem utf8_round_trip_witness:
  "nextUtf8 True [0xe2, 0x82, 0xac] = Inr (0x20ac, [])"
proof -
  have "putUtf8 0x20ac 4 = (OK, [0xe2, 0x82, 0xac])" by (simp add: put_code_point_iff code_point_def utf8_def)
  then show ?thesis using utf8_round_trip[of "0x20ac" 4 "[0xe2, 0x82, 0xac]" True "[]"] by simp
qed



text \<open>Counting the code points of a string that ends in the middle of a character does not stop at
  the terminator, which the decoder has passed as the missing byte: the count goes on behind the
  string, where validation and conversion report an invalid string.\<close>

theorem count_reads_past_terminator:
  assumes "text_of cs" "0xc0 \<le> b" "b < 0xe0"
  defines "s \<equiv> concat (map utf8 cs) @ [b, 0]"
  shows "countCodePoints 0 s = Inl OutOfBounds \<and> validateUtf8 0 s = Inr (False, length s)
     \<and> countCodePoints 0 (s @ str8 behind) = countCodePoints (length cs + 1) (str8 behind)"
proof -
  have "b - 192 < 32" using assms(3) by linarith
  moreover have "b - 192 + 192 = b" using assms(2) by (rule le_add_diff_inverse2)
  ultimately have b: "nextUtf8 False (b # 0 # r) = Inr (invalid, r)" for r
    using nextUtf8_lead(1)[of "b - 192" False "0 # r"] by (simp add: decode_rest_def more_bytes_step)
  have step: "nextUtf8 False (concat (map utf8 (c # cs')) @ r) = Inr (c, concat (map utf8 cs') @ r)"
    if "text_of (c # cs')" for c cs' r
    using that decode_utf8[of c False] by (simp add: text_of_def)
  have count: "countCodePoints n (concat (map utf8 cs') @ b # 0 # r) = countCodePoints (n + length cs' + 1) r"
    if "text_of cs'" for n cs' r
    using that
  proof (induction cs' arbitrary: n)
    case Nil
    then show ?case by (simp add: countCodePoints.simps[of n] b invalid_def)
  next
    case (Cons c cs')
    then show ?case using step[of c cs' "b # 0 # r"]
      by (simp add: countCodePoints.simps[of n] text_of_def del: concat.simps list.map)
  qed
  have val: "validateUtf8 n (concat (map utf8 cs') @ [b, 0]) = Inr (False, n + length (concat (map utf8 cs')) + 2)"
    if "text_of cs'" for n cs'
    using that
  proof (induction cs' arbitrary: n)
    case Nil
    then show ?case by (simp add: validateUtf8.simps[of n] b invalid_def)
  next
    case (Cons c cs')
    then have c: "c \<noteq> 0" "c \<noteq> invalid" "text_of cs'" using code_point_not_invalid[of c] by (simp_all add: text_of_def)
    have "validateUtf8 n (concat (map utf8 (c # cs')) @ [b, 0]) = validateUtf8 (n + length (utf8 c)) (concat (map utf8 cs') @ [b, 0])"
      using step[OF Cons.prems, of "[b, 0]"] c by (simp add: validateUtf8.simps[of n])
    then show ?case using Cons.IH[OF c(3)] by simp
  qed
  have "countCodePoints k [] = Inl OutOfBounds" for k by (simp add: countCodePoints.simps[of k])
  then show ?thesis using count[OF assms(1), of 0 "[]"] count[OF assms(1), of 0 "str8 behind"] val[OF assms(1), of 0]
    by (simp add: s_def)
qed

theorem count_reads_past_terminator_witness:
  "countCodePoints 0 [0x41, 0xc3, 0] = Inl OutOfBounds"
  using count_reads_past_terminator[of "[0x41]" "0xc3" "[]"] by (simp add: text_of_def code_point_def utf8_def)

end
