(* ===== verification/Process_Pool.thy ===== *)
theory Process_Pool
  imports Miosix_Prelude
begin

text \<open>
  The allocator of the memory for processes, \<^verbatim>\<open>kernel/process_pool.h\<close> and \<^verbatim>\<open>kernel/process_pool.cpp\<close>:
  a bitmap with one bit for each block of 1 KB, and a map from the allocated addresses to their sizes.

  Addresses and sizes are natural numbers below \<open>2 ^ 32\<close>; no operation on them wraps. The bitmap is
  the array of 32 bit words that the constructor allocates: an access behind it is \<open>OutOfBounds\<close>. An
  allocation that throws \<^verbatim>\<open>bad_alloc\<close> returns \<open>None\<close>. Both operations hold the mutex of the pool.
\<close>

unbundle bit_operations_syntax

section \<open>The allocator\<close>

definition blockBits :: nat where "blockBits = 10"
definition blockSize :: nat where "blockSize = 2 ^ 10"

record ProcessPool =
  bitmap :: "32 word list"
  poolBase :: nat
  poolSize :: nat
  allocatedBlocks :: "nat \<Rightarrow> nat option"

definition testBit :: "nat \<Rightarrow> 32 word list \<Rightarrow> bool result" where
  "testBit i bm = ensure (i div 32 < length bm) OutOfBounds (Inr (bm ! (i div 32) AND push_bit (i mod 32) 1 \<noteq> 0))"

definition setBit :: "nat \<Rightarrow> 32 word list \<Rightarrow> 32 word list result" where
  "setBit i bm = ensure (i div 32 < length bm) OutOfBounds
     (Inr (bm[i div 32 := bm ! (i div 32) OR push_bit (i mod 32) 1]))"

definition clearBit :: "nat \<Rightarrow> 32 word list \<Rightarrow> 32 word list result" where
  "clearBit i bm = ensure (i div 32 < length bm) OutOfBounds
     (Inr (bm[i div 32 := bm ! (i div 32) AND NOT (push_bit (i mod 32) 1)]))"

text \<open>\<^verbatim>\<open>std::bit_ceil\<close>: the smallest power of two that is not smaller. It is undefined when the result
  does not fit in 32 bits.\<close>

function bit_ceil_from :: "nat \<Rightarrow> nat \<Rightarrow> nat" where
  "bit_ceil_from p x = (if x \<le> p \<or> p = 0 then p else bit_ceil_from (2 * p) x)"
  by pat_completeness auto

termination
  by (relation "measure (\<lambda>(p, x). x - p)") auto

declare bit_ceil_from.simps [simp del]

definition bit_ceil :: "nat \<Rightarrow> nat" where
  "bit_ceil x = bit_ceil_from 1 x"

text \<open>The loops over the bits of a block: \<open>range_used\<close> stops at the first bit that is set.\<close>

fun range_used :: "nat \<Rightarrow> nat \<Rightarrow> 32 word list \<Rightarrow> bool result" where
  "range_used i 0 bm = Inr False"
| "range_used i (Suc n) bm = rbind (testBit i bm) (\<lambda>b. if b then Inr True else range_used (i + 1) n bm)"

fun set_range :: "nat \<Rightarrow> nat \<Rightarrow> 32 word list \<Rightarrow> 32 word list result" where
  "set_range i 0 bm = Inr bm"
| "set_range i (Suc n) bm = rbind (setBit i bm) (set_range (i + 1) n)"

fun clear_range :: "nat \<Rightarrow> nat \<Rightarrow> 32 word list \<Rightarrow> 32 word list result" where
  "clear_range i 0 bm = Inr bm"
| "clear_range i (Suc n) bm = rbind (clearBit i bm) (clear_range (i + 1) n)"

text \<open>The search for a free block, with the first bit of the block. \<^verbatim>\<open>sizeBit\<close> is never 0.\<close>

function find_block :: "nat \<Rightarrow> nat \<Rightarrow> nat \<Rightarrow> 32 word list \<Rightarrow> nat option result" where
  "find_block i sizeBit lastBit bm =
     (if i \<le> lastBit \<and> 0 < sizeBit then
        rbind (range_used i sizeBit bm) (\<lambda>notEmpty.
          if notEmpty then find_block (i + sizeBit) sizeBit lastBit bm else Inr (Some i))
      else Inr None)"
  by pat_completeness auto

termination
  by (relation "measure (\<lambda>(i, _, lastBit, _). Suc lastBit - i)") auto

declare find_block.simps [simp del]

definition allocate :: "nat \<Rightarrow> ProcessPool \<Rightarrow> ((nat \<times> nat) option \<times> ProcessPool) result" where
  "allocate requested p =
     ensure (max requested blockSize \<le> 2 ^ 31) OutOfBounds
      (let size = bit_ceil (max requested blockSize) in
       if size > poolSize p then Inr (None, p)
       else
         let offset = (if poolBase p mod size \<noteq> 0 then size - poolBase p mod size else 0);
             startBit = offset div blockSize;
             sizeBit = size div blockSize
         in rbind (find_block startBit sizeBit (poolSize p div blockSize) (bitmap p)) (\<lambda>found.
              case found of
                None \<Rightarrow> Inr (None, p)
              | Some i \<Rightarrow>
                  rbind (set_range i sizeBit (bitmap p)) (\<lambda>bm.
                    let res = poolBase p + i * blockSize
                    in Inr (Some (res, size),
                            p\<lparr>bitmap := bm, allocatedBlocks := (allocatedBlocks p)(res := Some size)\<rparr>))))"

definition deallocate :: "nat \<Rightarrow> ProcessPool \<Rightarrow> ProcessPool result" where
  "deallocate ptr p =
     (case allocatedBlocks p ptr of
        None \<Rightarrow> Inl UNEXPECTED
      | Some bytes \<Rightarrow>
          let size = bytes div blockSize;
              firstBit = (ptr - poolBase p) div blockSize
          in rbind (clear_range firstBit size (bitmap p)) (\<lambda>bm.
               Inr (p\<lparr>bitmap := bm, allocatedBlocks := (allocatedBlocks p)(ptr := None)\<rparr>)))"

text \<open>The constructor: \<^verbatim>\<open>memset\<close> clears \<^verbatim>\<open>numBytes\<close> bytes of an array of whole words.\<close>

definition ProcessPool_new :: "nat \<Rightarrow> nat \<Rightarrow> ProcessPool result" where
  "ProcessPool_new base bytes =
     (let numBytes = bytes div blockSize div 8
      in ensure (numBytes \<le> numBytes div 4 * 4) OutOfBounds
           (Inr \<lparr>bitmap = replicate (numBytes div 4) 0, poolBase = base, poolSize = bytes,
                 allocatedBlocks = (\<lambda>_. None)\<rparr>))"

section \<open>The bitmap\<close>

definition is_set :: "32 word list \<Rightarrow> nat \<Rightarrow> bool" where
  "is_set bm i = (i div 32 < length bm \<and> bit (bm ! (i div 32)) (i mod 32))"

lemma word_of: "i div 32 < length bm \<longleftrightarrow> i < 32 * length (bm :: 32 word list)"
  by (simp add: div_less_iff_less_mult mult.commute)

lemma testBit_spec: "testBit i bm = (if i < 32 * length bm then Inr (is_set bm i) else Inl OutOfBounds)"
  by (simp only: testBit_def is_set_def bit_iff_and_push_bit_not_eq_0[symmetric] word_of[symmetric] ensure_def simp_thms
      cong: conj_cong)
     simp

lemma same_bit: "i div 32 = j div 32 \<and> i mod 32 = j mod 32 \<longleftrightarrow> i = (j :: nat)"
  by (metis div_mod_decomp)

lemma setBit_spec:
  assumes "i < 32 * length bm"
  shows "\<exists>bm'. setBit i bm = Inr bm' \<and> length bm' = length bm \<and> (\<forall>j. is_set bm' j = (j = i \<or> is_set bm j))"
  using assms
  by (auto simp: setBit_def is_set_def ensure_def word_of[symmetric] nth_list_update bit_simps)
     (metis same_bit)+

lemma clearBit_spec:
  assumes "i < 32 * length bm"
  shows "\<exists>bm'. clearBit i bm = Inr bm' \<and> length bm' = length bm \<and> (\<forall>j. is_set bm' j = (j \<noteq> i \<and> is_set bm j))"
  using assms
  by (auto simp: clearBit_def is_set_def ensure_def word_of[symmetric] nth_list_update bit_simps)
     (metis same_bit)+

lemma is_set_bound: "is_set bm i \<Longrightarrow> i < 32 * length bm"
  by (simp add: is_set_def word_of)

lemma bitmap_eqI:
  assumes "length bm = length bm'" "\<And>i. is_set bm i = is_set bm' i"
  shows "bm = bm'"
proof (rule nth_equalityI)
  fix k assume k: "k < length bm"
  show "bm ! k = bm' ! k"
  proof (rule bit_word_eqI)
    fix n assume "n < LENGTH(32)"
    then have "(32 * k + n) div 32 = k" "(32 * k + n) mod 32 = n" by simp_all
    then show "bit (bm ! k) n = bit (bm' ! k) n" using assms(2)[of "32 * k + n"] assms(1) k by (simp add: is_set_def)
  qed
qed (rule assms(1))

abbreviation range_free :: "32 word list \<Rightarrow> nat \<Rightarrow> nat \<Rightarrow> bool" where
  "range_free bm i n \<equiv> (\<forall>j. i \<le> j \<and> j < i + n \<longrightarrow> \<not> is_set bm j)"

text \<open>A set bit in the range is found before the end of the bitmap is passed.\<close>

lemma range_used_spec:
  "range_used i n bm = (if \<not> range_free bm i n then Inr True
     else if n = 0 \<or> i + n \<le> 32 * length bm then Inr False else Inl OutOfBounds)"
proof (induction i n bm rule: range_used.induct)
  case (2 i n bm)
  have split: "range_free bm i (Suc n) \<longleftrightarrow> \<not> is_set bm i \<and> range_free bm (i + 1) n"
    by (auto simp: Suc_le_eq) (metis le_neq_implies_less)
  show ?case
  proof (cases "i < 32 * length bm")
    case True
    then show ?thesis using 2[of "is_set bm i"] split by (auto simp: testBit_spec)
  next
    case False
    then have "range_free bm i (Suc n)" using is_set_bound by fastforce
    then show ?thesis using False by (simp add: testBit_spec)
  qed
qed simp

lemma set_range_spec:
  "i + n \<le> 32 * length bm \<Longrightarrow>
     \<exists>bm'. set_range i n bm = Inr bm' \<and> length bm' = length bm \<and> (\<forall>j. is_set bm' j = (i \<le> j \<and> j < i + n \<or> is_set bm j))"
proof (induction i n bm rule: set_range.induct)
  case (2 i n bm)
  obtain bm1 where b: "setBit i bm = Inr bm1" "length bm1 = length bm" "\<And>j. is_set bm1 j = (j = i \<or> is_set bm j)"
    using setBit_spec[of i bm] 2(2) by auto
  obtain bm2 where c: "set_range (i + 1) n bm1 = Inr bm2" "length bm2 = length bm1"
      "\<And>j. is_set bm2 j = (i + 1 \<le> j \<and> j < i + 1 + n \<or> is_set bm1 j)"
    using 2(1)[OF b(1)] 2(2) b(2) by auto
  have "is_set bm2 j = (i \<le> j \<and> j < i + Suc n \<or> is_set bm j)" for j using b(3)[of j] c(3)[of j] by auto
  then show ?case using b(1,2) c(1,2) by simp
qed auto

lemma clear_range_spec:
  "i + n \<le> 32 * length bm \<Longrightarrow>
     \<exists>bm'. clear_range i n bm = Inr bm' \<and> length bm' = length bm \<and> (\<forall>j. is_set bm' j = (\<not> (i \<le> j \<and> j < i + n) \<and> is_set bm j))"
proof (induction i n bm rule: clear_range.induct)
  case (2 i n bm)
  obtain bm1 where b: "clearBit i bm = Inr bm1" "length bm1 = length bm" "\<And>j. is_set bm1 j = (j \<noteq> i \<and> is_set bm j)"
    using clearBit_spec[of i bm] 2(2) by auto
  obtain bm2 where c: "clear_range (i + 1) n bm1 = Inr bm2" "length bm2 = length bm1"
      "\<And>j. is_set bm2 j = (\<not> (i + 1 \<le> j \<and> j < i + 1 + n) \<and> is_set bm1 j)"
    using 2(1)[OF b(1)] 2(2) b(2) by auto
  have "is_set bm2 j = (\<not> (i \<le> j \<and> j < i + Suc n) \<and> is_set bm j)" for j using b(3)[of j] c(3)[of j] by auto
  then show ?case using b(1,2) c(1,2) by simp
qed auto

lemma range_used_True: "\<not> range_free bm i n \<Longrightarrow> range_used i n bm = Inr True"
  unfolding range_used_spec by (rule if_P)

lemma find_block_step:
  assumes "0 < k"
  shows "find_block i k l bm = (if l < i then Inr None else if \<not> range_free bm i k then find_block (i + k) k l bm
     else if i + k \<le> 32 * length bm then Inr (Some i) else Inl OutOfBounds)"
  using assms by (simp add: find_block.simps[of i] range_used_spec del: not_all)

lemma find_block_Some:
  assumes "0 < k" "find_block i k l bm = Inr (Some b)"
  shows "(\<exists>m. b = i + m * k) \<and> b \<le> l \<and> b + k \<le> 32 * length bm \<and> range_free bm b k"
  using assms
proof (induction i k l bm rule: find_block.induct)
  case (1 i k l bm)
  show ?case
  proof (cases "range_free bm i k")
    case True
    then have "b = i" "i \<le> l" "i + k \<le> 32 * length bm"
      using "1.prems" by (simp_all add: find_block_step split: if_splits)
    then show ?thesis using True by (intro conjI exI[of _ 0]) simp_all
  next
    case False
    then have i: "i \<le> l" and f: "find_block (i + k) k l bm = Inr (Some b)"
      using "1.prems" by (simp_all add: find_block_step[of k i] split: if_splits)
    from "1.IH"[OF conjI[OF i "1.prems"(1)] range_used_True[OF False] TrueI "1.prems"(1) f]
    obtain m where "b = i + k + m * k" "b \<le> l \<and> b + k \<le> 32 * length bm \<and> range_free bm b k" by blast
    then show ?thesis by (intro conjI exI[of _ "Suc m"]) simp_all
  qed
qed

text \<open>The search finds a free range if there is one, and fails only behind the bitmap.\<close>

lemma find_block_complete:
  assumes "0 < k" "\<And>b. find_block i k l bm \<noteq> Inr (Some b)" "i + m * k \<le> l" "i + m * k + k \<le> 32 * length bm"
  shows "\<not> range_free bm (i + m * k) k"
  using assms
proof (induction i k l bm arbitrary: m rule: find_block.induct)
  case (1 i k l bm)
  have i: "i \<le> l" "i + k \<le> 32 * length bm" using "1.prems"(3,4) by simp_all
  then have u: "\<not> range_free bm i k" using "1.prems"(2)[of i] find_block_step[OF "1.prems"(1), of i l bm] by (auto split: if_splits)
  then have f: "find_block i k l bm = find_block (i + k) k l bm"
    using "1.prems"(1) i(1) by (simp add: find_block_step[of k i])
  show ?case
  proof (cases m)
    case (Suc n)
    then show ?thesis
      using "1.IH"[OF conjI[OF i(1) "1.prems"(1)] range_used_True[OF u] TrueI "1.prems"(1), of n] "1.prems"(2-4)
      unfolding f by (simp add: add.assoc)
  qed (use u in simp)
qed

lemma find_block_error: "0 < k \<Longrightarrow> find_block i k l bm = Inl e \<Longrightarrow> e = OutOfBounds"
proof (induction i k l bm rule: find_block.induct)
  case (1 i k l bm)
  show ?case
  proof (cases "i \<le> l \<and> \<not> range_free bm i k")
    case True
    then have i: "i \<le> l" and u: "\<not> range_free bm i k" by blast+
    have "find_block (i + k) k l bm = Inl e" using "1.prems" i u by (simp add: find_block_step[of k i])
    from "1.IH"[OF conjI[OF i "1.prems"(1)] range_used_True[OF u] TrueI "1.prems"(1) this] show ?thesis .
  next
    case False
    then show ?thesis using "1.prems" by (auto simp: find_block_step[of k i] split: if_splits)
  qed
qed

lemma find_block_full:
  assumes "0 < k" "\<And>j. j < 32 * length bm \<Longrightarrow> is_set bm j" "i + m * k = 32 * length bm"
  shows "find_block i k (32 * length bm) bm = Inl OutOfBounds"
  using assms(3)
proof (induction m arbitrary: i)
  case 0
  then have "range_free bm i k" using is_set_bound by fastforce
  then show ?case using 0 assms(1) by (simp add: find_block_step)
next
  case (Suc m)
  then have i: "i < 32 * length bm" using assms(1) by simp
  then have "\<not> range_free bm i k" using assms(1,2) by (metis less_add_same_cancel1 order_refl)
  then show ?case using Suc.IH[of "i + k"] Suc.prems assms(1) i by (simp add: find_block_step[of k i])
qed

section \<open>The invariant\<close>

text \<open>Blocks are powers of two, aligned to their size and within the pool, they do not overlap, and the
  bitmap has exactly the bits of the allocated blocks set. The bitmap covers the pool.\<close>

definition pool_inv :: "ProcessPool \<Rightarrow> bool" where
  "pool_inv p =
     (1024 dvd poolBase p \<and> poolBase p + poolSize p \<le> 2 ^ 32 \<and> 32 * length (bitmap p) * 1024 = poolSize p
      \<and> (\<forall>a s. allocatedBlocks p a = Some s \<longrightarrow>
           (\<exists>k \<ge> 10. s = 2 ^ k) \<and> s dvd a \<and> poolBase p \<le> a \<and> a + s \<le> poolBase p + poolSize p)
      \<and> (\<forall>a s b t. allocatedBlocks p a = Some s \<and> allocatedBlocks p b = Some t \<and> a \<noteq> b \<longrightarrow> a + s \<le> b \<or> b + t \<le> a)
      \<and> (\<forall>i. is_set (bitmap p) i =
           (\<exists>a s. allocatedBlocks p a = Some s \<and> a \<le> poolBase p + 1024 * i \<and> poolBase p + 1024 * i < a + s)))"

lemma pool_invD:
  assumes "pool_inv p"
  shows "1024 dvd poolBase p" "poolBase p + poolSize p \<le> 2 ^ 32" "32 * length (bitmap p) * 1024 = poolSize p"
    "allocatedBlocks p a = Some s \<Longrightarrow>
       (\<exists>k \<ge> 10. s = 2 ^ k) \<and> s dvd a \<and> poolBase p \<le> a \<and> a + s \<le> poolBase p + poolSize p"
    "allocatedBlocks p a = Some s \<Longrightarrow> allocatedBlocks p b = Some t \<Longrightarrow> a \<noteq> b \<Longrightarrow> a + s \<le> b \<or> b + t \<le> a"
    "is_set (bitmap p) i =
       (\<exists>a s. allocatedBlocks p a = Some s \<and> a \<le> poolBase p + 1024 * i \<and> poolBase p + 1024 * i < a + s)"
proof -
  note h = assms[unfolded pool_inv_def]
  show "1024 dvd poolBase p" "poolBase p + poolSize p \<le> 2 ^ 32" "32 * length (bitmap p) * 1024 = poolSize p"
    using h[THEN conjunct1] h[THEN conjunct2, THEN conjunct1] h[THEN conjunct2, THEN conjunct2, THEN conjunct1] .
  note h3 = h[THEN conjunct2, THEN conjunct2, THEN conjunct2]
  show "(\<exists>k \<ge> 10. s = 2 ^ k) \<and> s dvd a \<and> poolBase p \<le> a \<and> a + s \<le> poolBase p + poolSize p"
    if "allocatedBlocks p a = Some s"
    by (rule h3[THEN conjunct1, THEN spec, THEN spec, THEN mp, OF that])
  show "a + s \<le> b \<or> b + t \<le> a" if "allocatedBlocks p a = Some s" "allocatedBlocks p b = Some t" "a \<noteq> b"
    using h3[THEN conjunct2, THEN conjunct1, THEN spec, THEN spec, THEN spec, THEN spec, of a s b t] that by simp
  show "is_set (bitmap p) i =
       (\<exists>a s. allocatedBlocks p a = Some s \<and> a \<le> poolBase p + 1024 * i \<and> poolBase p + 1024 * i < a + s)"
    by (rule h3[THEN conjunct2, THEN conjunct2, THEN spec])
qed

lemma pool_new_inv:
  assumes "1024 dvd base" "32768 dvd bytes" "base + bytes \<le> 2 ^ 32"
  shows "\<exists>p. ProcessPool_new base bytes = Inr p \<and> pool_inv p \<and> poolBase p = base \<and> poolSize p = bytes \<and> allocatedBlocks p = (\<lambda>_. None)"
proof -
  obtain n where n: "bytes = 32768 * n" using assms(2) by blast
  have "bytes div 1024 div 8 = 4 * n" unfolding n by simp
  then have e: "ProcessPool_new base bytes
      = Inr \<lparr>bitmap = replicate n 0, poolBase = base, poolSize = bytes, allocatedBlocks = (\<lambda>_. None)\<rparr>"
    by (simp add: ProcessPool_new_def blockSize_def Let_def ensure_def)
  have "\<not> is_set (replicate n 0) i" for i by (auto simp: is_set_def)
  then show ?thesis using assms(1,3) n unfolding e pool_inv_def by simp
qed

lemma bit_ceil_from_spec:
  "p = 2 ^ j \<Longrightarrow> \<exists>k \<ge> j. bit_ceil_from p x = 2 ^ k \<and> x \<le> 2 ^ k \<and> (k = j \<or> 2 ^ k < 2 * x)"
proof (induction p x arbitrary: j rule: bit_ceil_from.induct)
  case (1 p x)
  show ?case
  proof (cases "x \<le> p")
    case True
    then have "bit_ceil_from p x = p" by (simp add: bit_ceil_from.simps[of p])
    then show ?thesis using 1(2) True by (intro exI[of _ j]) simp
  next
    case False
    then obtain k where k: "Suc j \<le> k" "bit_ceil_from (2 * p) x = 2 ^ k" "x \<le> 2 ^ k" "k = Suc j \<or> 2 ^ k < 2 * x"
      using 1(1)[of "Suc j"] 1(2) by auto
    have "p \<noteq> 0" using 1(2) by simp
    then have "bit_ceil_from p x = 2 ^ k" using False k(2) by (subst bit_ceil_from.simps) simp
    moreover have "2 ^ k < 2 * x" using k(4) False 1(2) by auto
    ultimately show ?thesis using k by (intro exI[of _ k]) auto
  qed
qed

lemma bit_ceil_spec:
  assumes "1024 \<le> x"
  shows "\<exists>k \<ge> 10. bit_ceil x = 2 ^ k \<and> x \<le> 2 ^ k \<and> 2 ^ k < 2 * x"
proof -
  obtain k where k: "bit_ceil x = 2 ^ k" "x \<le> 2 ^ k" "k = 0 \<or> 2 ^ k < 2 * x"
    using bit_ceil_from_spec[of 1 0 x] by (auto simp: bit_ceil_def)
  have "(2 :: nat) ^ 10 \<le> 2 ^ k" using assms k(2) by simp
  then have "10 \<le> k" by (rule power_le_imp_le_exp[rotated]) simp
  then show ?thesis using k by auto
qed

text \<open>The addresses of a block of \<open>k\<close> bits from bit \<open>i\<close> on, and the bits of an allocated block.\<close>

lemma block_bits:
  assumes inv: "pool_inv p" and a: "allocatedBlocks p a = Some s"
  shows "\<exists>i. a = poolBase p + 1024 * i \<and> s = 1024 * (s div 1024) \<and> i + s div 1024 \<le> 32 * length (bitmap p)
     \<and> (a - poolBase p) div 1024 = i"
proof -
  note d = pool_invD[OF inv]
  obtain k where k: "10 \<le> k" "s = 2 ^ k" using d(4)[OF a] by blast
  have s: "1024 dvd s" using le_imp_power_dvd[OF k(1), of "2 :: nat"] k(2) by simp
  then have "1024 dvd a - poolBase p" using d(1) d(4)[OF a] by (meson dvd_diff_nat dvd_trans)
  then obtain i where "a - poolBase p = 1024 * i" by blast
  moreover have "poolBase p \<le> a" using d(4)[OF a] by blast
  ultimately have i: "a = poolBase p + 1024 * i" by linarith
  have "1024 * (i + s div 1024) \<le> 32 * length (bitmap p) * 1024"
    using i s d(3) d(4)[OF a] by (simp add: algebra_simps)
  then show ?thesis using i s by auto
qed

text \<open>A block of the pool overlaps an allocated one exactly if one of its bits is set.\<close>

lemma overlap_bits:
  assumes inv: "pool_inv p" and b: "allocatedBlocks p b = Some t" and o: "b < poolBase p + 1024 * i + 1024 * k" "poolBase p + 1024 * i < b + t"
    and k: "0 < k"
  shows "\<not> range_free (bitmap p) i k"
proof -
  obtain j where j: "b = poolBase p + 1024 * j" "t = 1024 * (t div 1024)" using block_bits[OF inv b] by blast
  have t: "0 < t" using pool_invD(4)[OF inv b] by auto
  let ?m = "max i j"
  have lt: "i \<le> ?m" "?m < i + k" "j \<le> ?m" "1024 * ?m < 1024 * j + t"
    using o j k t by (auto simp: max_def)
  have "is_set (bitmap p) ?m" unfolding pool_invD(6)[OF inv] using b lt(3,4) j(1) by (intro exI[of _ b] exI[of _ t]) simp
  then show ?thesis using lt(1,2) by blast
qed

lemma free_block_none:
  assumes "pool_inv p" "range_free (bitmap p) i k" "0 < k"
  shows "allocatedBlocks p (poolBase p + 1024 * i) = None"
proof (rule ccontr)
  assume "allocatedBlocks p (poolBase p + 1024 * i) \<noteq> None"
  then obtain t where t: "allocatedBlocks p (poolBase p + 1024 * i) = Some t" by blast
  have "0 < t" using pool_invD(4)[OF assms(1) t] by auto
  with overlap_bits[OF assms(1) t, of i k] assms(2,3) show False by simp
qed

text \<open>Marking a free range as allocated, and releasing a block.\<close>

lemma pool_take:
  assumes inv: "pool_inv p" and free: "range_free (bitmap p) i k" and k: "0 < k" "\<exists>n \<ge> 10. 1024 * k = 2 ^ n"
    and i: "i + k \<le> 32 * length (bitmap p)" "1024 * k dvd poolBase p + 1024 * i"
    and bm: "length bm = length (bitmap p)" "\<And>j. is_set bm j = (i \<le> j \<and> j < i + k \<or> is_set (bitmap p) j)"
  shows "pool_inv (p\<lparr>bitmap := bm, allocatedBlocks := (allocatedBlocks p)(poolBase p + 1024 * i := Some (1024 * k))\<rparr>)"
proof -
  note d = pool_invD[OF inv]
  let ?a = "poolBase p + 1024 * i" and ?s = "1024 * k"
  have room: "?a + ?s \<le> poolBase p + poolSize p" using i(1) d(3) by linarith
  have none: "allocatedBlocks p ?a = None" by (rule free_block_none[OF inv free k(1)])
  have apart: "b + t \<le> ?a \<or> ?a + ?s \<le> b" if "allocatedBlocks p b = Some t" for b t
    using overlap_bits[OF inv that, of i k] free k(1) by force
  have cover: "is_set bm j = (\<exists>a s. ((allocatedBlocks p)(?a := Some ?s)) a = Some s \<and> a \<le> poolBase p + 1024 * j \<and> poolBase p + 1024 * j < a + s)" for j
  proof -
    have "(i \<le> j \<and> j < i + k) = (?a \<le> poolBase p + 1024 * j \<and> poolBase p + 1024 * j < ?a + ?s)" by auto
    moreover have "(\<exists>a s. ((allocatedBlocks p)(?a := Some ?s)) a = Some s \<and> Q a s) = (Q ?a ?s \<or> (\<exists>a s. allocatedBlocks p a = Some s \<and> Q a s))" for Q
      using none by (metis fun_upd_apply option.distinct(1) option.inject)
    ultimately show ?thesis using bm(2)[of j] d(6)[of j] by simp
  qed
  show ?thesis unfolding pool_inv_def
  proof (intro conjI allI impI, goal_cases)
    case (4 a s)
    then show ?case using k(2) d(4)[of a s] by (auto split: if_splits)
  next
    case (5 a s)
    then show ?case using i(2) d(4)[of a s] by (auto split: if_splits)
  next
    case (6 a s)
    then show ?case using d(4)[of a s] by (auto split: if_splits)
  next
    case (7 a s)
    then show ?case using room d(4)[of a s] by (auto split: if_splits)
  next
    case (8 a s b t)
    then show ?case using apart[of a s] apart[of b t] d(5)[of a s b t] by (auto split: if_splits)
  next
    case (9 j)
    then show ?case using cover[of j] by simp
  qed (use d(1-3) bm(1) in simp_all)
qed

lemma pool_release:
  assumes inv: "pool_inv p" and a: "allocatedBlocks p a = Some s"
    and bm: "length bm = length (bitmap p)"
      "\<And>j. is_set bm j = (\<not> (a \<le> poolBase p + 1024 * j \<and> poolBase p + 1024 * j < a + s) \<and> is_set (bitmap p) j)"
  shows "pool_inv (p\<lparr>bitmap := bm, allocatedBlocks := (allocatedBlocks p)(a := None)\<rparr>)"
proof -
  note d = pool_invD[OF inv]
  have cover: "is_set bm j = (\<exists>b t. ((allocatedBlocks p)(a := None)) b = Some t \<and> b \<le> poolBase p + 1024 * j \<and> poolBase p + 1024 * j < b + t)" for j
  proof -
    have "is_set bm j \<longleftrightarrow> (\<exists>b t. allocatedBlocks p b = Some t \<and> b \<noteq> a \<and> b \<le> poolBase p + 1024 * j \<and> poolBase p + 1024 * j < b + t)"
    proof
      assume "is_set bm j"
      then show "\<exists>b t. allocatedBlocks p b = Some t \<and> b \<noteq> a \<and> b \<le> poolBase p + 1024 * j \<and> poolBase p + 1024 * j < b + t"
        using bm(2)[of j] d(6)[of j] a by (metis option.inject)
    next
      assume "\<exists>b t. allocatedBlocks p b = Some t \<and> b \<noteq> a \<and> b \<le> poolBase p + 1024 * j \<and> poolBase p + 1024 * j < b + t"
      then obtain b t where b: "allocatedBlocks p b = Some t" "b \<noteq> a" "b \<le> poolBase p + 1024 * j" "poolBase p + 1024 * j < b + t" by blast
      then show "is_set bm j" using d(5)[OF a b(1)] bm(2)[of j] d(6)[of j] by auto
    qed
    then show ?thesis by (auto simp: fun_upd_def split: if_splits)
  qed
  show ?thesis unfolding pool_inv_def
  proof (intro conjI allI impI, goal_cases)
    case (8 b t c u)
    then show ?case using d(5)[of b t c u] by (auto split: if_splits)
  next
    case (9 j)
    then show ?case using cover[of j] by simp
  next
    case (4 b t)
    then show ?case using d(4)[of b t] by (auto split: if_splits)
  next
    case (5 b t)
    then show ?case using d(4)[of b t] by (auto split: if_splits)
  next
    case (6 b t)
    then show ?case using d(4)[of b t] by (auto split: if_splits)
  next
    case (7 b t)
    then show ?case using d(4)[of b t] by (auto split: if_splits)
  qed (use d(1-3) bm(1) in simp_all)
qed

section \<open>Allocation\<close>

text \<open>The first aligned address of the pool.\<close>

definition align_offset :: "nat \<Rightarrow> nat \<Rightarrow> nat" where
  "align_offset base s = (if base mod s \<noteq> 0 then s - base mod s else 0)"

lemma align_offset_spec:
  assumes "0 < s"
  shows "s dvd base + align_offset base s" "m dvd base \<Longrightarrow> m dvd s \<Longrightarrow> m dvd align_offset base s"
    "s dvd a \<Longrightarrow> base \<le> a \<Longrightarrow> base + align_offset base s \<le> a"
proof -
  let ?r = "base mod s" and ?o = "align_offset base s"
  have r: "?r < s" using assms by simp
  show al: "s dvd base + ?o"
  proof (cases "?r = 0")
    case False
    then have "?o = s - ?r" by (simp add: align_offset_def)
    then have "base + ?o = base div s * s + s" using r div_mult_mod_eq[of base s] by linarith
    then show ?thesis by (metis dvd_add dvd_refl dvd_triv_right)
  qed (simp add: align_offset_def mod_eq_0_iff_dvd)
  show "m dvd ?o" if "m dvd base" "m dvd s" using that by (simp add: align_offset_def dvd_mod dvd_diff_nat)
  show "base + ?o \<le> a" if "s dvd a" "base \<le> a"
  proof (rule ccontr)
    assume "\<not> base + ?o \<le> a"
    then have lt: "a < base + ?o" by simp
    have "?o < s" using r assms by (auto simp: align_offset_def)
    have "s dvd base + ?o - a" using al that(1) by simp
    moreover have "0 < base + ?o - a" "base + ?o - a < s" using lt that(2) \<open>?o < s\<close> by simp_all
    ultimately show False by (meson nat_dvd_not_less)
  qed
qed

definition search_from :: "nat \<Rightarrow> nat \<Rightarrow> ProcessPool \<Rightarrow> ((nat \<times> nat) option \<times> ProcessPool) result" where
  "search_from i k p = rbind (find_block i k (32 * length (bitmap p)) (bitmap p)) (\<lambda>found.
     case found of
       None \<Rightarrow> Inr (None, p)
     | Some b \<Rightarrow> rbind (set_range b k (bitmap p)) (\<lambda>bm.
         Inr (Some (poolBase p + 1024 * b, 1024 * k),
           p\<lparr>bitmap := bm, allocatedBlocks := (allocatedBlocks p)(poolBase p + 1024 * b := Some (1024 * k))\<rparr>)))"

lemma allocate_unfold:
  assumes inv: "pool_inv p" and req: "req \<le> 2 ^ 31"
  obtains n k i where "10 \<le> n" "bit_ceil (max req 1024) = 2 ^ n" "req \<le> 2 ^ n" "2 ^ n < 2 * max req 1024"
    "0 < k" "2 ^ n = 1024 * k" "align_offset (poolBase p) (2 ^ n) = 1024 * i" "2 ^ n dvd poolBase p + 1024 * i"
    "allocate req p = (if 2 ^ n > poolSize p then Inr (None, p) else search_from i k p)"
proof -
  note d = pool_invD[OF inv]
  obtain n where n: "10 \<le> n" "bit_ceil (max req 1024) = 2 ^ n" "max req 1024 \<le> 2 ^ n" "2 ^ n < 2 * max req 1024"
    using bit_ceil_spec[of "max req 1024"] by auto
  have d1: "1024 dvd (2 :: nat) ^ n" using le_imp_power_dvd[OF n(1), of "2 :: nat"] by simp
  then obtain k :: nat where k: "2 ^ n = 1024 * k" by blast
  have k0: "0 < k" using k by (metis mult_0_right power_not_zero zero_neq_numeral not_gr_zero)
  obtain i where i: "align_offset (poolBase p) (2 ^ n) = 1024 * i"
    using align_offset_spec(2)[of "2 ^ n" 1024 "poolBase p"] d(1) d1 by auto
  have dv: "2 ^ n dvd poolBase p + 1024 * i" using align_offset_spec(1)[of "2 ^ n" "poolBase p"] i by simp
  have ps: "poolSize p div 1024 = 32 * length (bitmap p)" using d(3) by simp
  have m: "max req 1024 \<le> 2 ^ 31" using req by simp
  have off: "(if poolBase p mod (1024 * k) \<noteq> 0 then 1024 * k - poolBase p mod (1024 * k) else 0) = 1024 * i"
    using i k by (simp add: align_offset_def)
  have "allocate req p = (if 2 ^ n > poolSize p then Inr (None, p) else search_from i k p)"
  proof -
    have b: "blockSize = 1024" by (simp add: blockSize_def)
    have c: "1024 * x div 1024 = (x :: nat)" for x by simp
    show ?thesis unfolding allocate_def search_from_def b Let_def n(2) k off c ps ensure_def mult.commute[of _ 1024] using m by simp
  qed
  with n k0 k i dv that show ?thesis by auto
qed

lemma deallocate_spec:
  assumes inv: "pool_inv p" and a: "allocatedBlocks p a = Some s"
  shows "\<exists>bm. deallocate a p = Inr (p\<lparr>bitmap := bm, allocatedBlocks := (allocatedBlocks p)(a := None)\<rparr>)
     \<and> length bm = length (bitmap p)
     \<and> (\<forall>j. is_set bm j = (\<not> (a \<le> poolBase p + 1024 * j \<and> poolBase p + 1024 * j < a + s) \<and> is_set (bitmap p) j))"
proof -
  obtain i where i: "a = poolBase p + 1024 * i" "s = 1024 * (s div 1024)" "i + s div 1024 \<le> 32 * length (bitmap p)"
      "(a - poolBase p) div 1024 = i" using block_bits[OF inv a] by blast
  obtain bm where bm: "clear_range i (s div 1024) (bitmap p) = Inr bm" "length bm = length (bitmap p)"
      "\<And>j. is_set bm j = (\<not> (i \<le> j \<and> j < i + s div 1024) \<and> is_set (bitmap p) j)"
    using clear_range_spec[OF i(3)] by blast
  have "deallocate a p = Inr (p\<lparr>bitmap := bm, allocatedBlocks := (allocatedBlocks p)(a := None)\<rparr>)"
    using a i(4) bm(1) by (simp add: deallocate_def blockSize_def)
  moreover have "(i \<le> j \<and> j < i + s div 1024) = (a \<le> poolBase p + 1024 * j \<and> poolBase p + 1024 * j < a + s)" for j
  proof -
    have "(1024 * j < 1024 * i + s) = (1024 * j < 1024 * i + 1024 * (s div 1024))" by (subst i(2)) (rule refl)
    then show ?thesis unfolding i(1) by auto
  qed
  ultimately show ?thesis using bm by auto
qed

text \<open>What an allocation does: a new block, or a failure without a change.\<close>

lemma allocate_Some:
  assumes inv: "pool_inv p" and req: "req \<le> 2 ^ 31" and r: "allocate req p = Inr (Some (a, s), p')"
  shows "pool_inv p' \<and> req \<le> s \<and> s < 2 * max req 1024 \<and> (\<exists>n. s = 2 ^ n) \<and> s dvd a
     \<and> poolBase p \<le> a \<and> a + s \<le> poolBase p + poolSize p
     \<and> (\<forall>b t. allocatedBlocks p b = Some t \<longrightarrow> b + t \<le> a \<or> a + s \<le> b)
     \<and> allocatedBlocks p' = (allocatedBlocks p)(a := Some s) \<and> deallocate a p' = Inr p"
proof -
  obtain n k i where n: "10 \<le> n" "bit_ceil (max req 1024) = 2 ^ n" "req \<le> 2 ^ n" "2 ^ n < 2 * max req 1024"
      and k: "0 < k" "2 ^ n = 1024 * k" and i: "align_offset (poolBase p) (2 ^ n) = 1024 * i" "2 ^ n dvd poolBase p + 1024 * i"
      and al: "allocate req p = (if 2 ^ n > poolSize p then Inr (None, p) else search_from i k p)"
    by (rule allocate_unfold[OF inv req])
  obtain b bm where f: "find_block i k (32 * length (bitmap p)) (bitmap p) = Inr (Some b)" and st: "set_range b k (bitmap p) = Inr bm"
      and a: "a = poolBase p + 1024 * b" "s = 1024 * k"
      and p': "p' = p\<lparr>bitmap := bm, allocatedBlocks := (allocatedBlocks p)(a := Some s)\<rparr>"
    using r unfolding al search_from_def by (auto simp: rbind_eq_Inr split: if_splits option.splits)
  obtain m where m: "b = i + m * k" "b + k \<le> 32 * length (bitmap p)" "range_free (bitmap p) b k"
    using find_block_Some[OF k(1) f] by blast
  have bm: "length bm = length (bitmap p)" "\<And>j. is_set bm j = (b \<le> j \<and> j < b + k \<or> is_set (bitmap p) j)"
    using set_range_spec[OF m(2)] st by auto
  have dv: "1024 * k dvd poolBase p + 1024 * b"
    using i(2) k(2) m(1) dvd_add[of "1024 * k" "poolBase p + 1024 * i" "1024 * k * m"] by (simp add: algebra_simps)
  have inv': "pool_inv p'" unfolding p' a
    by (rule pool_take[OF inv m(3) k(1) _ m(2) dv bm]) (use n(1) k(2) in \<open>auto intro: exI[of _ n]\<close>)
  have room: "a + s \<le> poolBase p + poolSize p" using a m(2) pool_invD(3)[OF inv] by linarith
  have apart: "\<forall>c t. allocatedBlocks p c = Some t \<longrightarrow> c + t \<le> a \<or> a + s \<le> c"
    using overlap_bits[OF inv, of _ _ b k] m(3) k(1) a by force
  have a': "allocatedBlocks p' a = Some s" by (simp add: p')
  obtain bm' where bm': "deallocate a p' = Inr (p'\<lparr>bitmap := bm', allocatedBlocks := (allocatedBlocks p')(a := None)\<rparr>)"
      "length bm' = length (bitmap p')"
      "\<And>j. is_set bm' j = (\<not> (a \<le> poolBase p' + 1024 * j \<and> poolBase p' + 1024 * j < a + s) \<and> is_set (bitmap p') j)"
    using deallocate_spec[OF inv' a'] by blast
  have "bm' = bitmap p"
  proof (rule bitmap_eqI)
    show "length bm' = length (bitmap p)" using bm'(2) bm(1) by (simp add: p')
    show "is_set bm' j = is_set (bitmap p) j" for j
    proof -
      have "(a \<le> poolBase p + 1024 * j \<and> poolBase p + 1024 * j < a + s) = (b \<le> j \<and> j < b + k)" unfolding a by auto
      then show ?thesis using bm'(3)[of j] bm(2)[of j] m(3) by (auto simp: p')
    qed
  qed
  moreover have "allocatedBlocks p a = None" unfolding a by (rule free_block_none[OF inv m(3) k(1)])
  ultimately have "deallocate a p' = Inr p" using bm'(1) by (simp add: p' fun_upd_idem)
  moreover have "\<exists>n. s = 2 ^ n" using k(2) a(2) by metis
  ultimately show ?thesis using inv' n(3,4) k(2) a dv room apart by (simp add: p')
qed

lemma allocate_fails:
  assumes inv: "pool_inv p" and req: "req \<le> 2 ^ 31" and r: "\<And>a s p'. allocate req p \<noteq> Inr (Some (a, s), p')"
  shows "(allocate req p = Inr (None, p) \<or> allocate req p = Inl OutOfBounds)
     \<and> (\<forall>a. bit_ceil (max req 1024) dvd a \<and> poolBase p \<le> a \<and> a + bit_ceil (max req 1024) \<le> poolBase p + poolSize p
          \<longrightarrow> (\<exists>b t. allocatedBlocks p b = Some t \<and> b < a + bit_ceil (max req 1024) \<and> a < b + t))"
proof -
  obtain n k i where n: "10 \<le> n" "bit_ceil (max req 1024) = 2 ^ n" "req \<le> 2 ^ n" "2 ^ n < 2 * max req 1024"
      and k: "0 < k" "2 ^ n = 1024 * k" and i: "align_offset (poolBase p) (2 ^ n) = 1024 * i" "2 ^ n dvd poolBase p + 1024 * i"
      and al: "allocate req p = (if 2 ^ n > poolSize p then Inr (None, p) else search_from i k p)"
    by (rule allocate_unfold[OF inv req])
  note d = pool_invD[OF inv]
  show ?thesis
  proof (cases "2 ^ n > poolSize p")
    case True
    then show ?thesis using al unfolding n(2) by auto
  next
    case False
    have nf: "find_block i k (32 * length (bitmap p)) (bitmap p) \<noteq> Inr (Some b)" for b
    proof
      assume f: "find_block i k (32 * length (bitmap p)) (bitmap p) = Inr (Some b)"
      then have "b + k \<le> 32 * length (bitmap p)" using find_block_Some[OF k(1) f] by blast
      then obtain bm where "set_range b k (bitmap p) = Inr bm" using set_range_spec by blast
      then show False using r[of "poolBase p + 1024 * b" "1024 * k" "p\<lparr>bitmap := bm, allocatedBlocks := (allocatedBlocks p)(poolBase p + 1024 * b := Some (1024 * k))\<rparr>"] f False
        unfolding al search_from_def by simp
    qed
    have "allocate req p = Inr (None, p) \<or> allocate req p = Inl OutOfBounds"
    proof (cases "find_block i k (32 * length (bitmap p)) (bitmap p)")
      case (Inl e)
      then show ?thesis using find_block_error[OF k(1) Inl] False unfolding al search_from_def by simp
    next
      case (Inr x)
      then have "x = None" using nf by (cases x) auto
      then show ?thesis using Inr False unfolding al search_from_def by simp
    qed
    moreover have "\<exists>b t. allocatedBlocks p b = Some t \<and> b < a + 2 ^ n \<and> a < b + t"
      if a: "2 ^ n dvd a" "poolBase p \<le> a" "a + 2 ^ n \<le> poolBase p + poolSize p" for a
    proof -
      have le: "poolBase p + 1024 * i \<le> a" using align_offset_spec(3)[of "2 ^ n" a "poolBase p"] a i(1) by simp
      moreover have "2 ^ n dvd a - (poolBase p + 1024 * i)" using a(1) i(2) by simp
      ultimately obtain m where "a = poolBase p + 1024 * i + 2 ^ n * m" by (metis dvd_def le_add_diff_inverse)
      then have am: "a = poolBase p + 1024 * (i + m * k)" using k(2) by (simp add: algebra_simps)
      have "1024 * (i + m * k + k) \<le> 1024 * (32 * length (bitmap p))" using a(3) d(3) k(2) am by simp
      then have "i + m * k + k \<le> 32 * length (bitmap p)" by simp
      then have "\<not> range_free (bitmap p) (i + m * k) k" using find_block_complete[OF k(1) nf] by simp
      then obtain j where j: "i + m * k \<le> j" "j < i + m * k + k" "is_set (bitmap p) j" by blast
      then obtain b t where b: "allocatedBlocks p b = Some t" "b \<le> poolBase p + 1024 * j" "poolBase p + 1024 * j < b + t"
        using d(6)[of j] by blast
      have "poolBase p + 1024 * j < a + 2 ^ n" "a \<le> poolBase p + 1024 * j" using am j(1,2) k(2) by simp_all
      then show ?thesis using b by (intro exI[of _ b] exI[of _ t]) simp
    qed
    ultimately show ?thesis unfolding n(2) by blast
  qed
qed

section \<open>Properties\<close>

text \<open>Every aligned place for a block of a size overlaps an allocated block.\<close>

definition no_room :: "nat \<Rightarrow> ProcessPool \<Rightarrow> bool" where
  "no_room s p = (\<forall>a. s dvd a \<and> poolBase p \<le> a \<and> a + s \<le> poolBase p + poolSize p
     \<longrightarrow> (\<exists>b t. allocatedBlocks p b = Some t \<and> b < a + s \<and> a < b + t))"

text \<open>A pool of 32 KB that one block fills.\<close>

definition demo_full_pool :: ProcessPool where
  "demo_full_pool = \<lparr>bitmap = [-1], poolBase = 0x20008000, poolSize = 0x8000, allocatedBlocks = [0x20008000 \<mapsto> 0x8000]\<rparr>"

lemma demo_full_pool_inv: "pool_inv demo_full_pool" "is_set (bitmap demo_full_pool) i = (i < 32)"
proof -
  show i: "is_set (bitmap demo_full_pool) i = (i < 32)" for i
    by (auto simp: is_set_def demo_full_pool_def div_less_iff_less_mult)
  have "\<exists>k \<ge> 10. (0x8000 :: nat) = 2 ^ k" by (rule exI[of _ 15]) simp
  then show "pool_inv demo_full_pool"
    unfolding pool_inv_def i by (auto simp: demo_full_pool_def split: if_splits)
qed

text \<open>C7. The allocator of process memory. From a state of the invariant, an allocation returns a
  block that is at least as large as requested and less than twice as large (or 1 KB), a power of two,
  aligned to its size, within the pool and disjoint from every allocated block; the invariant holds
  again, and releasing the block gives back exactly the state before. It fails only if no aligned
  place for such a block is free, and then changes nothing. Releasing an allocated block keeps the
  invariant, releasing any other address ends in the error handler.\<close>

theorem process_pool_allocation:
  assumes "pool_inv p" and "req \<le> 2 ^ 31"
  shows "(case allocate req p of
        Inr (Some (a, s), p') \<Rightarrow> pool_inv p' \<and> req \<le> s \<and> s < 2 * max req 1024 \<and> (\<exists>n. s = 2 ^ n) \<and> s dvd a
          \<and> poolBase p \<le> a \<and> a + s \<le> poolBase p + poolSize p
          \<and> (\<forall>b t. allocatedBlocks p b = Some t \<longrightarrow> b + t \<le> a \<or> a + s \<le> b)
          \<and> allocatedBlocks p' = (allocatedBlocks p)(a := Some s) \<and> deallocate a p' = Inr p
      | Inr (None, p') \<Rightarrow> p' = p \<and> no_room (bit_ceil (max req 1024)) p
      | Inl e \<Rightarrow> e = OutOfBounds \<and> no_room (bit_ceil (max req 1024)) p)
    \<and> (case allocatedBlocks p ptr of
        None \<Rightarrow> deallocate ptr p = Inl UNEXPECTED
      | Some s \<Rightarrow> \<exists>p'. deallocate ptr p = Inr p' \<and> pool_inv p' \<and> allocatedBlocks p' = (allocatedBlocks p)(ptr := None))"
proof (rule conjI)
  show "case allocatedBlocks p ptr of
        None \<Rightarrow> deallocate ptr p = Inl UNEXPECTED
      | Some s \<Rightarrow> \<exists>p'. deallocate ptr p = Inr p' \<and> pool_inv p' \<and> allocatedBlocks p' = (allocatedBlocks p)(ptr := None)"
  proof (cases "allocatedBlocks p ptr")
    case None
    then show ?thesis by (simp add: deallocate_def)
  next
    case (Some s)
    then obtain bm where "deallocate ptr p = Inr (p\<lparr>bitmap := bm, allocatedBlocks := (allocatedBlocks p)(ptr := None)\<rparr>)"
        "pool_inv (p\<lparr>bitmap := bm, allocatedBlocks := (allocatedBlocks p)(ptr := None)\<rparr>)"
      using deallocate_spec[OF assms(1) Some] pool_release[OF assms(1) Some] by blast
    then show ?thesis using Some by simp
  qed
next
  show "case allocate req p of
        Inr (Some (a, s), p') \<Rightarrow> pool_inv p' \<and> req \<le> s \<and> s < 2 * max req 1024 \<and> (\<exists>n. s = 2 ^ n) \<and> s dvd a
          \<and> poolBase p \<le> a \<and> a + s \<le> poolBase p + poolSize p
          \<and> (\<forall>b t. allocatedBlocks p b = Some t \<longrightarrow> b + t \<le> a \<or> a + s \<le> b)
          \<and> allocatedBlocks p' = (allocatedBlocks p)(a := Some s) \<and> deallocate a p' = Inr p
      | Inr (None, p') \<Rightarrow> p' = p \<and> no_room (bit_ceil (max req 1024)) p
      | Inl e \<Rightarrow> e = OutOfBounds \<and> no_room (bit_ceil (max req 1024)) p"
  proof (cases "\<exists>a s p'. allocate req p = Inr (Some (a, s), p')")
    case True
    then obtain a s p' where r: "allocate req p = Inr (Some (a, s), p')" by blast
    show ?thesis using allocate_Some[OF assms r] r by simp
  next
    case False
    then have f: "(allocate req p = Inr (None, p) \<or> allocate req p = Inl OutOfBounds) \<and> no_room (bit_ceil (max req 1024)) p"
      unfolding no_room_def using allocate_fails[OF assms] by blast
    then show ?thesis by auto
  qed
qed

theorem process_pool_allocation_witness:
  "pool_inv demo_full_pool \<and> (\<exists>p'. deallocate 0x20008000 demo_full_pool = Inr p' \<and> pool_inv p')"
  using process_pool_allocation[OF demo_full_pool_inv(1), of 0 "0x20008000"] demo_full_pool_inv(1)
  by (auto simp: demo_full_pool_def)

text \<open>Exhaustion reads behind the bitmap: when every block of the pool is allocated and the
  requested size divides the base and the size of the pool, the allocation does not throw
  \<^verbatim>\<open>bad_alloc\<close> but tests the bit behind the last one. The constructor writes behind the bitmap
  whenever the number of bytes it needs is not a multiple of four.\<close>

theorem process_pool_overrun:
  assumes "pool_inv p" "req \<le> 2 ^ 31" "\<forall>i < poolSize p div blockSize. is_set (bitmap p) i"
    and "bit_ceil (max req blockSize) \<le> poolSize p"
      "bit_ceil (max req blockSize) dvd poolBase p" "bit_ceil (max req blockSize) dvd poolSize p"
    and "bytes div blockSize div 8 mod 4 \<noteq> 0"
  shows "allocate req p = Inl OutOfBounds \<and> ProcessPool_new base bytes = Inl OutOfBounds"
proof (rule conjI)
  have b: "blockSize = 1024" by (simp add: blockSize_def)
  obtain n k i where n: "bit_ceil (max req 1024) = 2 ^ n" and k: "0 < k" "2 ^ n = 1024 * k"
      and i: "align_offset (poolBase p) (2 ^ n) = 1024 * i"
      and al: "allocate req p = (if 2 ^ n > poolSize p then Inr (None, p) else search_from i k p)"
    by (rule allocate_unfold[OF assms(1,2)]) blast
  have "poolBase p mod 2 ^ n = 0" using assms(5) n by (simp add: b)
  then have "i = 0" using i by (simp add: align_offset_def)
  have ps: "poolSize p = 1024 * (32 * length (bitmap p))" using pool_invD(3)[OF assms(1)] by simp
  then have "k dvd 32 * length (bitmap p)" using assms(6) n k(2) by (simp add: b)
  then obtain m where "32 * length (bitmap p) = 0 + m * k" by (metis add_0 dvd_def mult.commute)
  moreover have "is_set (bitmap p) j" if "j < 32 * length (bitmap p)" for j
    using assms(3) that ps by (simp add: b)
  ultimately have "find_block 0 k (32 * length (bitmap p)) (bitmap p) = Inl OutOfBounds"
    using find_block_full[OF k(1), of "bitmap p" 0 m] by simp
  then show "allocate req p = Inl OutOfBounds" using al assms(4) n \<open>i = 0\<close> by (simp add: search_from_def b)
  have "bytes div 1024 div 8 div 4 * 4 < bytes div 1024 div 8"
    using assms(7) div_mult_mod_eq[of "bytes div 1024 div 8" 4] unfolding b by linarith
  then show "ProcessPool_new base bytes = Inl OutOfBounds"
    by (simp add: ProcessPool_new_def Let_def ensure_def b)
qed

theorem process_pool_overrun_witness:
  "allocate 1024 demo_full_pool = Inl OutOfBounds \<and> ProcessPool_new 0x20008000 0xc000 = Inl OutOfBounds"
proof -
  have "bit_ceil (max 1024 blockSize) = 1024"
    by (simp add: bit_ceil_def blockSize_def bit_ceil_from.simps)
  moreover have "\<forall>i < poolSize demo_full_pool div blockSize. is_set (bitmap demo_full_pool) i"
    by (simp add: demo_full_pool_inv(2) blockSize_def) (simp add: demo_full_pool_def)
  ultimately show ?thesis
    using process_pool_overrun[OF demo_full_pool_inv(1), of 1024 "0xc000" "0x20008000"]
    by (simp add: blockSize_def) (simp add: demo_full_pool_def)
qed

end
