(* ===== verification/Crc_Util.thy ===== *)
theory Crc_Util
  imports Miosix_Prelude
begin

text \<open>
  The checksums of \<^verbatim>\<open>util/crc16.cpp\<close> and \<^verbatim>\<open>util/crc32.h\<close>; the second one checks the headers of GPT
  partition tables. Messages are lists of bytes.
\<close>

unbundle bit_operations_syntax

section \<open>The checksums\<close>

definition crc16Update :: "16 word \<Rightarrow> 8 word \<Rightarrow> 16 word" where
  "crc16Update crc data =
     (let x = (drop_bit 8 crc XOR ucast data) AND 0xff;
          x = x XOR drop_bit 4 x
      in push_bit 8 crc XOR push_bit 12 x XOR push_bit 5 x XOR x)"

definition crc16 :: "8 word list \<Rightarrow> 16 word" where
  "crc16 message = foldl crc16Update 0xffff message"

record CRC32Calculator =
  crc :: "32 word"

definition CRC32Calculator_new :: CRC32Calculator where
  "CRC32Calculator_new = \<lparr>crc = 0xFFFFFFFF\<rparr>"

definition crc32_bit :: "32 word \<Rightarrow> 32 word" where
  "crc32_bit c = (if c AND 1 \<noteq> 0 then drop_bit 1 c XOR 0xEDB88320 else drop_bit 1 c)"

definition crc32_byte :: "32 word \<Rightarrow> 8 word \<Rightarrow> 32 word" where
  "crc32_byte c b = (crc32_bit ^^ 8) (c XOR ucast b)"

definition addBytes :: "8 word list \<Rightarrow> CRC32Calculator \<Rightarrow> CRC32Calculator" where
  "addBytes bs calc = calc\<lparr>crc := foldl crc32_byte (crc calc) bs\<rparr>"

definition finalizeCRC32 :: "CRC32Calculator \<Rightarrow> 32 word" where
  "finalizeCRC32 calc = crc calc XOR 0xFFFFFFFF"

definition crc32_reset :: "CRC32Calculator \<Rightarrow> CRC32Calculator" where
  "crc32_reset calc = calc\<lparr>crc := 0xFFFFFFFF\<rparr>"

section \<open>Linear registers\<close>

text \<open>A shift register with feedback is linear for exclusive or, and so are its iterations.\<close>

locale linear_register =
  fixes step :: "'a::len word \<Rightarrow> 'a word"
  assumes step_xor: "step (a XOR b) = step a XOR step b"
begin

lemma steps_xor: "(step ^^ n) (a XOR b) = (step ^^ n) a XOR (step ^^ n) b"
  by (induction n) (simp_all add: step_xor)

lemma steps_add: "(step ^^ n) ((step ^^ m) a) = (step ^^ (m + n)) a"
  by (simp add: funpow_add add.commute[of m n])

end

text \<open>The bitwise register of the CCITT polynomial, most significant bit first, is the reference for
  \<open>crc16Update\<close>.\<close>

definition ccitt_bit :: "16 word \<Rightarrow> 16 word" where
  "ccitt_bit c = (if bit c 15 then push_bit 1 c XOR 0x1021 else push_bit 1 c)"

lemma push_xor: "push_bit n (a XOR b) = push_bit n a XOR push_bit n (b :: 'a::len word)"
  by (rule bit_word_eqI) (auto simp: bit_simps)

lemma drop_xor: "drop_bit n (a XOR b) = drop_bit n a XOR drop_bit n (b :: 'a::len word)"
  by (rule bit_word_eqI) (auto simp: bit_simps)

lemma xor_cancel: "p XOR (p XOR a) = (a :: 'a::len word)"
  by (simp add: xor.assoc[symmetric])

lemma xor_right_inj: "a XOR p = b XOR p \<Longrightarrow> a = (b :: 'a::len word)"
  by (metis xor_cancel xor.commute)

lemma lsb_test: "(c AND 1 \<noteq> 0) = bit (c :: 32 word) 0"
  by (simp add: bit_iff_and_push_bit_not_eq_0)

interpretation ccitt: linear_register ccitt_bit
  by unfold_locales (auto simp: ccitt_bit_def bit_xor_iff push_xor xor_cancel xor.assoc xor.commute xor.left_commute)

interpretation crc32: linear_register crc32_bit
  by unfold_locales (auto simp: crc32_bit_def lsb_test bit_xor_iff drop_xor xor_cancel xor.assoc xor.commute xor.left_commute)

section \<open>The table-free update of the CCITT checksum\<close>

lemma ccitt_shift:
  assumes "\<And>i. 16 - n \<le> i \<Longrightarrow> \<not> bit w i" "n \<le> 16"
  shows "(ccitt_bit ^^ n) w = push_bit n w"
  using assms
proof (induction n)
  case (Suc n)
  then have "(ccitt_bit ^^ n) w = push_bit n w" by simp
  moreover have "\<not> bit (push_bit n w) 15" using Suc.prems(1)[of "15 - n"] Suc.prems(2) by (auto simp: bit_simps)
  ultimately show ?case by (simp add: ccitt_bit_def[of "push_bit n w"] del: push_bit_Suc)
qed simp

definition fold_nibbles :: "16 word \<Rightarrow> 16 word" where
  "fold_nibbles x = (let y = x XOR drop_bit 4 x in push_bit 12 y XOR push_bit 5 y XOR y)"

text \<open>Two linear functions agree if they agree on the powers of two.\<close>

lemma linear_agree:
  fixes f g :: "16 word \<Rightarrow> 16 word"
  assumes "\<And>a b. f (a XOR b) = f a XOR f b" "\<And>a b. g (a XOR b) = g a XOR g b" "f 0 = g 0"
    and "\<And>i. i < n \<Longrightarrow> f (2 ^ i) = g (2 ^ i)"
  shows "f (take_bit n x) = g (take_bit n x)"
  using assms(4)
proof (induction n)
  case (Suc n)
  have "take_bit (Suc n) x = take_bit n x XOR (if bit x n then 2 ^ n else 0)"
    by (rule bit_word_eqI) (auto simp: bit_simps less_Suc_eq)
  then show ?case using Suc assms(1-3) by (cases "bit x n") simp_all
qed (simp add: assms(3))

lemma fold_nibbles_xor: "fold_nibbles (a XOR b) = fold_nibbles a XOR fold_nibbles b"
  by (simp add: fold_nibbles_def push_xor drop_xor Let_def xor.assoc xor.commute xor.left_commute)

lemma less_8: "(i :: nat) < 8 \<Longrightarrow> i = 0 \<or> i = 1 \<or> i = 2 \<or> i = 3 \<or> i = 4 \<or> i = 5 \<or> i = 6 \<or> i = 7"
  by linarith

lemma ccitt_basis:
  "(ccitt_bit ^^ 8) (push_bit 8 1) = fold_nibbles 1" "(ccitt_bit ^^ 8) (push_bit 8 2) = fold_nibbles 2"
  "(ccitt_bit ^^ 8) (push_bit 8 4) = fold_nibbles 4" "(ccitt_bit ^^ 8) (push_bit 8 8) = fold_nibbles 8"
  "(ccitt_bit ^^ 8) (push_bit 8 16) = fold_nibbles 16" "(ccitt_bit ^^ 8) (push_bit 8 32) = fold_nibbles 32"
  "(ccitt_bit ^^ 8) (push_bit 8 64) = fold_nibbles 64" "(ccitt_bit ^^ 8) (push_bit 8 128) = fold_nibbles 128"
  by code_simp+

lemma ccitt_upper:
  assumes "take_bit 8 x = x"
  shows "(ccitt_bit ^^ 8) (push_bit 8 x) = fold_nibbles x"
proof -
  have "(ccitt_bit ^^ 8) (push_bit 8 (take_bit 8 x)) = fold_nibbles (take_bit 8 x)"
  proof (rule linear_agree)
    show "(ccitt_bit ^^ 8) (push_bit 8 0) = fold_nibbles 0" by code_simp
    show "(ccitt_bit ^^ 8) (push_bit 8 (2 ^ i)) = fold_nibbles (2 ^ i)" if "i < 8" for i
      using less_8[OF that] ccitt_basis by (elim disjE) (simp_all del: funpow.simps push_bit_numeral)
  qed (simp_all only: push_xor ccitt.steps_xor fold_nibbles_xor)
  then show ?thesis unfolding assms .
qed

lemma crc16_bitwise: "crc16Update c d = (ccitt_bit ^^ 8) (c XOR push_bit 8 (ucast d))"
proof -
  define x where "x = (drop_bit 8 c XOR ucast d) AND (0xff :: 16 word)"
  define low where "low = c AND (0xff :: 16 word)"
  have ff: "(0xff :: 16 word) = mask 8" by (simp add: mask_eq_exp_minus_1)
  have x: "take_bit 8 x = x" unfolding x_def ff by (simp only: take_bit_eq_mask[symmetric] take_bit_take_bit) simp
  have split: "c XOR push_bit 8 (ucast d) = push_bit 8 x XOR low"
    unfolding x_def low_def ff by (rule bit_word_eqI) (auto simp: bit_simps)
  have "\<not> bit low i" if "8 \<le> i" for i using that unfolding low_def ff by (simp add: bit_simps)
  then have "(ccitt_bit ^^ 8) low = push_bit 8 low" by (intro ccitt_shift) simp_all
  moreover have "push_bit 8 low = push_bit 8 c" unfolding low_def ff by (rule bit_word_eqI) (auto simp: bit_simps)
  ultimately have "(ccitt_bit ^^ 8) (c XOR push_bit 8 (ucast d)) = fold_nibbles x XOR push_bit 8 c"
    unfolding split ccitt.steps_xor ccitt_upper[OF x] by simp
  then show ?thesis
    unfolding crc16Update_def x_def[symmetric] fold_nibbles_def Let_def by (simp only: xor.assoc xor.commute xor.left_commute)
qed

section \<open>Detection of changes\<close>

lemma crc32_poly_msb: "bit (0xEDB88320 :: 32 word) 31"
  by code_simp

lemma crc32_bit_inj: "crc32_bit a = crc32_bit b \<Longrightarrow> a = b"
proof -
  assume e: "crc32_bit a = crc32_bit b"
  have m: "bit (crc32_bit w) 31 = bit w 0" for w
    using crc32_poly_msb by (auto simp: crc32_bit_def lsb_test bit_xor_iff bit_drop_bit_eq dest: bit_imp_le_length)
  then have l: "bit a 0 = bit b 0" using e by metis
  then have d: "drop_bit 1 a = drop_bit 1 b"
    using e by (auto simp: crc32_bit_def lsb_test dest: xor_right_inj split: if_splits)
  show "a = b"
  proof (rule bit_word_eqI)
    fix i assume "i < LENGTH(32)"
    show "bit a i = bit b i"
    proof (cases i)
      case (Suc j)
      then show ?thesis using arg_cong[OF d, of "\<lambda>w. bit w j"] by (simp add: bit_drop_bit_eq)
    qed (simp add: l)
  qed
qed

lemma crc32_steps_inj: "(crc32_bit ^^ n) a = (crc32_bit ^^ n) b \<Longrightarrow> a = b"
  by (induction n) (auto dest: crc32_bit_inj)

lemma crc32_byte_inj: "crc32_byte c b = crc32_byte c' b \<Longrightarrow> c = c'"
  unfolding crc32_byte_def by (drule crc32_steps_inj, erule xor_right_inj)

lemma crc32_bytes_inj: "foldl crc32_byte c bs = foldl crc32_byte c' bs \<Longrightarrow> c = c'"
  by (induction bs arbitrary: c c') (auto dest: crc32_byte_inj)

lemma crc32_shift:
  assumes "\<And>i. i < n \<Longrightarrow> \<not> bit w i"
  shows "(crc32_bit ^^ n) w = drop_bit n w"
  using assms
proof (induction n)
  case (Suc n)
  then have "(crc32_bit ^^ n) w = drop_bit n w" by simp
  moreover have "\<not> bit (drop_bit n w) 0" using Suc.prems[of n] by (simp add: bit_drop_bit_eq)
  ultimately show ?case by (simp add: crc32_bit_def[of "drop_bit n w"] lsb_test del: drop_bit_Suc)
qed simp

text \<open>Up to four bytes enter the register as one little endian word.\<close>

fun pack :: "8 word list \<Rightarrow> 32 word" where
  "pack [] = 0"
| "pack (b # bs) = ucast b XOR push_bit 8 (pack bs)"

lemma pack_bits: "bit (pack bs) i \<longleftrightarrow> i < 32 \<and> i div 8 < length bs \<and> bit (bs ! (i div 8)) (i mod 8)"
proof (induction bs arbitrary: i)
  case (Cons b bs)
  show ?case
  proof (cases "i < 8")
    case True
    then show ?thesis by (auto simp: bit_simps)
  next
    case False
    then have "i div 8 = Suc ((i - 8) div 8)" "(i - 8) mod 8 = i mod 8" by (simp_all add: div_if mod_if)
    then show ?thesis using False Cons.IH[of "i - 8"] by (auto simp: bit_simps dest: bit_imp_le_length)
  qed
qed simp

lemma pack_inj:
  assumes "pack xs = pack ys" "length xs = length ys" "length xs \<le> 4"
  shows "xs = ys"
proof (rule nth_equalityI[OF assms(2)])
  fix k assume k: "k < length xs"
  show "xs ! k = ys ! k"
  proof (rule bit_word_eqI)
    fix n assume n: "n < LENGTH(8)"
    have "(8 * k + n) div 8 = k" "(8 * k + n) mod 8 = n" "8 * k + n < 32" using n k assms(3) by simp_all
    then show "bit (xs ! k) n = bit (ys ! k) n"
      using pack_bits[of xs "8 * k + n"] pack_bits[of ys "8 * k + n"] assms(1,2) k by simp
  qed
qed

lemma crc32_pack:
  "length bs \<le> 4 \<Longrightarrow> foldl crc32_byte c bs = (crc32_bit ^^ (8 * length bs)) (c XOR pack bs)"
proof (induction bs arbitrary: c)
  case (Cons b bs)
  have "drop_bit 8 (push_bit 8 (pack bs)) = pack bs"
  proof (rule bit_word_eqI)
    fix i assume "i < LENGTH(32)"
    have "i < 24" if "bit (pack bs) i" using that Cons.prems pack_bits[of bs i] by auto
    then show "bit (drop_bit 8 (push_bit 8 (pack bs))) i = bit (pack bs) i"
      by (auto simp: bit_simps)
  qed
  moreover have "(crc32_bit ^^ 8) (push_bit 8 (pack bs)) = drop_bit 8 (push_bit 8 (pack bs))"
    by (rule crc32_shift) (simp add: bit_simps)
  ultimately have "crc32_byte c b XOR pack bs = (crc32_bit ^^ 8) (c XOR pack (b # bs))"
    by (simp only: crc32_byte_def pack.simps xor.assoc[symmetric] crc32.steps_xor)
  then show ?case using Cons by (simp add: crc32.steps_add del: pack.simps funpow.simps)
qed simp

lemma crc32_burst:
  assumes "w \<noteq> w'" "length w = length w'" "length w \<le> 4"
  shows "finalizeCRC32 (addBytes (xs @ w @ ys) calc) \<noteq> finalizeCRC32 (addBytes (xs @ w' @ ys) calc)"
proof
  assume e: "finalizeCRC32 (addBytes (xs @ w @ ys) calc) = finalizeCRC32 (addBytes (xs @ w' @ ys) calc)"
  let ?c = "foldl crc32_byte (crc calc) xs"
  have "foldl crc32_byte (foldl crc32_byte ?c w) ys = foldl crc32_byte (foldl crc32_byte ?c w') ys"
    using e by (auto simp: finalizeCRC32_def addBytes_def dest: xor_right_inj)
  then have "foldl crc32_byte ?c w = foldl crc32_byte ?c w'" by (rule crc32_bytes_inj)
  then have "?c XOR pack w = ?c XOR pack w'" using assms by (simp add: crc32_pack) (rule crc32_steps_inj)
  then have "pack w = pack w'" by (metis xor_cancel)
  then show False using pack_inj assms by blast
qed

lemma addBytes_append: "addBytes ys (addBytes xs calc) = addBytes (xs @ ys) calc"
  by (simp add: addBytes_def)

section \<open>Properties\<close>

text \<open>C38. The update of the 16 bit checksum by a byte, which has neither a loop nor a table, is eight
  steps of the bitwise register of the CCITT polynomial 0x1021, so \<open>crc16\<close> is the CCITT checksum of
  the message with initial value 0xffff.\<close>

theorem crc16_is_ccitt:
  "crc16 message = foldl (\<lambda>c d. (ccitt_bit ^^ 8) (c XOR push_bit 8 (ucast d))) 0xffff message"
proof -
  have "crc16Update = (\<lambda>c d. (ccitt_bit ^^ 8) (c XOR push_bit 8 (ucast d)))" by (intro ext crc16_bitwise)
  then show ?thesis by (simp add: crc16_def)
qed

text \<open>The 32 bit checksum may be computed piece by piece, and detects every change of a message
  that lies within four consecutive bytes.\<close>

theorem crc32_detects_bursts:
  "finalizeCRC32 (addBytes ys (addBytes xs calc)) = finalizeCRC32 (addBytes (xs @ ys) calc)
   \<and> crc32_reset (addBytes xs calc) = CRC32Calculator_new
   \<and> (w \<noteq> w' \<and> length w = length w' \<and> length w \<le> 4 \<longrightarrow>
       finalizeCRC32 (addBytes (xs @ w @ ys) calc) \<noteq> finalizeCRC32 (addBytes (xs @ w' @ ys) calc))"
proof -
  have "crc32_reset (addBytes xs calc) = CRC32Calculator_new"
    by (simp add: crc32_reset_def CRC32Calculator_new_def addBytes_def)
  then show ?thesis using crc32_burst[of w w' xs ys calc] by (simp add: addBytes_append)
qed

theorem crc32_detects_bursts_witness:
  "finalizeCRC32 (addBytes [1, 2, 3] CRC32Calculator_new) \<noteq> finalizeCRC32 (addBytes [1, 3, 2] CRC32Calculator_new)"
  using crc32_detects_bursts[of "[]" "[1]" CRC32Calculator_new "[2, 3]" "[3, 2]"] by simp

end
