(* ===== verification/String_Part.thy ===== *)
theory String_Part
  imports Miosix_Prelude "HOL-Library.Sublist"
begin

text \<open>
  Substrings without copies, \<^verbatim>\<open>filesystem/stringpart.h\<close> and \<^verbatim>\<open>filesystem/stringpart.cpp\<close>, and the walk over
  the components of a normalised path of \<^verbatim>\<open>filesystem/path.h\<close> and \<^verbatim>\<open>filesystem/path.cpp\<close>.

  A \<^verbatim>\<open>StringPart\<close> made from a C++ string (type \<^verbatim>\<open>CPPSTR\<close>) or from a \<^verbatim>\<open>char*\<close> (type \<^verbatim>\<open>CSTR\<close>) writes a nul
  character into the underlying string and puts the replaced character back when it is destroyed. The underlying
  string is an explicit argument of the operations: its characters without the terminator, which
  is the nul that both kinds of string have behind the last character. A part that holds all of a
  string never writes it. The copies (copy constructor, assignment and the substrings of a
  \<^verbatim>\<open>const char*\<close>) own a fresh string.

  The string functions of the C++ library that the filesystem uses are at the start.
\<close>

section \<open>String functions\<close>

abbreviation NUL :: char where
  "NUL \<equiv> CHR 0x00"

text \<open>\<^verbatim>\<open>std::string::find_first_of(c,i)\<close>, \<^verbatim>\<open>std::string::find_last_of(c,i)\<close> (the position searched
  backwards from \<open>i\<close>, included, or from the end) and \<^verbatim>\<open>std::string::erase(i,n)\<close>; \<^term>\<open>None\<close> is \<^verbatim>\<open>npos\<close>.\<close>

definition find_first_of :: "string \<Rightarrow> char \<Rightarrow> nat \<Rightarrow> nat option" where
  "find_first_of s c i =
     (let k = i + length (takeWhile (\<lambda>x. x \<noteq> c) (drop i s)) in if k < length s then Some k else None)"

definition find_last_of :: "string \<Rightarrow> char \<Rightarrow> nat \<Rightarrow> nat option" where
  "find_last_of s c i =
     (let k = length (dropWhile (\<lambda>x. x \<noteq> c) (rev (take (i + 1) s))) in if k = 0 then None else Some (k - 1))"

definition erase_str :: "string \<Rightarrow> nat \<Rightarrow> nat \<Rightarrow> string" where
  "erase_str s i n = take i s @ drop (i + n) s"

text \<open>Reading a C string: the characters up to the terminator.\<close>

definition c_string :: "string \<Rightarrow> string" where
  "c_string s = takeWhile (\<lambda>x. x \<noteq> NUL) s"

lemma takeWhile_no_char: "c \<notin> set xs \<Longrightarrow> takeWhile (\<lambda>x. x \<noteq> c) xs = xs"
  by (simp add: takeWhile_eq_all_conv) metis

lemma c_string_id [simp]: "NUL \<notin> set s \<Longrightarrow> c_string s = s"
  by (simp add: c_string_def takeWhile_no_char)

lemma c_string_nul [simp]: "NUL \<notin> set s \<Longrightarrow> c_string (s @ NUL # t) = s"
  by (simp add: c_string_def takeWhile_append takeWhile_no_char)

lemma find_first_ge: "find_first_of s c i = Some k \<Longrightarrow> i \<le> k \<and> k < length s"
  by (auto simp: find_first_of_def Let_def split: if_splits)

lemma find_last_le:
  assumes "find_last_of s c i = Some k"
  shows "k \<le> i \<and> k < length s"
proof -
  define d where "d = length (dropWhile (\<lambda>x. x \<noteq> c) (rev (take (i + 1) s)))"
  have "d \<le> length (rev (take (i + 1) s))" unfolding d_def by (rule length_dropWhile_le)
  moreover have "d \<noteq> 0" "k = d - 1"
    using assms unfolding find_last_of_def Let_def d_def[symmetric] by (auto split: if_splits)
  ultimately show ?thesis by auto
qed

lemma find_first_Some: "c \<notin> set u \<Longrightarrow> length p = i \<Longrightarrow> find_first_of (p @ u @ c # v) c i = Some (i + length u)"
  by (auto simp: find_first_of_def Let_def takeWhile_append takeWhile_no_char)

lemma find_first_None: "c \<notin> set u \<Longrightarrow> length p = i \<Longrightarrow> find_first_of (p @ u) c i = None"
  by (auto simp: find_first_of_def Let_def takeWhile_no_char)

lemma find_last_Some:
  assumes "c \<notin> set u" "length p \<le> i" "i \<le> length p + length u"
  shows "find_last_of (p @ c # u @ v) c i = Some (length p)"
proof -
  obtain n where n: "i = length p + n" "n \<le> length u" using assms by (metis le_add_diff_inverse add_le_cancel_left)
  have t: "take (i + 1) (p @ c # u @ v) = p @ c # take n u" by (simp add: n)
  have "c \<notin> set (take n u)" using assms(1) in_set_takeD by fastforce
  then have "dropWhile (\<lambda>x. x \<noteq> c) (rev (p @ c # take n u)) = c # rev p"
    by (simp add: dropWhile_append)
  then show ?thesis unfolding find_last_of_def Let_def t by simp
qed

lemma find_last_Some_end:
  assumes "c \<notin> set u" "length p \<le> i"
  shows "find_last_of (p @ c # u) c i = Some (length p)"
proof (cases "i \<le> length p + length u")
  case True then show ?thesis using find_last_Some[OF assms, of "[]"] by simp
next
  case False
  then have "take (i + 1) (p @ c # u) = take (length p + length u + 1) (p @ c # u)" by simp
  then show ?thesis using find_last_Some[OF assms(1), of p "length p + length u" "[]"]
    by (simp add: find_last_of_def)
qed

section \<open>StringPart\<close>

record StringPart =
  sp_index :: nat
  sp_offset :: nat
  sp_saved :: char

definition sp_new :: "string \<Rightarrow> nat option \<Rightarrow> nat \<Rightarrow> StringPart \<times> string" where
  "sp_new str idx off =
     (case idx of
        Some i \<Rightarrow> if i < length str
                  then (\<lparr>sp_index = i, sp_offset = min off i, sp_saved = str ! i\<rparr>, str[i := NUL])
                  else (\<lparr>sp_index = length str, sp_offset = min off (length str), sp_saved = NUL\<rparr>, str)
      | None \<Rightarrow> (\<lparr>sp_index = length str, sp_offset = min off (length str), sp_saved = NUL\<rparr>, str))"

definition sp_length :: "StringPart \<Rightarrow> nat" where
  "sp_length sp = sp_index sp - sp_offset sp"

definition sp_empty :: "StringPart \<Rightarrow> bool" where
  "sp_empty sp = (sp_length sp = 0)"

definition sp_c_str :: "StringPart \<Rightarrow> string \<Rightarrow> string" where
  "sp_c_str sp str = c_string (drop (sp_offset sp) str)"

definition sp_clear :: "StringPart \<Rightarrow> string \<Rightarrow> string" where
  "sp_clear sp str = (if sp_index sp \<noteq> length str then str[sp_index sp := sp_saved sp] else str)"

definition sp_substr :: "StringPart \<Rightarrow> string \<Rightarrow> nat option \<Rightarrow> nat \<Rightarrow> StringPart \<times> string" where
  "sp_substr sp str idx off =
     (let (i, c, str') = (case idx of
            Some k \<Rightarrow> if k < sp_length sp
                      then (sp_offset sp + k, str ! (sp_offset sp + k), str[sp_offset sp + k := NUL])
                      else (sp_index sp, NUL, str)
          | None \<Rightarrow> (sp_index sp, NUL, str))
      in (\<lparr>sp_index = i, sp_offset = min (sp_offset sp + off) i, sp_saved = c\<rparr>, str'))"

text \<open>\<^verbatim>\<open>assign\<close> copies the C string of the other part to a new string.\<close>

definition sp_assign :: "StringPart \<Rightarrow> string \<Rightarrow> StringPart \<times> string" where
  "sp_assign rhs str =
     (\<lparr>sp_index = sp_length rhs, sp_offset = 0, sp_saved = NUL\<rparr>, sp_c_str rhs str)"

definition sp_startsWith :: "StringPart \<Rightarrow> string \<Rightarrow> StringPart \<Rightarrow> string \<Rightarrow> bool" where
  "sp_startsWith sp str rhs str2 =
     (if sp_length sp < sp_length rhs then False
      else take (sp_length rhs) (drop (sp_offset sp) str) = take (sp_length rhs) (drop (sp_offset rhs) str2))"

definition sp_findFirstOf :: "StringPart \<Rightarrow> string \<Rightarrow> char \<Rightarrow> nat \<Rightarrow> nat option" where
  "sp_findFirstOf sp str c pos =
     (if sp_length sp \<le> pos then None
      else find_first_of (take (sp_length sp) (drop (sp_offset sp) str)) c pos)"

definition sp_findLastOf :: "StringPart \<Rightarrow> string \<Rightarrow> char \<Rightarrow> nat option" where
  "sp_findLastOf sp str c = find_last_of (take (sp_length sp) (drop (sp_offset sp) str)) c (sp_length sp)"

text \<open>What a part stands for: the characters between its offset and its index.\<close>

definition string_part :: "string \<Rightarrow> nat \<Rightarrow> nat \<Rightarrow> string" where
  "string_part s idx off = drop off (take idx s)"

text \<open>A part of a string: its bounds are in range and the nul is at its index.\<close>

definition sp_ok :: "StringPart \<Rightarrow> string \<Rightarrow> bool" where
  "sp_ok sp str \<longleftrightarrow> sp_offset sp \<le> sp_index sp \<and> sp_index sp \<le> length str
     \<and> NUL \<notin> set (take (sp_index sp) str) \<and> (sp_index sp < length str \<longrightarrow> str ! sp_index sp = NUL)"

lemma sp_ok_content:
  assumes "sp_ok sp str"
  shows "sp_c_str sp str = string_part str (sp_index sp) (sp_offset sp)"
    "take (sp_length sp) (drop (sp_offset sp) str) = string_part str (sp_index sp) (sp_offset sp)"
    "length (string_part str (sp_index sp) (sp_offset sp)) = sp_length sp"
proof -
  let ?i = "sp_index sp" let ?o = "sp_offset sp"
  have o: "?o \<le> ?i" "?i \<le> length str" "NUL \<notin> set (take ?i str)" using assms by (auto simp: sp_ok_def)
  have n: "NUL \<notin> set (drop ?o (take ?i str))" using o(3) by (meson in_set_dropD)
  have d: "drop ?o str = drop ?o (take ?i str) @ drop ?i str"
  proof -
    have "drop ?o (take ?i str @ drop ?i str) = drop ?o (take ?i str) @ drop ?i str"
      using o(1,2) by (simp only: drop_append) simp
    then show ?thesis by (simp only: append_take_drop_id)
  qed
  have e: "sp_c_str sp str = c_string (drop ?o (take ?i str) @ drop ?i str)"
    unfolding sp_c_str_def by (simp only: d)
  show "sp_c_str sp str = string_part str ?i ?o"
  proof (cases "?i < length str")
    case True
    then have "drop ?i str = NUL # drop (Suc ?i) str" using assms by (metis Cons_nth_drop_Suc sp_ok_def)
    then show ?thesis unfolding e string_part_def using n by simp
  next
    case False then show ?thesis unfolding e string_part_def using n by simp
  qed
  show "take (sp_length sp) (drop ?o str) = string_part str ?i ?o"
    by (simp add: sp_length_def string_part_def take_drop o)
  show "length (string_part str ?i ?o) = sp_length sp"
    using o by (simp add: sp_length_def string_part_def)
qed

lemma sp_new_ok:
  assumes "NUL \<notin> set str" "sp_new str idx off = (sp, str')"
  shows "sp_ok sp str'" "sp_clear sp str' = str"
    "string_part str' (sp_index sp) (sp_offset sp) = string_part str (case idx of None \<Rightarrow> length str | Some i \<Rightarrow> i) off"
proof -
  have n: "NUL \<notin> set (take k str)" for k using assms(1) by (meson in_set_takeD)
  show "sp_ok sp str'"
    using assms by (auto simp: sp_new_def sp_ok_def n split: option.splits if_splits)
  show "sp_clear sp str' = str"
    using assms by (auto simp: sp_new_def sp_clear_def split: option.splits if_splits)
  show "string_part str' (sp_index sp) (sp_offset sp) = string_part str (case idx of None \<Rightarrow> length str | Some i \<Rightarrow> i) off"
    using assms by (auto simp: sp_new_def string_part_def min_def split: option.splits if_splits)
qed

lemma sp_substr_ok:
  assumes "sp_ok sp str" "sp_substr sp str idx off = (sp2, str')"
  shows "sp_ok sp2 str'" "sp_clear sp2 str' = str"
    "string_part str' (sp_index sp2) (sp_offset sp2) =
       string_part (string_part str (sp_index sp) (sp_offset sp)) (case idx of None \<Rightarrow> sp_length sp | Some i \<Rightarrow> i) off"
proof -
  have o: "sp_offset sp \<le> sp_index sp" "sp_index sp \<le> length str" using assms by (auto simp: sp_ok_def)
  have n: "x < sp_index sp - sp_offset sp \<Longrightarrow> (NUL \<in> set (take (sp_offset sp + x) str)) = False" for x
  proof -
    assume "x < sp_index sp - sp_offset sp"
    then have "sp_offset sp + x \<le> sp_index sp" by simp
    from set_take_subset_set_take[OF this, of str] show ?thesis using assms(1) by (auto simp: sp_ok_def)
  qed
  have e: "\<not> x < sp_index sp - sp_offset sp \<Longrightarrow> x + sp_offset sp \<le> sp_index sp \<Longrightarrow> take (x + sp_offset sp) t = take (sp_index sp) t"
    for x and t :: string
    by (rule arg_cong2[where f = take]) (use o in linarith, rule refl)
  show "sp_ok sp2 str'"
    using assms(2) o assms(1)[unfolded sp_ok_def]
    by (auto simp: sp_substr_def sp_ok_def sp_length_def Let_def n split: option.splits if_splits)
  show "sp_clear sp2 str' = str"
    using assms(2) o assms(1)[unfolded sp_ok_def]
    by (auto simp: sp_substr_def sp_clear_def sp_length_def Let_def list_update_same_conv split: option.splits if_splits)
  show "string_part str' (sp_index sp2) (sp_offset sp2) =
       string_part (string_part str (sp_index sp) (sp_offset sp)) (case idx of None \<Rightarrow> sp_length sp | Some i \<Rightarrow> i) off"
    using assms(2) o
    by (auto simp: sp_substr_def string_part_def sp_length_def Let_def take_drop min_def add.commute e
        split: option.splits if_splits)
qed

lemma sp_queries:
  assumes "sp_ok sp str" "sp_ok rhs str2"
  shows "sp_startsWith sp str rhs str2 = prefix (sp_c_str rhs str2) (sp_c_str sp str)"
    "sp_findFirstOf sp str c pos = find_first_of (sp_c_str sp str) c pos"
    "sp_findLastOf sp str c = find_last_of (sp_c_str sp str) c (length (sp_c_str sp str))"
proof -
  let ?a = "sp_c_str sp str" let ?b = "sp_c_str rhs str2"
  have a: "take (sp_length sp) (drop (sp_offset sp) str) = ?a" "length ?a = sp_length sp"
    and b: "take (sp_length rhs) (drop (sp_offset rhs) str2) = ?b" "length ?b = sp_length rhs"
    using sp_ok_content[OF assms(1)] sp_ok_content[OF assms(2)] by simp_all
  have t: "sp_length rhs \<le> sp_length sp \<Longrightarrow> take (sp_length rhs) (drop (sp_offset sp) str) = take (length ?b) ?a"
    by (simp add: a(1)[symmetric] b(2))
  show "sp_startsWith sp str rhs str2 = prefix ?b ?a"
  proof (cases "sp_length sp < sp_length rhs")
    case True
    then have "\<not> prefix ?b ?a" using a(2) b(2) prefix_length_le[of ?b ?a] by auto
    then show ?thesis using True by (simp add: sp_startsWith_def)
  next
    case False
    then have "sp_startsWith sp str rhs str2 = (take (length ?b) ?a = ?b)" by (simp add: sp_startsWith_def t b(1))
    then show ?thesis by (metis take_is_prefix prefix_def append_eq_conv_conj)
  qed
  show "sp_findFirstOf sp str c pos = find_first_of ?a c pos"
    using a by (simp add: sp_findFirstOf_def find_first_of_def)
  show "sp_findLastOf sp str c = find_last_of ?a c (length ?a)"
    using a by (simp add: sp_findLastOf_def)
qed

section \<open>The walk over a normalised path\<close>

text \<open>Names between slashes, and the absolute path with these components.\<close>

definition render :: "string list \<Rightarrow> string" where
  "render cs = concat (map (\<lambda>c. CHR ''/'' # c) cs)"

definition plain_name :: "string \<Rightarrow> bool" where
  "plain_name c \<longleftrightarrow> c \<noteq> [] \<and> CHR ''/'' \<notin> set c"

lemma render_simps [simp]: "render [] = []" "render (c # cs) = CHR ''/'' # c @ render cs"
    "render (cs @ ds) = render cs @ render ds"
  by (simp_all add: render_def)

text \<open>\<^verbatim>\<open>NormalizedPathWalker\<close>: the state is the position of the next component, \<^term>\<open>None\<close> standing for \<^verbatim>\<open>npos\<close>. The
  underlying string is in its original state at each call of \<^verbatim>\<open>next\<close>, since the previous element is
  cleared first; the element is what its C string shows.\<close>

fun skip_slashes :: "string \<Rightarrow> nat" where
  "skip_slashes [] = 0"
| "skip_slashes (c # s) = (if c = CHR ''/'' then Suc (skip_slashes s) else 0)"

definition walker_new :: "StringPart \<Rightarrow> string \<Rightarrow> nat option" where
  "walker_new sp str = Some (skip_slashes (sp_c_str sp str))"

definition walker_next :: "StringPart \<Rightarrow> string \<Rightarrow> nat option \<Rightarrow> (string \<times> nat option) option" where
  "walker_next sp str ix =
     (case ix of None \<Rightarrow> None
      | Some i \<Rightarrow>
          if sp_length sp \<le> i then None
          else (let nx = sp_findFirstOf sp str CHR ''/'' i;
                    (element, str') = sp_substr sp str nx i
                in Some (sp_c_str element str', map_option Suc nx)))"

function walk :: "StringPart \<Rightarrow> string \<Rightarrow> nat option \<Rightarrow> string list" where
  "walk sp str ix =
     (case walker_next sp str ix of None \<Rightarrow> [] | Some (e, ix') \<Rightarrow> e # walk sp str ix')"
  by pat_completeness auto
termination
proof (relation "measure (\<lambda>(sp, str, ix). case ix of None \<Rightarrow> 0 | Some i \<Rightarrow> Suc (sp_length sp) - i)", goal_cases)
  case 1 then show ?case by simp
next
  case (2 sp str ix p e ix')
  then show ?case
    by (auto simp: walker_next_def sp_findFirstOf_def Let_def split: option.splits if_splits prod.splits dest!: find_first_ge)
qed

declare walk.simps [simp del]

lemma walk_content:
  assumes "sp_ok sp str" "sp_c_str sp str = p @ (if cs = [] then [] else tl (render cs))" "list_all plain_name cs"
  shows "walk sp str (Some (length p)) = cs"
  using assms
proof (induction cs arbitrary: p)
  case Nil
  then have "sp_length sp = length p" using sp_ok_content[OF assms(1)] by (metis append_Nil2)
  then show ?case by (subst walk.simps) (simp add: walker_next_def)
next
  case (Cons c cs)
  have c: "c \<noteq> []" "CHR ''/'' \<notin> set c" using Cons.prems(3) by (auto simp: plain_name_def)
  have s: "sp_c_str sp str = p @ c @ render cs" using Cons.prems(2) by simp
  have len: "sp_length sp = length (p @ c @ render cs)"
    using sp_ok_content[OF assms(1)] s by metis
  have str: "string_part str (sp_index sp) (sp_offset sp) = p @ c @ render cs"
    using sp_ok_content(1)[OF assms(1)] s by simp
  let ?nx = "sp_findFirstOf sp str CHR ''/'' (length p)"
  obtain el str' where es: "sp_substr sp str ?nx (length p) = (el, str')" by fastforce
  have nx: "?nx = (if cs = [] then None else Some (length p + length c))"
    unfolding sp_queries(2)[OF assms(1) assms(1)] s
    using find_first_None[OF c(2), of p] by (cases cs) (auto simp: find_first_Some[OF c(2)])
  have "sp_c_str el str' = c"
    using sp_ok_content(1)[OF sp_substr_ok(1)[OF assms(1) es]] sp_substr_ok(3)[OF assms(1) es] str len
    by (cases cs) (auto simp: nx string_part_def)
  then have w: "walk sp str (Some (length p)) = c # walk sp str (map_option Suc ?nx)"
    using len c(1) by (subst walk.simps) (simp add: walker_next_def es Let_def)
  show ?case
  proof (cases cs)
    case Nil then show ?thesis using w nx by (subst (asm) (2) walk.simps) (simp add: walker_next_def)
  next
    case (Cons d ds)
    have "walk sp str (Some (length (p @ c @ ''/''))) = cs"
      by (rule Cons.IH) (use Cons.prems s Cons in auto)
    then show ?thesis using w nx Cons by simp
  qed
qed

section \<open>Correctness\<close>

text \<open>C37. A part of a string without nul characters, and a part of that part: the C string of each shows
  exactly the selected characters, and its length is the recorded one; the queries answer as on the
  selected characters; destroying the inner and then the outer part restores the original string; and
  a copy shows the same characters.\<close>

theorem string_part_view:
  assumes "NUL \<notin> set s" "sp_new s idx off = (sp, s1)" "sp_substr sp s1 jdx joff = (sp2, s2)"
  shows "let part = string_part s (case idx of None \<Rightarrow> length s | Some i \<Rightarrow> i) off;
             part2 = string_part part (case jdx of None \<Rightarrow> length part | Some i \<Rightarrow> i) joff
         in sp_c_str sp s1 = part \<and> sp_length sp = length part
          \<and> sp_c_str sp2 s2 = part2 \<and> sp_length sp2 = length part2
          \<and> sp_clear sp2 s2 = s1 \<and> sp_clear sp s1 = s
          \<and> (\<forall>c pos. sp_findFirstOf sp2 s2 c pos = find_first_of part2 c pos)
          \<and> (\<forall>c. sp_findLastOf sp2 s2 c = find_last_of part2 c (length part2))
          \<and> sp_startsWith sp s1 sp2 s2 = prefix part2 part
          \<and> (case sp_assign sp2 s2 of (cp, s3) \<Rightarrow> sp_ok cp s3 \<and> sp_c_str cp s3 = part2)"
proof -
  define part where "part = string_part s (case idx of None \<Rightarrow> length s | Some i \<Rightarrow> i) off"
  define part2 where "part2 = string_part part (case jdx of None \<Rightarrow> length part | Some i \<Rightarrow> i) joff"
  note ok = sp_new_ok(1)[OF assms(1,2)]
  note ok2 = sp_substr_ok(1)[OF ok assms(3)]
  have c: "sp_c_str sp s1 = part" "sp_length sp = length part"
    using sp_ok_content[OF ok] sp_new_ok(3)[OF assms(1,2)] by (simp_all add: part_def)
  have p: "string_part s1 (sp_index sp) (sp_offset sp) = part"
    using sp_ok_content(1)[OF ok] c(1) by simp
  have c2: "sp_c_str sp2 s2 = part2" "sp_length sp2 = length part2"
    using sp_ok_content[OF ok2] sp_substr_ok(3)[OF ok assms(3)] p c(2)
    by (cases jdx; simp add: part2_def)+
  have "NUL \<notin> set (sp_c_str sp2 s2)" by (auto simp: sp_c_str_def c_string_def dest: set_takeWhileD)
  then have "NUL \<notin> set part2" using c2(1) by simp
  then have "sp_ok (fst (sp_assign sp2 s2)) (snd (sp_assign sp2 s2))"
      "sp_c_str (fst (sp_assign sp2 s2)) (snd (sp_assign sp2 s2)) = part2"
    using c2 by (simp_all add: sp_assign_def sp_ok_def sp_c_str_def[of "sp_index_update _ _"]) (simp_all add: sp_c_str_def)
  then show ?thesis
    unfolding Let_def part_def[symmetric] part2_def[symmetric]
    using c c2 sp_new_ok(2)[OF assms(1,2)] sp_substr_ok(2)[OF ok assms(3)] sp_queries[OF ok ok2] sp_queries[OF ok2 ok2]
    by (simp add: case_prod_beta)
qed

theorem string_part_view_witness:
  "sp_c_str \<lparr>sp_index = 4, sp_offset = 1, sp_saved = CHR ''/''\<rparr> (''/dev'' @ NUL # ''tty'') = ''dev''
   \<and> sp_clear \<lparr>sp_index = 4, sp_offset = 1, sp_saved = CHR ''/''\<rparr> (''/dev'' @ NUL # ''tty'') = ''/dev/tty''"
proof -
  let ?sp = "\<lparr>sp_index = 4, sp_offset = 1, sp_saved = CHR ''/''\<rparr>"
  have n: "sp_new ''/dev/tty'' (Some 4) 1 = (?sp, ''/dev'' @ NUL # ''tty'')" by (simp add: sp_new_def)
  obtain sp2 s2 where "sp_substr ?sp (''/dev'' @ NUL # ''tty'') (Some 2) 1 = (sp2, s2)" by fastforce
  from string_part_view[OF _ n this, unfolded Let_def]
  have r: "sp_c_str ?sp (''/dev'' @ NUL # ''tty'') = string_part ''/dev/tty'' 4 1"
      "sp_clear ?sp (''/dev'' @ NUL # ''tty'') = ''/dev/tty''" by auto
  show ?thesis unfolding r by (simp add: string_part_def)
qed

text \<open>The walk over a normalised relative path, as the filesystems get it from the path resolution,
  visits exactly its components, in order, also behind leading slashes.\<close>

theorem path_walk:
  assumes "list_all plain_name cs" "NUL \<notin> set (render cs)" "cs \<noteq> []"
    and "sp_new (replicate n CHR ''/'' @ tl (render cs)) None 0 = (sp, str)"
  shows "walk sp str (walker_new sp str) = cs"
proof -
  let ?p = "replicate n CHR ''/''"
  obtain c cs' where cs: "cs = c # cs'" using assms(3) by (cases cs) auto
  have nn: "NUL \<notin> set (?p @ tl (render cs))" using assms(2) cs by auto
  have ok: "sp_ok sp str" by (rule sp_new_ok(1)[OF nn assms(4)])
  have s: "sp_c_str sp str = ?p @ tl (render cs)"
    using sp_ok_content(1)[OF ok] sp_new_ok(3)[OF nn assms(4)] by (simp add: string_part_def)
  have "skip_slashes (?p @ d @ t) = n" if "plain_name d" for d t
    using that by (induction n) (cases d; auto simp: plain_name_def)+
  then have "walker_new sp str = Some (length ?p)"
    using assms(1) cs s by (simp add: walker_new_def)
  then show ?thesis using walk_content[OF ok _ assms(1), of ?p] s assms(3) by simp
qed

theorem path_walk_witness:
  "walk \<lparr>sp_index = 8, sp_offset = 0, sp_saved = NUL\<rparr> ''/dev/tty''
     (walker_new \<lparr>sp_index = 8, sp_offset = 0, sp_saved = NUL\<rparr> ''/dev/tty'') = [''dev'', ''tty'']"
  using path_walk[of "[''dev'', ''tty'']" 1] by (simp add: plain_name_def sp_new_def eval_nat_numeral)

end
