(* ===== verification/Path_Resolution.thy ===== *)
theory Path_Resolution
  imports Miosix_Prelude String_Part
begin

text \<open>
  The resolution of paths over the mounted filesystems, \<^verbatim>\<open>class PathResolution\<close> of
  \<^verbatim>\<open>filesystem/file_access.cpp\<close>, in the default configuration (without \<^verbatim>\<open>WITH_POSIX_PERMISSIONS\<close>).

  A path is a character list without nul characters. The mounted filesystems are an association list
  from the path of the mountpoint to the filesystem; the order of the \<^verbatim>\<open>std::map\<close> of the code plays no role in a
  lookup. The virtual functions of the filesystems that the resolution calls, and the
  constant \<^verbatim>\<open>PATH_MAX\<close> of the C library, are fields of the argument \<open>ops\<close>. A failing operation returns the
  error number it has in the code.
\<close>

section \<open>Errors, filesystems and mountpoints\<close>

datatype errno = ENOENT | ENAMETOOLONG | ENOTDIR | ELOOP | EFAULT | EBADF | EMFILE | EINVAL | ERANGE
  | EBUSY | EXDEV | EPIPE | ESPIPE | OtherErrno nat

type_synonym 'a sysres = "errno + 'a"

type_synonym fsid = nat

datatype st_mode = S_IFDIR | S_IFLNK | S_IFREG

record stat =
  st_mode :: st_mode
  st_ino :: nat

record fsops =
  supportsSymlinks :: "fsid \<Rightarrow> bool"
  lstat :: "fsid \<Rightarrow> string \<Rightarrow> stat sysres"
  readlink :: "fsid \<Rightarrow> string \<Rightarrow> string sysres"
  PATH_MAX :: nat

type_synonym mounts = "(string \<times> fsid) list"

section \<open>The resolution\<close>

text \<open>The relative target of a symbolic link replaces the component behind the last slash before it. The code does
  not test whether there is one, since every path starts with a slash; the model reports an error there,
  and \<open>loop_ends\<close> below shows that this case does not occur.\<close>

record PathResolution =
  root :: fsid
  fs :: fsid
  syms :: bool
  index :: nat
  indexIntoFs :: nat
  depthIntoFs :: int
  linksFollowed :: nat

definition maxLinkToFollow :: nat where
  "maxLinkToFollow = 2"

text \<open>The loop of \<^verbatim>\<open>recursiveFindFs\<close>: back from slash to slash until a mountpoint is found.\<close>

function find_fs_back :: "mounts \<Rightarrow> fsid \<Rightarrow> string \<Rightarrow> nat \<Rightarrow> int \<Rightarrow> (fsid \<times> nat \<times> int) sysres" where
  "find_fs_back ms rt path backIndex depth =
     (case find_last_of path CHR ''/'' (backIndex - 1) of
        None \<Rightarrow> Inl ENOENT
      | Some b \<Rightarrow>
          if b = 0 then Inr (rt, 1, depth)
          else (case map_of ms (string_part path b 0) of
                  Some f \<Rightarrow> Inr (f, b + 1, depth)
                | None \<Rightarrow> find_fs_back ms rt path b (depth + 1)))"
  by pat_completeness auto
termination
  by (relation "measure (\<lambda>(ms, rt, path, b, d). b)") (auto dest: find_last_le)

declare find_fs_back.simps [simp del]

definition recursiveFindFs :: "fsops \<Rightarrow> mounts \<Rightarrow> string \<Rightarrow> PathResolution \<Rightarrow> PathResolution sysres" where
  "recursiveFindFs ops ms path st =
     (case find_fs_back ms (root st) path (index st) 1 of
        Inl e \<Rightarrow> Inl e
      | Inr (f, i, d) \<Rightarrow> Inr (st\<lparr>fs := f, indexIntoFs := i, depthIntoFs := d, syms := supportsSymlinks ops f\<rparr>))"

definition upPathComponent :: "fsops \<Rightarrow> mounts \<Rightarrow> string \<Rightarrow> nat \<Rightarrow> PathResolution
    \<Rightarrow> (string \<times> PathResolution) sysres" where
  "upPathComponent ops ms path slash st =
     (if index st \<le> 1 then Inl ENOENT
      else case find_last_of path CHR ''/'' (index st - 2) of
        None \<Rightarrow> Inl ENOENT
      | Some removeStart \<Rightarrow>
          let path1 = erase_str path removeStart (slash - removeStart);
              path2 = (if path1 = [] then ''/'' else path1);
              st1 = st\<lparr>index := removeStart + 1, indexIntoFs := min (indexIntoFs st) (length path2),
                       depthIntoFs := depthIntoFs st - 1\<rparr>
          in if depthIntoFs st1 > 0 then Inr (path2, st1)
             else map_sum id (Pair path2) (recursiveFindFs ops ms path2 st1))"

definition followSymlink :: "fsops \<Rightarrow> string \<Rightarrow> PathResolution \<Rightarrow> (string \<times> PathResolution) sysres" where
  "followSymlink ops path st0 =
     (let st = st0\<lparr>linksFollowed := linksFollowed st0 + 1\<rparr> in
      if linksFollowed st \<ge> maxLinkToFollow then Inl ELOOP
      else case readlink ops (fs st) (string_part path (index st - 1) (indexIntoFs st)) of
        Inl e \<Rightarrow> Inl e
      | Inr target \<Rightarrow>
          if target = [] then Inl ENOENT
          else let rest = (if index st \<le> length path then drop (index st - 1) path else []) in
            if hd target = CHR ''/'' then
              if length target + length path + 1 - index st > PATH_MAX ops then Inl ENAMETOOLONG
              else Inr (target @ rest,
                     st\<lparr>fs := root st, syms := supportsSymlinks ops (root st), index := 1, indexIntoFs := 1,
                        depthIntoFs := 1\<rparr>)
            else (case find_last_of path CHR ''/'' (index st - 2) of
                None \<Rightarrow> Inl ENOENT
              | Some removeStart \<Rightarrow>
                  if length path + removeStart + 2 + length target - index st > PATH_MAX ops then Inl ENAMETOOLONG
                  else Inr (take (removeStart + 1) path @ target @ rest,
                         st\<lparr>index := removeStart + 1, depthIntoFs := depthIntoFs st - 1\<rparr>)))"

definition normalPathComponent :: "fsops \<Rightarrow> mounts \<Rightarrow> string \<Rightarrow> bool \<Rightarrow> PathResolution
    \<Rightarrow> (string \<times> PathResolution) sysres" where
  "normalPathComponent ops ms path followIfSymlink st =
     (case map_of ms (string_part path (index st - 1) 0) of
        Some f \<Rightarrow> Inr (path, st\<lparr>fs := f, syms := supportsSymlinks ops f,
                     indexIntoFs := (if index st > length path then index st - 1 else index st), depthIntoFs := 1\<rparr>)
      | None \<Rightarrow>
          let st1 = st\<lparr>depthIntoFs := depthIntoFs st + 1\<rparr> in
          if syms st1 \<and> followIfSymlink then
            (case lstat ops (fs st1) (string_part path (index st1 - 1) (indexIntoFs st1)) of
               Inl e \<Rightarrow> Inl e
             | Inr s \<Rightarrow>
                 if st_mode s = S_IFLNK then followSymlink ops path st1
                 else if index st1 \<le> length path \<and> st_mode s \<noteq> S_IFDIR then Inl ENOTDIR
                 else Inr (path, st1))
          else Inr (path, st1))"

text \<open>One iteration of the loop of \<^verbatim>\<open>resolvePath\<close>, and what it does after the last component.\<close>

definition resolve_step :: "fsops \<Rightarrow> mounts \<Rightarrow> bool \<Rightarrow> string \<Rightarrow> PathResolution
    \<Rightarrow> (string \<times> PathResolution) sysres" where
  "resolve_step ops ms followLastSymlink path st =
     (let slash = (case find_first_of path CHR ''/'' (index st) of Some k \<Rightarrow> k | None \<Rightarrow> length path) in
      if slash = index st then Inr (erase_str path (index st) 1, st)
      else if slash - index st = 1 \<and> path ! index st = CHR ''.'' then Inr (erase_str path (index st) 2, st)
      else if slash - index st = 2 \<and> path ! index st = CHR ''.'' \<and> path ! (index st + 1) = CHR ''.''
        then upPathComponent ops ms path slash st
      else let st1 = st\<lparr>index := slash + 1\<rparr>;
               follow = (if index st1 > length path then followLastSymlink else True)
           in normalPathComponent ops ms path follow st1)"

definition resolve_last :: "string \<Rightarrow> PathResolution \<Rightarrow> string \<times> fsid \<times> nat" where
  "resolve_last path st =
     (let l = length path - 1 in
      if path ! l = CHR ''/''
      then let path' = erase_str path l 1 in (path', fs st, min (indexIntoFs st) (length path'))
      else (path, fs st, indexIntoFs st))"

lemma find_fs_back_keeps: "recursiveFindFs ops ms path st = Inr st' \<Longrightarrow> index st' = index st \<and> linksFollowed st' = linksFollowed st"
  by (auto simp: recursiveFindFs_def split: sum.splits prod.splits)

lemma up_progress:
  assumes "upPathComponent ops ms path slash st = Inr (path', st')" "index st < slash" "slash \<le> length path"
    "index st' < length path'"
  shows "linksFollowed st' = linksFollowed st" "length path' - index st' < length path - index st"
proof -
  obtain r where r: "find_last_of path CHR ''/'' (index st - 2) = Some r" and i: "index st > 1"
    using assms(1) by (auto simp: upPathComponent_def split: if_splits option.splits)
  have rb: "r \<le> index st - 2" using find_last_le[OF r] by simp
  define p1 where "p1 = erase_str path r (slash - r)"
  have l: "length p1 = length path - slash + r" using rb i assms(2,3) by (simp add: p1_def erase_str_def)
  have s: "index st' = r + 1" "linksFollowed st' = linksFollowed st" "path' = (if p1 = [] then ''/'' else p1)"
    using assms(1) i
    by (auto simp: upPathComponent_def r p1_def[symmetric] Let_def map_sum_def split: if_splits sum.splits dest!: find_fs_back_keeps)
  show "linksFollowed st' = linksFollowed st" by (rule s(2))
  show "length path' - index st' < length path - index st"
    using s l assms(2-4) by (auto split: if_splits)
qed

lemma follow_progress: "followSymlink ops path st = Inr (path', st')
    \<Longrightarrow> linksFollowed st' = linksFollowed st + 1 \<and> linksFollowed st' < maxLinkToFollow"
  by (auto simp: followSymlink_def Let_def split: if_splits sum.splits option.splits)

lemma normal_progress: "normalPathComponent ops ms path fl st = Inr (path', st')
    \<Longrightarrow> path' = path \<and> index st' = index st \<and> linksFollowed st' = linksFollowed st
      \<or> linksFollowed st < linksFollowed st' \<and> linksFollowed st' < maxLinkToFollow"
  by (auto simp: normalPathComponent_def Let_def split: if_splits sum.splits option.splits dest!: follow_progress)

lemma step_progress:
  assumes "resolve_step ops ms flw path st = Inr (path', st')" "index st' < length path'"
  shows "linksFollowed st < linksFollowed st' \<and> linksFollowed st' < maxLinkToFollow
       \<or> linksFollowed st' = linksFollowed st \<and> length path' - index st' < length path - index st"
proof -
  define slash where "slash = (case find_first_of path CHR ''/'' (index st) of Some k \<Rightarrow> k | None \<Rightarrow> length path)"
  have sl: "slash \<le> length path" "index st \<le> slash \<or> slash = length path"
    by (auto simp: slash_def split: option.splits dest: find_first_ge)
  have le: "index st \<le> length path \<Longrightarrow> index st \<le> slash" using sl(2) by auto
  note step = assms(1)[unfolded resolve_step_def slash_def[symmetric] Let_def]
  consider (empty) "slash = index st" | (dot) "slash \<noteq> index st" "slash - index st = 1" "path ! index st = CHR ''.''"
    | (up) "slash - index st = 2" "upPathComponent ops ms path slash st = Inr (path', st')"
    | (normal) fl where "slash \<noteq> index st" "normalPathComponent ops ms path fl (st\<lparr>index := slash + 1\<rparr>) = Inr (path', st')"
    using step by (auto split: if_splits)
  then show ?thesis
  proof cases
    case empty then show ?thesis using step assms(2) by (auto simp: erase_str_def)
  next
    case dot then show ?thesis using step assms(2) sl(1) le by (auto simp: erase_str_def)
  next
    case up then show ?thesis using up_progress[OF up(2) _ sl(1) assms(2)] by simp
  next
    case normal
    from normal_progress[OF normal(2)] show ?thesis
      using assms(2) sl normal(1) by auto
  qed
qed

function resolve_loop :: "fsops \<Rightarrow> mounts \<Rightarrow> bool \<Rightarrow> string \<Rightarrow> PathResolution
    \<Rightarrow> (string \<times> fsid \<times> nat) sysres" where
  "resolve_loop ops ms followLastSymlink path st =
     (case resolve_step ops ms followLastSymlink path st of
        Inl e \<Rightarrow> Inl e
      | Inr (path', st') \<Rightarrow>
          if index st' \<ge> length path' then Inr (resolve_last path' st')
          else resolve_loop ops ms followLastSymlink path' st')"
  by pat_completeness auto
termination
  by (relation "measures [\<lambda>(ops, ms, flw, path, st). maxLinkToFollow - linksFollowed st,
                          \<lambda>(ops, ms, flw, path, st). length path - index st]")
    (auto dest!: step_progress)

declare resolve_loop.simps [simp del]

definition PathResolution_resolvePath :: "fsops \<Rightarrow> mounts \<Rightarrow> bool \<Rightarrow> string \<Rightarrow> (string \<times> fsid \<times> nat) sysres" where
  "PathResolution_resolvePath ops ms followLastSymlink path =
     (case map_of ms ''/'' of
        None \<Rightarrow> Inl ENOENT
      | Some f \<Rightarrow> resolve_loop ops ms followLastSymlink path
          \<lparr>root = f, fs = f, syms = supportsSymlinks ops f, index = 1, indexIntoFs = 1, depthIntoFs = 1,
           linksFollowed = 0\<rparr>)"

definition resolvePath :: "fsops \<Rightarrow> mounts \<Rightarrow> bool \<Rightarrow> string \<Rightarrow> (string \<times> fsid \<times> nat) sysres" where
  "resolvePath ops ms followLastSymlink path =
     (if length path > PATH_MAX ops then Inl ENAMETOOLONG
      else if path = [] \<or> hd path \<noteq> CHR ''/'' then Inl ENOENT
      else PathResolution_resolvePath ops ms followLastSymlink path)"

section \<open>Specification\<close>

text \<open>The components of a path in normal form, the filesystem mounted at a list of components, and the
  number of components of the deepest mountpoint on the way to a path.\<close>

definition norm_name :: "string \<Rightarrow> bool" where
  "norm_name c \<longleftrightarrow> plain_name c \<and> c \<noteq> ''.'' \<and> c \<noteq> ''..''"

definition mount_at :: "mounts \<Rightarrow> string list \<Rightarrow> fsid option" where
  "mount_at ms cs = map_of ms (if cs = [] then ''/'' else render cs)"

fun deepest_from :: "mounts \<Rightarrow> string list \<Rightarrow> nat \<Rightarrow> nat" where
  "deepest_from ms cs 0 = 0"
| "deepest_from ms cs (Suc n) = (if mount_at ms (take (Suc n) cs) = None then deepest_from ms cs n else Suc n)"

definition deepest :: "mounts \<Rightarrow> string list \<Rightarrow> nat" where
  "deepest ms cs = deepest_from ms cs (length cs)"

text \<open>The offset at which the path relative to the filesystem mounted at the first \<open>k\<close> components starts.\<close>

definition off_of :: "string list \<Rightarrow> nat \<Rightarrow> nat" where
  "off_of cs k = (if k = length cs then length (render cs) else length (render (take k cs)) + 1)"

text \<open>No mountpoint but the root has another one below it.\<close>

definition nested_free :: "mounts \<Rightarrow> bool" where
  "nested_free ms = list_all (\<lambda>(p, _). p = ''/'' \<or> list_all (\<lambda>(q, _). \<not> prefix (p @ ''/'') q) ms) ms"

lemma deepest_from_append: "n \<le> length cs \<Longrightarrow> deepest_from ms (cs @ ds) n = deepest_from ms cs n"
  by (induction n) auto

lemma deepest_simps [simp]: "deepest ms [] = 0"
    "deepest ms (cs @ [c]) = (if mount_at ms (cs @ [c]) = None then deepest ms cs else Suc (length cs))"
  by (simp_all add: deepest_def deepest_from_append)

lemma deepest_le: "deepest ms cs \<le> length cs"
proof -
  have "deepest_from ms cs n \<le> n" for n by (induction n) auto
  then show ?thesis by (simp add: deepest_def)
qed

lemma deepest_mounted: "mount_at ms [] \<noteq> None \<Longrightarrow> mount_at ms (take (deepest ms cs) cs) \<noteq> None"
proof -
  assume "mount_at ms [] \<noteq> None"
  then have "mount_at ms (take (deepest_from ms cs n) cs) \<noteq> None" for n by (induction n) auto
  then show ?thesis by (simp add: deepest_def)
qed

lemma deepest_none: "deepest ms cs < j \<Longrightarrow> j \<le> length cs \<Longrightarrow> mount_at ms (take j cs) = None"
proof -
  have "deepest_from ms cs n < j \<Longrightarrow> j \<le> n \<Longrightarrow> mount_at ms (take j cs) = None" for n
    by (induction n) (auto split: if_splits simp: le_Suc_eq)
  then show "deepest ms cs < j \<Longrightarrow> j \<le> length cs \<Longrightarrow> mount_at ms (take j cs) = None" by (simp add: deepest_def)
qed

lemma nested_freeD:
  assumes "nested_free ms" "mount_at ms (cs @ [c]) \<noteq> None" "cs \<noteq> []" "list_all plain_name cs"
  shows "mount_at ms cs = None"
proof (rule ccontr)
  assume "mount_at ms cs \<noteq> None"
  then obtain f g where f: "(render cs, f) \<in> set ms" and g: "(render (cs @ [c]), g) \<in> set ms"
    using assms(2,3) by (auto simp: mount_at_def dest!: map_of_SomeD)
  have "render cs \<noteq> ''/''" using assms(3,4) by (cases cs) (auto simp: plain_name_def)
  moreover have "prefix (render cs @ ''/'') (render (cs @ [c]))" by (simp add: prefix_def)
  moreover have "p = ''/'' \<or> \<not> prefix (p @ ''/'') q" if "(p, f) \<in> set ms" "(q, g) \<in> set ms" for p q
    using assms(1) that by (fastforce simp: nested_free_def list_all_iff)
  ultimately show False using f g by blast
qed

lemma find_fs_back_spec:
  assumes "list_all plain_name ds" "mount_at ms [] = Some rt" "path = render ds @ CHR ''/'' # rest"
    "find_last_of path CHR ''/'' (b - 1) = Some (length (render ds))"
  shows "\<exists>f. mount_at ms (take (deepest ms ds) ds) = Some f
      \<and> find_fs_back ms rt path b d = Inr (f, length (render (take (deepest ms ds) ds)) + 1, d + int (length ds - deepest ms ds))"
  using assms
proof (induction ds arbitrary: rest b d rule: rev_induct)
  case Nil then show ?case by (subst find_fs_back.simps) simp
next
  case (snoc c ds)
  let ?ds = "ds @ [c]"
  have c: "CHR ''/'' \<notin> set c" using snoc.prems(1) by (simp add: plain_name_def)
  have m: "map_of ms (string_part path (length (render ?ds)) 0) = mount_at ms ?ds"
    by (simp add: mount_at_def string_part_def snoc.prems(3))
  have e: "find_fs_back ms rt path b d =
      (case mount_at ms ?ds of Some f \<Rightarrow> Inr (f, length (render ?ds) + 1, d)
       | None \<Rightarrow> find_fs_back ms rt path (length (render ?ds)) (d + 1))"
    by (subst find_fs_back.simps) (use snoc.prems(4) m in \<open>simp split: option.split\<close>)
  show ?case
  proof (cases "mount_at ms ?ds")
    case (Some f) then show ?thesis by (simp add: e)
  next
    case None
    have p: "path = render ds @ CHR ''/'' # c @ CHR ''/'' # rest" using snoc.prems(3) by simp
    have "find_last_of path CHR ''/'' (length (render ?ds) - 1) = Some (length (render ds))"
      unfolding p by (rule find_last_Some[OF c]) simp_all
    from snoc.IH[OF _ snoc.prems(2) p this, of "d + 1"] snoc.prems(1)
    obtain f where "mount_at ms (take (deepest ms ds) ds) = Some f"
      "find_fs_back ms rt path (length (render ?ds)) (d + 1)
        = Inr (f, length (render (take (deepest ms ds) ds)) + 1, d + 1 + int (length ds - deepest ms ds))" by auto
    then show ?thesis using None deepest_le[of ms ds] by (simp add: e Suc_diff_le)
  qed
qed

section \<open>The invariant of the loop\<close>

definition located :: "fsops \<Rightarrow> mounts \<Rightarrow> string list \<Rightarrow> PathResolution \<Rightarrow> bool" where
  "located ops ms cs st \<longleftrightarrow> mount_at ms [] = Some (root st)
     \<and> mount_at ms (take (deepest ms cs) cs) = Some (fs st)
     \<and> indexIntoFs st = length (render (take (deepest ms cs) cs)) + 1
     \<and> depthIntoFs st = int (length cs - deepest ms cs) + 1 \<and> syms st = supportsSymlinks ops (fs st)"

text \<open>Before an iteration the path consists of components in normal form, a slash, and a rest that
  is not yet looked at; after the last component the rest and the slash may be missing.\<close>

definition at_head :: "fsops \<Rightarrow> mounts \<Rightarrow> string \<Rightarrow> PathResolution \<Rightarrow> string list \<Rightarrow> string \<Rightarrow> bool" where
  "at_head ops ms path st cs rest \<longleftrightarrow> path = render cs @ CHR ''/'' # rest \<and> index st = length (render cs) + 1
     \<and> list_all norm_name cs \<and> located ops ms cs st"

definition at_end :: "mounts \<Rightarrow> string \<Rightarrow> PathResolution \<Rightarrow> string list \<Rightarrow> nat \<Rightarrow> bool" where
  "at_end ms path st cs k \<longleftrightarrow> cs \<noteq> [] \<and> path = render cs \<and> index st = length path + 1 \<and> list_all norm_name cs
     \<and> k \<le> length cs \<and> mount_at ms (take k cs) = Some (fs st) \<and> indexIntoFs st = off_of cs k
     \<and> (nested_free ms \<longrightarrow> k = deepest ms cs)"

lemma norm_plain: "list_all norm_name cs \<Longrightarrow> list_all plain_name cs"
  by (simp add: list_all_iff norm_name_def)

lemma render_pos: "list_all norm_name cs \<Longrightarrow> k < length cs \<Longrightarrow> length (render (take k cs)) + 1 \<le> length (render cs)"
proof -
  assume "k < length cs"
  then have "render cs = render (take k cs) @ render (drop k cs)" by (metis append_take_drop_id render_simps(3))
  moreover have "render (drop k cs) \<noteq> []" using \<open>k < length cs\<close> by (cases "drop k cs") auto
  ultimately show ?thesis by (simp add: Suc_le_eq)
qed

lemma last_at_head:
  assumes "at_head ops ms path st cs []"
  shows "resolve_last path st = (render cs, fs st, off_of cs (deepest ms cs))"
proof -
  have p: "path = render cs @ ''/''" and n: "list_all norm_name cs" and l: "located ops ms cs st"
    using assms by (simp_all add: at_head_def)
  show ?thesis
  proof (cases "deepest ms cs = length cs")
    case True then show ?thesis using p l
      by (simp add: resolve_last_def erase_str_def nth_append located_def off_of_def Let_def)
  next
    case False
    then have "deepest ms cs < length cs" using deepest_le[of ms cs] by simp
    from render_pos[OF n this] show ?thesis using p l False
      by (simp add: resolve_last_def erase_str_def nth_append located_def off_of_def Let_def)
  qed
qed

lemma last_at_end:
  assumes "at_end ms path st cs k"
  shows "resolve_last path st = (render cs, fs st, off_of cs k)"
proof -
  obtain ds c where cs: "cs = ds @ [c]" using assms by (cases cs rule: rev_cases) (auto simp: at_end_def)
  have c: "c \<noteq> []" "CHR ''/'' \<notin> set c" using assms cs by (auto simp: at_end_def norm_name_def plain_name_def)
  have "path ! (length path - 1) = last c"
    using assms cs c(1) last_conv_nth[of path] by (simp add: at_end_def)
  moreover have "last c \<noteq> CHR ''/''" using c last_in_set by metis
  ultimately show ?thesis using assms by (simp add: resolve_last_def at_end_def)
qed

text \<open>One iteration, on the next component \<open>nm\<close>; \<open>sfx\<close> is empty or starts with the slash behind it.\<close>

definition comp_split :: "string \<Rightarrow> string \<Rightarrow> string \<Rightarrow> bool" where
  "comp_split rest nm sfx \<longleftrightarrow> rest = nm @ sfx \<and> CHR ''/'' \<notin> set nm \<and> (sfx = [] \<or> hd sfx = CHR ''/'')"

lemma comp_split_ex: "\<exists>nm sfx. comp_split rest nm sfx"
proof (intro exI)
  show "comp_split rest (takeWhile (\<lambda>x. x \<noteq> CHR ''/'') rest) (dropWhile (\<lambda>x. x \<noteq> CHR ''/'') rest)"
    using hd_dropWhile[of "\<lambda>x. x \<noteq> CHR ''/''" rest] by (auto simp: comp_split_def dest: set_takeWhileD)
qed

lemma slash_pos:
  assumes "at_head ops ms path st cs rest" "comp_split rest nm sfx"
  shows "(case find_first_of path CHR ''/'' (index st) of Some k \<Rightarrow> k | None \<Rightarrow> length path) = index st + length nm"
proof (cases sfx)
  case Nil
  then have "path = (render cs @ ''/'') @ nm" "CHR ''/'' \<notin> set nm"
    using assms by (auto simp: at_head_def comp_split_def)
  then show ?thesis using find_first_None[of "CHR ''/''" nm "render cs @ ''/''"] assms(1) by (simp add: at_head_def)
next
  case (Cons a r)
  then have "path = (render cs @ ''/'') @ nm @ CHR ''/'' # r" "CHR ''/'' \<notin> set nm"
    using assms by (auto simp: at_head_def comp_split_def)
  then show ?thesis using find_first_Some[of "CHR ''/''" nm "render cs @ ''/''" "index st" r] assms(1)
    by (auto simp: at_head_def)
qed

lemma step_cases:
  assumes h: "at_head ops ms path st cs rest" and sp: "comp_split rest nm sfx"
  shows "resolve_step ops ms flw path st =
    (if nm = [] then Inr (erase_str path (index st) 1, st)
     else if nm = ''.'' then Inr (erase_str path (index st) 2, st)
     else if nm = ''..'' then upPathComponent ops ms path (index st + 2) st
     else normalPathComponent ops ms path (sfx \<noteq> [] \<or> flw) (st\<lparr>index := index st + length nm + 1\<rparr>))"
proof -
  have p: "path = render cs @ CHR ''/'' # nm @ sfx" "index st = length (render cs) + 1"
    using assms by (auto simp: at_head_def comp_split_def)
  have n: "k < length nm \<Longrightarrow> path ! (index st + k) = nm ! k" for k by (simp add: p nth_append)
  have one: "length nm = 1 \<and> path ! index st = CHR ''.'' \<longleftrightarrow> nm = ''.''"
    using n[of 0] by (cases nm) auto
  have two: "length nm = 2 \<and> path ! index st = CHR ''.'' \<and> path ! (index st + 1) = CHR ''.'' \<longleftrightarrow> nm = ''..''"
    using n[of 0] n[of 1] by (auto simp: numeral_2_eq_2 length_Suc_conv)
  have last: "index st + length nm + 1 > length path \<longleftrightarrow> sfx = []" by (simp add: p)
  show ?thesis
    unfolding resolve_step_def slash_pos[OF assms] Let_def
    using one two last by (auto split: if_splits)
qed

lemma step_skip:
  assumes "at_head ops ms path st cs rest" "comp_split rest nm sfx" "nm = [] \<or> nm = ''.''"
  shows "\<exists>p'. resolve_step ops ms flw path st = Inr (p', st) \<and> at_head ops ms p' st cs (drop 1 sfx)"
proof (intro exI conjI)
  let ?p = "render cs @ CHR ''/'' # drop 1 sfx"
  have p: "path = render cs @ CHR ''/'' # nm @ sfx" "index st = length (render cs) + 1"
    using assms by (auto simp: at_head_def comp_split_def)
  have e: "erase_str path (index st) 1 = ?p" if "nm = []" using that by (simp add: p erase_str_def)
  have e2: "erase_str path (index st) 2 = ?p" if "nm = ''.''" using that by (simp add: p erase_str_def)
  show "resolve_step ops ms flw path st = Inr (?p, st)"
    using assms(3) e e2 by (auto simp: step_cases[OF assms(1,2)])
  show "at_head ops ms ?p st cs (drop 1 sfx)" using assms(1) by (simp add: at_head_def)
qed

lemma step_up_root:
  assumes "at_head ops ms path st [] rest" "comp_split rest ''..'' sfx"
  shows "resolve_step ops ms flw path st = Inl ENOENT"
  using step_cases[OF assms] assms(1) by (simp add: upPathComponent_def at_head_def)

lemma located_up:
  assumes "located ops ms (ds @ [c]) st" "depthIntoFs st > 1"
  shows "mount_at ms (ds @ [c]) = None" "located ops ms ds (st\<lparr>depthIntoFs := depthIntoFs st - 1\<rparr>)"
proof -
  show m: "mount_at ms (ds @ [c]) = None" using assms by (auto simp: located_def split: if_splits)
  show "located ops ms ds (st\<lparr>depthIntoFs := depthIntoFs st - 1\<rparr>)"
    using assms m deepest_le[of ms ds] by (auto simp: located_def Suc_diff_le)
qed

text \<open>The iteration on two dots removes the last component; at the end of the path the search for the filesystem does
  not look at the path itself, so it is right only without nested mountpoints.\<close>

lemma step_up:
  assumes h: "at_head ops ms path st (ds @ [c]) rest" and sp: "comp_split rest ''..'' sfx"
  shows "\<exists>p' st'. resolve_step ops ms flw path st = Inr (p', st')
    \<and> (if sfx = [] \<and> ds \<noteq> [] then \<exists>k. at_end ms p' st' ds k else at_head ops ms p' st' ds (drop 1 sfx))"
proof -
  have n: "list_all norm_name ds" "list_all plain_name ds" "CHR ''/'' \<notin> set c" and l: "located ops ms (ds @ [c]) st"
    using h norm_plain by (auto simp: at_head_def norm_name_def plain_name_def)
  have p: "path = render ds @ CHR ''/'' # c @ CHR ''/'' # ''..'' @ sfx" and i: "index st = length (render ds) + length c + 2"
    using h sp by (auto simp: at_head_def comp_split_def)
  have r: "find_last_of path CHR ''/'' (index st - 2) = Some (length (render ds))"
    unfolding p i by (rule find_last_Some[OF n(3)]) simp_all
  define p2 where "p2 = (if render ds @ sfx = [] then ''/'' else render ds @ sfx)"
  have er: "erase_str path (length (render ds)) (index st + 2 - length (render ds)) = render ds @ sfx"
    by (simp add: p i erase_str_def eval_nat_numeral)
  define st1 where "st1 = st\<lparr>index := length (render ds) + 1, indexIntoFs := min (indexIntoFs st) (length p2),
      depthIntoFs := depthIntoFs st - 1\<rparr>"
  have step: "resolve_step ops ms flw path st =
      (if depthIntoFs st > 1 then Inr (p2, st1) else map_sum id (Pair p2) (recursiveFindFs ops ms p2 st1))"
  proof -
    have "\<not> index st \<le> 1" using i by simp
    then show ?thesis unfolding step_cases[OF h sp] upPathComponent_def Let_def r
      by (simp add: er[simplified] p2_def st1_def)
  qed
  have sfx: "sfx = [] \<or> sfx = CHR ''/'' # drop 1 sfx" using sp by (cases sfx) (auto simp: comp_split_def)
  show ?thesis
  proof (cases "sfx = [] \<and> ds \<noteq> []")
    case False
    have p2: "p2 = render ds @ CHR ''/'' # drop 1 sfx"
      using sfx False by (cases ds) (auto simp: p2_def)
    show ?thesis
    proof (cases "depthIntoFs st > 1")
      case True
      note up = located_up[OF l this]
      have "indexIntoFs st \<le> length p2"
        using up(2) deepest_le[of ms ds] render_pos[OF n(1), of "deepest ms ds"]
        by (cases "deepest ms ds = length ds") (auto simp: located_def p2)
      then show ?thesis using True False up(2) n(1) p2
        by (auto simp: step at_head_def st1_def located_def)
    next
      case d: False
      have "find_last_of p2 CHR ''/'' (index st1 - 1) = Some (length (render ds))"
        unfolding p2 using find_last_Some[of "CHR ''/''" "[]" "render ds"] by (simp add: st1_def)
      from find_fs_back_spec[OF n(2) _ p2 this, of ms "root st1" 1] l
      obtain f where "mount_at ms (take (deepest ms ds) ds) = Some f"
        "find_fs_back ms (root st1) p2 (index st1) 1 =
          Inr (f, length (render (take (deepest ms ds) ds)) + 1, 1 + int (length ds - deepest ms ds))"
        by (auto simp: located_def st1_def)
      then show ?thesis using d False l n(1) p2
        by (auto simp: step recursiveFindFs_def at_head_def located_def st1_def)
    qed
  next
    case True
    then obtain es e where ds: "ds = es @ [e]" by (cases ds rule: rev_cases) auto
    have p2: "p2 = render ds" using True by (cases ds) (auto simp: p2_def)
    have e: "CHR ''/'' \<notin> set e" using n(2) ds by (simp add: plain_name_def)
    show ?thesis
    proof (cases "depthIntoFs st > 1")
      case d: True
      note up = located_up[OF l this]
      have "at_end ms p2 st1 ds (deepest ms ds)"
        using up(2) True n(1) deepest_le[of ms ds] render_pos[OF n(1), of "deepest ms ds"]
        by (cases "deepest ms ds = length ds") (auto simp: at_end_def located_def p2 st1_def off_of_def)
      then show ?thesis using True d by (auto simp: step)
    next
      case d: False
      have m: "mount_at ms (ds @ [c]) \<noteq> None"
        using d l deepest_le[of ms ds] by (auto simp: located_def split: if_splits)
      have p2': "p2 = render es @ CHR ''/'' # e" by (simp add: p2 ds)
      have "find_last_of p2 CHR ''/'' (index st1 - 1) = Some (length (render es))"
        unfolding p2' by (rule find_last_Some_end[OF e]) (simp add: st1_def ds)
      from find_fs_back_spec[OF _ _ p2' this, of ms "root st1" 1] l n(2)
      obtain f where f: "mount_at ms (take (deepest ms es) es) = Some f"
        "find_fs_back ms (root st1) p2 (index st1) 1 =
          Inr (f, length (render (take (deepest ms es) es)) + 1, 1 + int (length es - deepest ms es))"
        by (auto simp: located_def st1_def ds)
      let ?st = "st1\<lparr>fs := f, indexIntoFs := length (render (take (deepest ms es) es)) + 1,
          depthIntoFs := 1 + int (length es - deepest ms es), syms := supportsSymlinks ops f\<rparr>"
      have "nested_free ms \<Longrightarrow> deepest ms ds = deepest ms es"
        using nested_freeD[OF _ m True[THEN conjunct2] n(2)] by (simp add: ds)
      then have "at_end ms p2 ?st ds (deepest ms es)"
        using f(1) n(1) deepest_le[of ms es] True by (simp add: at_end_def p2 st1_def off_of_def ds)
      then show ?thesis using d True f(2) by (auto simp: step recursiveFindFs_def)
    qed
  qed
qed

lemma normal_located:
  assumes "located ops ms cs st" "mount_at ms (cs @ [nm]) = None"
  shows "located ops ms (cs @ [nm]) (st\<lparr>index := i, depthIntoFs := depthIntoFs st + 1\<rparr>)"
  using assms deepest_le[of ms cs] by (auto simp: located_def Suc_diff_le)

text \<open>The iteration on any other name adds it to the components, or goes on with the target of a link.\<close>

lemma follow_head:
  assumes "located ops ms cs st0" "st = st0\<lparr>index := length (render cs) + length nm + 2, depthIntoFs := depthIntoFs st0 + 1\<rparr>"
    "path = render cs @ CHR ''/'' # nm @ sfx" "CHR ''/'' \<notin> set nm" "list_all norm_name cs"
    "followSymlink ops path st = Inr (p', st')"
  shows "\<exists>cs' r'. at_head ops ms p' st' cs' r'"
proof -
  obtain target where t: "readlink ops (fs st) (string_part path (index st - 1) (indexIntoFs st)) = Inr target" "target \<noteq> []"
    using assms(6) by (auto simp: followSymlink_def Let_def split: if_splits sum.splits)
  have r: "find_last_of path CHR ''/'' (index st - 2) = Some (length (render cs))"
    unfolding assms(2,3) using find_last_Some[OF assms(4), of "render cs"] by simp
  let ?rest = "if index st \<le> length path then drop (index st - 1) path else []"
  show ?thesis
  proof (cases "hd target = CHR ''/''")
    case True
    then obtain u where "target = CHR ''/'' # u" using t(2) by (cases target) auto
    then have "at_head ops ms p' st' [] (u @ ?rest)"
      using assms(1,2,6) t by (auto simp: followSymlink_def Let_def at_head_def located_def split: if_splits)
    then show ?thesis by blast
  next
    case False
    then have "at_head ops ms p' st' cs (target @ ?rest)"
      using assms(1,2,3,5,6) t r by (auto simp: followSymlink_def Let_def at_head_def located_def split: if_splits)
    then show ?thesis by blast
  qed
qed

lemma step_normal:
  assumes h: "at_head ops ms path st cs rest" and sp: "comp_split rest nm sfx" and nm: "norm_name nm"
  shows "\<not> syms st \<Longrightarrow> \<exists>x. resolve_step ops ms flw path st = Inr x"
    "resolve_step ops ms flw path st = Inr (p', st') \<Longrightarrow>
       (if sfx = [] then \<exists>k. at_end ms p' st' (cs @ [nm]) k else at_head ops ms p' st' (cs @ [nm]) (drop 1 sfx))
       \<or> syms st \<and> (\<exists>cs' r'. at_head ops ms p' st' cs' r')"
proof -
  have p: "path = render cs @ CHR ''/'' # nm @ sfx" and i: "index st = length (render cs) + 1"
    and n: "list_all norm_name (cs @ [nm])" and l: "located ops ms cs st"
    using h sp nm by (auto simp: at_head_def comp_split_def)
  have nn: "nm \<noteq> []" "nm \<noteq> ''.''" "nm \<noteq> ''..''" "CHR ''/'' \<notin> set nm" using nm by (auto simp: norm_name_def plain_name_def)
  let ?st = "st\<lparr>index := length (render cs) + length nm + 2\<rparr>"
  have s: "resolve_step ops ms flw path st = normalPathComponent ops ms path (sfx \<noteq> [] \<or> flw) ?st"
    using nn i by (simp add: step_cases[OF h sp])
  have m: "map_of ms (string_part path (index ?st - 1) 0) = mount_at ms (cs @ [nm])"
    by (simp add: mount_at_def string_part_def p)
  have last: "index ?st > length path \<longleftrightarrow> sfx = []" by (simp add: p)
  have len: "sfx = [] \<Longrightarrow> length path = length (render cs) + length nm + 1" by (simp add: p)
  have sfx: "sfx \<noteq> [] \<Longrightarrow> sfx = CHR ''/'' # drop 1 sfx" using sp by (cases sfx) (auto simp: comp_split_def)
  show "\<not> syms st \<Longrightarrow> \<exists>x. resolve_step ops ms flw path st = Inr x"
    by (simp add: s normalPathComponent_def Let_def split: option.split)
  let ?st1 = "?st\<lparr>depthIntoFs := depthIntoFs st + 1\<rparr>"
  have plain: "if sfx = [] then \<exists>k. at_end ms path ?st1 (cs @ [nm]) k else at_head ops ms path ?st1 (cs @ [nm]) (drop 1 sfx)"
    if none: "mount_at ms (cs @ [nm]) = None"
  proof (cases "sfx = []")
    case True
    have "at_end ms path ?st1 (cs @ [nm]) (deepest ms cs)"
      using l n none True deepest_le[of ms cs] by (simp add: at_end_def located_def off_of_def p)
    then show ?thesis using True by auto
  next
    case False
    then show ?thesis using normal_located[OF l none] n sfx by (simp add: at_head_def p)
  qed
  assume a: "resolve_step ops ms flw path st = Inr (p', st')"
  show "(if sfx = [] then \<exists>k. at_end ms p' st' (cs @ [nm]) k else at_head ops ms p' st' (cs @ [nm]) (drop 1 sfx))
       \<or> syms st \<and> (\<exists>cs' r'. at_head ops ms p' st' cs' r')"
  proof (cases "mount_at ms (cs @ [nm])")
    case (Some f)
    then have st': "p' = path" "st' = ?st\<lparr>fs := f, syms := supportsSymlinks ops f,
        indexIntoFs := (if sfx = [] then length path else length (render cs) + length nm + 2), depthIntoFs := 1\<rparr>"
      using a[unfolded s normalPathComponent_def m Some] last len by (auto split: if_splits)
    show ?thesis
    proof (cases "sfx = []")
      case True
      have "at_end ms p' st' (cs @ [nm]) (length cs + 1)"
        using st' n Some True by (simp add: at_end_def off_of_def p)
      then show ?thesis using True by auto
    next
      case False
      then have "at_head ops ms p' st' (cs @ [nm]) (drop 1 sfx)"
        using st' n Some l sfx by (simp add: at_head_def located_def p)
      then show ?thesis using False by simp
    qed
  next
    case None
    then consider "p' = path" "st' = ?st1" | "syms st" "followSymlink ops path ?st1 = Inr (p', st')"
      using a[unfolded s normalPathComponent_def m None Let_def option.case]
      by (simp split: if_splits sum.splits)
    then show ?thesis
    proof cases
      case 1 show ?thesis unfolding 1 by (rule disjI1) (rule plain[OF None])
    next
      case 2
      have "list_all norm_name cs" using n by simp
      from follow_head[OF l _ p nn(4) this 2(2)] show ?thesis using 2(1) by simp
    qed
  qed
qed

section \<open>The loop\<close>

definition resolved :: "mounts \<Rightarrow> string \<Rightarrow> fsid \<Rightarrow> nat \<Rightarrow> string list \<Rightarrow> nat \<Rightarrow> bool" where
  "resolved ms path f off cs k \<longleftrightarrow> path = render cs \<and> list_all norm_name cs \<and> k \<le> length cs
     \<and> mount_at ms (take k cs) = Some f \<and> off = off_of cs k \<and> (nested_free ms \<longrightarrow> k = deepest ms cs)"

lemma step_inv:
  assumes h: "at_head ops ms path st cs rest" and s: "resolve_step ops ms flw path st = Inr (p', st')"
  shows "(\<exists>cs' r'. at_head ops ms p' st' cs' r') \<or> (\<exists>cs' k. at_end ms p' st' cs' k)"
proof -
  obtain nm sfx where sp: "comp_split rest nm sfx" using comp_split_ex by blast
  consider "nm = [] \<or> nm = ''.''" | "nm = ''..''" | "norm_name nm"
    using sp by (auto simp: comp_split_def norm_name_def plain_name_def)
  then show ?thesis
  proof cases
    case 1 then show ?thesis using step_skip[OF h sp, of flw] s by auto
  next
    case 2
    then show ?thesis
    proof (cases cs rule: rev_cases)
      case Nil then show ?thesis using step_up_root[of ops ms path st rest sfx flw] h sp 2 s by simp
    next
      case (snoc ds c)
      then show ?thesis using step_up[of ops ms path st ds c rest sfx flw] h sp 2 s by (auto split: if_splits)
    qed
  next
    case 3 then show ?thesis using step_normal(2)[OF h sp 3 s] by (auto split: if_splits)
  qed
qed

lemma at_head_done: "at_head ops ms path st cs rest \<Longrightarrow> length path \<le> index st \<longleftrightarrow> rest = []"
  by (cases rest) (auto simp: at_head_def)

lemma at_end_done: "at_end ms path st cs k \<Longrightarrow> length path \<le> index st"
  by (simp add: at_end_def)

lemma at_head_resolved:
  assumes "at_head ops ms path st cs []"
  shows "\<exists>f off k. resolve_last path st = (render cs, f, off) \<and> resolved ms (render cs) f off cs k"
  using last_at_head[OF assms] assms deepest_le[of ms cs]
  by (auto simp: resolved_def at_head_def located_def)

lemma at_end_resolved:
  assumes "at_end ms path st cs k"
  shows "\<exists>f off. resolve_last path st = (render cs, f, off) \<and> resolved ms (render cs) f off cs k"
  using last_at_end[OF assms] assms by (auto simp: resolved_def at_end_def)

lemma loop_ends:
  assumes "at_head ops ms path st cs rest" "resolve_loop ops ms flw path st = Inr (p, f, off)"
  shows "\<exists>cs k. resolved ms p f off cs k"
  using assms
proof (induction ops ms flw path st arbitrary: cs rest rule: resolve_loop.induct)
  case (1 ops ms flw path st)
  obtain p' st' where s: "resolve_step ops ms flw path st = Inr (p', st')"
    using 1(3) by (subst (asm) resolve_loop.simps) (auto split: sum.splits)
  have e: "(if length p' \<le> index st' then Inr (resolve_last p' st') else resolve_loop ops ms flw p' st') = Inr (p, f, off)"
    using 1(3) by (subst (asm) resolve_loop.simps) (simp add: s)
  from step_inv[OF 1(2) s] show ?case
  proof (elim disjE exE)
    fix cs' r' assume h: "at_head ops ms p' st' cs' r'"
    show ?thesis
    proof (cases "r' = []")
      case True
      then show ?thesis using e h at_head_done[OF h] at_head_resolved[of ops ms p' st' cs'] by (auto simp: resolved_def)
    next
      case False
      then have "\<not> length p' \<le> index st'" using at_head_done[OF h] by simp
      then show ?thesis using 1(1)[OF s refl _ h] e by simp
    qed
  next
    fix cs' k assume h: "at_end ms p' st' cs' k"
    then show ?thesis using e at_end_done[OF h] at_end_resolved[OF h] by (auto simp: resolved_def)
  qed
qed

lemma step_length:
  assumes "resolve_step ops ms flw path st = Inr (p', st')" "at_head ops ms path st cs rest" "length path \<le> PATH_MAX ops"
  shows "length p' \<le> PATH_MAX ops"
proof -
  obtain nm sfx where sp: "comp_split rest nm sfx" using comp_split_ex by blast
  have "path \<noteq> []" using assms(2) by (auto simp: at_head_def)
  then have one: "1 \<le> PATH_MAX ops" using assms(3) by (cases path) auto
  have er: "length (erase_str path i n) \<le> PATH_MAX ops" for i n using assms(3) by (simp add: erase_str_def)
  have up: "upPathComponent ops ms path s st = Inr (p', st') \<Longrightarrow> length p' \<le> PATH_MAX ops" for s
    using one er by (auto simp: upPathComponent_def Let_def map_sum_def split: if_splits option.splits sum.splits)
  have fl: "length p' \<le> PATH_MAX ops" if "followSymlink ops path s = Inr (p', st')" "index s > 0" "index s \<le> length path + 1" for s
    using that by (auto simp: followSymlink_def Let_def split: if_splits option.splits sum.splits dest: find_last_le)
  have nm: "normalPathComponent ops ms path b s = Inr (p', st') \<Longrightarrow> index s > 0 \<Longrightarrow> index s \<le> length path + 1
      \<Longrightarrow> length p' \<le> PATH_MAX ops" for b s
    using assms(3) fl[of "s\<lparr>depthIntoFs := depthIntoFs s + 1\<rparr>"]
    by (auto simp: normalPathComponent_def Let_def split: if_splits option.splits sum.splits)
  have "index st + length nm + 1 \<le> length path + 1" using assms(2) sp by (auto simp: at_head_def comp_split_def)
  then show ?thesis using assms(1) er up nm unfolding step_cases[OF assms(2) sp] by (auto split: if_splits)
qed

lemma loop_length:
  assumes "at_head ops ms path st cs rest" "resolve_loop ops ms flw path st = Inr (p, f, off)" "length path \<le> PATH_MAX ops"
  shows "length p \<le> PATH_MAX ops"
  using assms
proof (induction ops ms flw path st arbitrary: cs rest rule: resolve_loop.induct)
  case (1 ops ms flw path st)
  obtain p' st' where s: "resolve_step ops ms flw path st = Inr (p', st')"
    using 1(3) by (subst (asm) resolve_loop.simps) (auto split: sum.splits)
  have e: "(if length p' \<le> index st' then Inr (resolve_last p' st') else resolve_loop ops ms flw p' st') = Inr (p, f, off)"
    using 1(3) by (subst (asm) resolve_loop.simps) (simp add: s)
  note len = step_length[OF s 1(2,4)]
  show ?case
  proof (cases "length p' \<le> index st'")
    case True
    then show ?thesis using e len by (auto simp: resolve_last_def erase_str_def Let_def split: if_splits)
  next
    case False
    with step_inv[OF 1(2) s] obtain cs' r' where "at_head ops ms p' st' cs' r'" using at_end_done by blast
    from 1(1)[OF s refl False this _ len] show ?thesis using e False by simp
  qed
qed

lemma start_head:
  assumes "path \<noteq> []" "hd path = CHR ''/''" "map_of ms ''/'' = Some f"
  shows "at_head ops ms path \<lparr>root = f, fs = f, syms = supportsSymlinks ops f, index = 1, indexIntoFs = 1,
           depthIntoFs = 1, linksFollowed = 0\<rparr> [] (List.tl path)"
  using assms by (cases path) (auto simp: at_head_def located_def mount_at_def)

section \<open>Without symbolic links\<close>

text \<open>The components between slashes, and the meaning of empty components and dots.\<close>

fun split_slash :: "string \<Rightarrow> string list" where
  "split_slash [] = [[]]"
| "split_slash (c # s) = (if c = CHR ''/'' then [] # split_slash s
     else (case split_slash s of [] \<Rightarrow> [[c]] | w # ws \<Rightarrow> (c # w) # ws))"

fun normalize_path :: "string list \<Rightarrow> string list \<Rightarrow> string list option" where
  "normalize_path cs [] = Some cs"
| "normalize_path cs (w # ws) =
     (if w = [] \<or> w = ''.'' then normalize_path cs ws
      else if w = ''..'' then (if cs = [] then None else normalize_path (butlast cs) ws)
      else normalize_path (cs @ [w]) ws)"

lemma split_slash_append: "CHR ''/'' \<notin> set w \<Longrightarrow> split_slash (w @ CHR ''/'' # s) = w # split_slash s"
    "CHR ''/'' \<notin> set w \<Longrightarrow> split_slash w = [w]"
  by (induction w) auto

definition spec_result :: "mounts \<Rightarrow> string list \<Rightarrow> string \<times> fsid \<times> nat" where
  "spec_result ms cs = (render cs, the (mount_at ms (take (deepest ms cs) cs)), off_of cs (deepest ms cs))"

definition spec_resolve :: "mounts \<Rightarrow> string list \<Rightarrow> string list \<Rightarrow> (string \<times> fsid \<times> nat) sysres" where
  "spec_resolve ms cs ws = (case normalize_path cs ws of None \<Rightarrow> Inl ENOENT | Some ds \<Rightarrow> Inr (spec_result ms ds))"

lemma split_comp:
  assumes "comp_split rest nm sfx"
  shows "split_slash rest = nm # (if sfx = [] then [] else split_slash (drop 1 sfx))"
  using assms by (cases sfx) (auto simp: comp_split_def split_slash_append)

lemma loop_normalizes:
  assumes "at_head ops ms path st cs rest" "nested_free ms" "\<And>f. \<not> supportsSymlinks ops f"
  shows "resolve_loop ops ms flw path st = spec_resolve ms cs (split_slash rest)"
  using assms
proof (induction ops ms flw path st arbitrary: cs rest rule: resolve_loop.induct)
  case (1 ops ms flw path st)
  note h = 1(2)
  obtain nm sfx where sp: "comp_split rest nm sfx" using comp_split_ex by blast
  have ns: "\<not> syms st" using h 1(4) by (simp add: at_head_def located_def)
  have loop: "resolve_loop ops ms flw path st =
      (if length p' \<le> index st' then Inr (resolve_last p' st') else resolve_loop ops ms flw p' st')"
    if "resolve_step ops ms flw path st = Inr (p', st')" for p' st'
    using that by (subst resolve_loop.simps) simp
  have head: "resolve_loop ops ms flw path st = spec_resolve ms ds (if sfx = [] then [] else split_slash (drop 1 sfx))"
    if s: "resolve_step ops ms flw path st = Inr (p', st')" and a: "at_head ops ms p' st' ds (drop 1 sfx)" for p' st' ds
  proof (cases "drop 1 sfx = []")
    case True
    then have "resolve_loop ops ms flw path st = Inr (resolve_last p' st')"
      using loop[OF s] at_head_done[OF a] by simp
    also have "resolve_last p' st' = spec_result ms ds"
      using last_at_head[of ops ms p' st' ds] a True by (simp add: spec_result_def at_head_def located_def)
    finally show ?thesis using True by (simp add: spec_resolve_def)
  next
    case False
    then have "resolve_loop ops ms flw path st = resolve_loop ops ms flw p' st'"
      using loop[OF s] at_head_done[OF a] by simp
    then show ?thesis using 1(1)[OF s refl _ a 1(3,4)] at_head_done[OF a] False by auto
  qed
  have fin: "resolve_loop ops ms flw path st = spec_resolve ms ds []"
    if s: "resolve_step ops ms flw path st = Inr (p', st')" and a: "at_end ms p' st' ds k" for p' st' ds k
  proof -
    have "mount_at ms (take (deepest ms ds) ds) = Some (fs st')" "k = deepest ms ds"
      using a 1(3) by (auto simp: at_end_def)
    then show ?thesis using loop[OF s] at_end_done[OF a] last_at_end[OF a]
      by (simp add: spec_resolve_def spec_result_def)
  qed
  consider (skip) "nm = [] \<or> nm = ''.''" | (up) "nm = ''..''" | (name) "norm_name nm"
    using sp by (auto simp: comp_split_def norm_name_def plain_name_def)
  then show ?case
  proof cases
    case skip
    obtain p' where "resolve_step ops ms flw path st = Inr (p', st)" "at_head ops ms p' st cs (drop 1 sfx)"
      using step_skip[OF h sp skip] by blast
    from head[OF this] show ?thesis using skip by (auto simp: split_comp[OF sp] spec_resolve_def)
  next
    case up
    show ?thesis
    proof (cases cs rule: rev_cases)
      case Nil
      then show ?thesis using step_up_root[of ops ms path st rest sfx flw] h sp up
        by (subst resolve_loop.simps) (simp add: split_comp[OF sp] spec_resolve_def)
    next
      case (snoc ds c)
      obtain p' st' where s: "resolve_step ops ms flw path st = Inr (p', st')"
        and i: "if sfx = [] \<and> ds \<noteq> [] then \<exists>k. at_end ms p' st' ds k else at_head ops ms p' st' ds (drop 1 sfx)"
        using step_up[of ops ms path st ds c rest sfx flw] h sp up snoc by blast
      have "resolve_loop ops ms flw path st = spec_resolve ms ds (if sfx = [] then [] else split_slash (drop 1 sfx))"
      proof (cases "sfx = [] \<and> ds \<noteq> []")
        case True then show ?thesis using i fin[OF s] by auto
      next
        case False
        then have "at_head ops ms p' st' ds (drop 1 sfx)" using i by metis
        then show ?thesis by (rule head[OF s])
      qed
      then show ?thesis using up snoc by (simp add: split_comp[OF sp] spec_resolve_def)
    qed
  next
    case name
    obtain p' st' where s: "resolve_step ops ms flw path st = Inr (p', st')"
      using step_normal(1)[OF h sp name ns, of flw] by auto
    have i: "if sfx = [] then \<exists>k. at_end ms p' st' (cs @ [nm]) k else at_head ops ms p' st' (cs @ [nm]) (drop 1 sfx)"
      using step_normal(2)[OF h sp name s] ns by blast
    have "resolve_loop ops ms flw path st = spec_resolve ms (cs @ [nm]) (if sfx = [] then [] else split_slash (drop 1 sfx))"
    proof (cases "sfx = []")
      case True then show ?thesis using i fin[OF s] by auto
    next
      case False
      then have "at_head ops ms p' st' (cs @ [nm]) (drop 1 sfx)" using i by metis
      then show ?thesis by (rule head[OF s])
    qed
    moreover have "nm \<noteq> []" "nm \<noteq> ''.''" "nm \<noteq> ''..''" using name by (auto simp: norm_name_def plain_name_def)
    ultimately show ?thesis by (simp add: split_comp[OF sp] spec_resolve_def)
  qed
qed

lemma resolved_rel:
  assumes "resolved ms p f off cs k"
  shows "drop off p = List.tl (render (drop k cs))" "string_part p (length p) off = List.tl (render (drop k cs))"
proof -
  show d: "drop off p = List.tl (render (drop k cs))"
  proof (cases "k = length cs")
    case True then show ?thesis using assms by (simp add: resolved_def off_of_def)
  next
    case False
    have "p = render (take k cs) @ render (drop k cs)"
      using assms by (metis append_take_drop_id render_simps(3) resolved_def)
    moreover have "off = Suc (length (render (take k cs)))" using assms False by (simp add: resolved_def off_of_def)
    ultimately show ?thesis by (simp only: drop_Suc tl_append2 drop_append) (simp add: tl_drop drop_Suc)
  qed
  then show "string_part p (length p) off = List.tl (render (drop k cs))" by (simp add: string_part_def)
qed

lemma resolvePath_resolved:
  assumes "resolvePath ops ms flw path = Inr (p, f, off)"
  shows "\<exists>cs k. resolved ms p f off cs k" "length p \<le> PATH_MAX ops"
proof -
  obtain g where g: "map_of ms ''/'' = Some g" and pa: "path \<noteq> []" "hd path = CHR ''/''" "length path \<le> PATH_MAX ops"
    using assms by (auto simp: resolvePath_def PathResolution_resolvePath_def split: if_splits option.splits)
  note h = start_head[OF pa(1,2) g, of ops]
  have l: "resolve_loop ops ms flw path \<lparr>root = g, fs = g, syms = supportsSymlinks ops g, index = 1, indexIntoFs = 1,
      depthIntoFs = 1, linksFollowed = 0\<rparr> = Inr (p, f, off)"
    using assms pa g by (simp add: resolvePath_def PathResolution_resolvePath_def)
  show "\<exists>cs k. resolved ms p f off cs k" using loop_ends[OF h l] .
  show "length p \<le> PATH_MAX ops" using loop_length[OF h l pa(3)] .
qed

lemma resolvePath_spec:
  assumes "\<And>f. \<not> supportsSymlinks ops f" "nested_free ms" "map_of ms ''/'' = Some rt" "length path < PATH_MAX ops"
  shows "resolvePath ops ms flw (CHR ''/'' # path) = spec_resolve ms [] (split_slash path)"
  using loop_normalizes[OF start_head[of "CHR ''/'' # path" ms rt ops] assms(2,1), of flw] assms(3,4)
  by (simp add: resolvePath_def PathResolution_resolvePath_def)

lemma split_render: "list_all plain_name cs \<Longrightarrow> CHR ''/'' \<notin> set w \<Longrightarrow> split_slash (List.tl (render cs @ CHR ''/'' # w)) = cs @ [w]"
proof (induction cs)
  case (Cons c cs)
  have "List.tl (render (c # cs) @ CHR ''/'' # w) = c @ CHR ''/'' # List.tl (render cs @ CHR ''/'' # w)"
    by (cases cs) auto
  moreover have "CHR ''/'' \<notin> set c" using Cons.prems(1) by (simp add: plain_name_def)
  ultimately have "split_slash (List.tl (render (c # cs) @ CHR ''/'' # w)) = c # split_slash (List.tl (render cs @ CHR ''/'' # w))"
    by (metis split_slash_append(1))
  then show ?case using Cons by simp
qed (simp add: split_slash_append)

lemma normalize_norm: "list_all norm_name ws \<Longrightarrow> normalize_path cs (ws @ vs) = normalize_path (cs @ ws) vs"
  by (induction ws arbitrary: cs) (auto simp: norm_name_def plain_name_def)

section \<open>Correctness\<close>

text \<open>C17. Whatever symbolic links it follows, a resolved path is absolute and in normal form: no empty
  component, no dots, no trailing slash, and not longer than PATH_MAX. The filesystem returned with it is mounted
  at a prefix of the path and the offset selects the rest of the components, relative to that
  mountpoint. If mountpoints are not nested it is the deepest mountpoint on the way. The resolution always ends, since
  it is a total function.\<close>

theorem path_resolution_canonical:
  assumes "resolvePath ops ms flw path = Inr (p, f, off)"
  shows "\<exists>cs k. p = render cs \<and> list_all norm_name cs \<and> length p \<le> PATH_MAX ops
    \<and> k \<le> length cs \<and> mount_at ms (take k cs) = Some f \<and> drop off p = List.tl (render (drop k cs))
    \<and> (nested_free ms \<longrightarrow> (\<forall>j. k < j \<and> j \<le> length cs \<longrightarrow> mount_at ms (take j cs) = None))"
proof -
  obtain cs k where r: "resolved ms p f off cs k" using resolvePath_resolved(1)[OF assms] by blast
  have "nested_free ms \<longrightarrow> (\<forall>j. k < j \<and> j \<le> length cs \<longrightarrow> mount_at ms (take j cs) = None)"
    using r deepest_none[of ms cs] by (auto simp: resolved_def)
  then show ?thesis using r resolved_rel(1)[OF r] resolvePath_resolved(2)[OF assms] unfolding resolved_def by blast
qed

text \<open>C3. Without symbolic links and nested mountpoints the in-place resolution computes what the
  components mean one after the other: empty components and single dots are skipped, two dots
  remove the last component and fail at the root, and the filesystem is the one of the deepest mountpoint.\<close>

theorem path_resolution_normalizes:
  assumes "\<And>f. \<not> supportsSymlinks ops f" "nested_free ms" "map_of ms ''/'' = Some rt" "length path < PATH_MAX ops"
  shows "resolvePath ops ms flw (CHR ''/'' # path) =
    (case normalize_path [] (split_slash path) of
       None \<Rightarrow> Inl ENOENT
     | Some cs \<Rightarrow> Inr (render cs, the (mount_at ms (take (deepest ms cs) cs)), off_of cs (deepest ms cs)))"
  using resolvePath_spec[OF assms, of flw] by (simp add: spec_resolve_def spec_result_def split: option.split)

text \<open>A root filesystem with the directories dir and home and the links a (to b), b (to dir) and
  abs (to /dir), a filesystem without links at /mnt and another one at /mnt/usb or at /dev.\<close>

definition demo_ops :: fsops where
  "demo_ops = \<lparr>supportsSymlinks = (\<lambda>f. f = 0),
     lstat = (\<lambda>f p. if p \<in> {''a'', ''b'', ''abs''} then Inr \<lparr>st_mode = S_IFLNK, st_ino = 1\<rparr>
                    else if p \<in> {''dir'', ''home'', ''mnt'', ''dev'', ''''} then Inr \<lparr>st_mode = S_IFDIR, st_ino = 2\<rparr>
                    else Inl ENOENT),
     readlink = (\<lambda>f p. if p = ''a'' then Inr ''b'' else if p = ''b'' then Inr ''dir''
                    else if p = ''abs'' then Inr ''/dir'' else Inl EINVAL),
     PATH_MAX = 40\<rparr>"

definition demo_mounts :: mounts where
  "demo_mounts = [(''/'', 0), (''/mnt'', 1), (''/dev'', 2)]"

definition demo_nested :: mounts where
  "demo_nested = [(''/'', 0), (''/mnt'', 1), (''/mnt/usb'', 2)]"

lemma demo_abs: "resolvePath demo_ops demo_mounts True ''/abs/../mnt//f'' = Inr (''/mnt/f'', 1, 5)"
  by code_simp

theorem path_resolution_canonical_witness:
  "\<exists>cs k. ''/mnt/f'' = render cs \<and> list_all norm_name cs \<and> mount_at demo_mounts (take k cs) = Some 1
     \<and> ''f'' = List.tl (render (drop k cs))"
  using path_resolution_canonical[OF demo_abs] by auto

theorem path_resolution_normalizes_witness:
  "resolvePath (demo_ops\<lparr>supportsSymlinks := (\<lambda>_. False)\<rparr>) demo_mounts True ''/a/./..//dev/tty/'' = Inr (''/dev/tty'', 2, 5)"
proof -
  have "nested_free demo_mounts" by code_simp
  from path_resolution_normalizes[OF _ this, of "demo_ops\<lparr>supportsSymlinks := (\<lambda>_. False)\<rparr>" 0 "''a/./..//dev/tty/''" True]
  show ?thesis by (simp add: demo_ops_def demo_mounts_def mount_at_def deepest_def off_of_def eval_nat_numeral)
qed

text \<open>With nested mountpoints the parent of a mountpoint resolves to the directory of the root filesystem that the outer
  mountpoint hides, unless the path has a trailing slash.\<close>

theorem nested_mount_dotdot:
  "resolvePath demo_ops demo_nested True ''/mnt/usb/..'' = Inr (''/mnt'', 0, 1)
   \<and> resolvePath demo_ops demo_nested True ''/mnt/usb/../'' = Inr (''/mnt'', 1, 4)
   \<and> resolvePath demo_ops demo_nested True ''/mnt'' = Inr (''/mnt'', 1, 4)"
  by code_simp

text \<open>The constant maxLinkToFollow is 2, but the second link of a path is already an error.\<close>

theorem second_link_fails:
  "resolvePath demo_ops demo_mounts True ''/b'' = Inr (''/dir'', 0, 1)
   \<and> resolvePath demo_ops demo_mounts True ''/a'' = Inl ELOOP"
  by code_simp

end
