(* ===== verification/File_Table.thy ===== *)
theory File_Table
  imports Miosix_Prelude String_Part Path_Resolution
begin

text \<open>
  The file descriptors of a process and the mounted filesystems, \<^verbatim>\<open>class FileDescriptorTable\<close> and
  \<^verbatim>\<open>class FilesystemManager\<close> of \<^verbatim>\<open>filesystem/file_access.h\<close> and \<^verbatim>\<open>filesystem/file_access.cpp\<close>, in the default
  configuration (without \<^verbatim>\<open>WITH_POSIX_PERMISSIONS\<close>), with processes and hence a list of tables.

  A file object is a number, and an entry of a table is empty or holds one. A name is \<^term>\<open>None\<close> for a null
  pointer. What a filesystem does in \<^verbatim>\<open>open\<close> is an argument. The operations that end in a call of a
  filesystem or of a file return that call, whose result is theirs. The mutexes make each operation atomic.
\<close>

section \<open>State\<close>

type_synonym fileptr = nat

definition MAX_OPEN_FILES :: nat where
  "MAX_OPEN_FILES = 8"

record FileDescriptorTable =
  cwd :: string
  files :: "fileptr option list"
  filesCloexec :: "bool list"

datatype oflag = O_CLOEXEC | O_CREAT | OtherFlag nat

datatype fscall = FsUnlink fsid string | FsRename fsid string string | FsTruncate fsid string nat
  | FsMkdir fsid string nat | FsRmdir fsid string

record FilesystemManager =
  filesystems :: mounts
  parentFsMountpointInode :: "fsid \<Rightarrow> nat"
  fileTables :: "FileDescriptorTable list"

section \<open>FilesystemManager\<close>

text \<open>\<^verbatim>\<open>statHelper\<close> resolves the path in place: the resolved path is returned with the result of the filesystem.\<close>

definition statHelper :: "fsops \<Rightarrow> mounts \<Rightarrow> string \<Rightarrow> bool \<Rightarrow> (string \<times> stat) sysres" where
  "statHelper ops ms path f =
     (case resolvePath ops ms f path of
        Inl e \<Rightarrow> Inl e
      | Inr (p, fsys, off) \<Rightarrow> map_sum id (Pair p) (lstat ops fsys (string_part p (length p) off)))"

definition getParentPath :: "string \<Rightarrow> string" where
  "getParentPath path =
     (let p = (if path \<noteq> [] \<and> last path = CHR ''/'' then take (length path - 1) path else path) in
      if p = [] then ''/''
      else take (case find_last_of p CHR ''/'' (length p) of None \<Rightarrow> 0 | Some k \<Rightarrow> k + 1) p)"

definition kmount :: "fsops \<Rightarrow> string option \<Rightarrow> fsid option \<Rightarrow> FilesystemManager \<Rightarrow> FilesystemManager sysres" where
  "kmount ops path fsys fm =
     (case (path, fsys) of
        (Some path, Some f) \<Rightarrow>
          if path = [] then Inl EFAULT
          else if length path > PATH_MAX ops then Inl ENAMETOOLONG
          else
            let insert = (\<lambda>temp fm.
                  if map_of (filesystems fm) temp \<noteq> None then Inl EBUSY
                  else Inr (fm\<lparr>filesystems := filesystems fm @ [(temp, f)]\<rparr>)) in
            if path = ''/'' \<and> filesystems fm = [] then insert path fm
            else (case statHelper ops (filesystems fm) path False of
                Inl e \<Rightarrow> Inl e
              | Inr (temp, st) \<Rightarrow>
                  if st_mode st \<noteq> S_IFDIR then Inl ENOTDIR
                  else (case statHelper ops (filesystems fm) (getParentPath temp) False of
                      Inl e \<Rightarrow> Inl e
                    | Inr (_, st2) \<Rightarrow>
                        insert temp (fm\<lparr>parentFsMountpointInode := (parentFsMountpointInode fm)(f := st_ino st2)\<rparr>)))
      | _ \<Rightarrow> Inl EFAULT)"

definition unlinkHelper :: "fsops \<Rightarrow> mounts \<Rightarrow> string \<Rightarrow> fscall sysres" where
  "unlinkHelper ops ms path =
     (case resolvePath ops ms True path of
        Inl e \<Rightarrow> Inl e
      | Inr (p, fsys, off) \<Rightarrow>
          if map_of ms p \<noteq> None then Inl EBUSY
          else Inr (FsUnlink fsys (string_part p (length p) off)))"

definition renameHelper :: "fsops \<Rightarrow> mounts \<Rightarrow> string \<Rightarrow> string \<Rightarrow> fscall sysres" where
  "renameHelper ops ms oldPath newPath =
     (case resolvePath ops ms True oldPath of
        Inl e \<Rightarrow> Inl e
      | Inr (p, f, off) \<Rightarrow>
        (case resolvePath ops ms True newPath of
           Inl e \<Rightarrow> Inl e
         | Inr (q, g, off2) \<Rightarrow>
             if f \<noteq> g then Inl EXDEV
             else if map_of ms p \<noteq> None then Inl EBUSY
             else if map_of ms q \<noteq> None then Inl EBUSY
             else let oldSp = string_part p (length p) off; newSp = string_part q (length q) off2 in
               if prefix oldSp newSp then Inl EINVAL else Inr (FsRename f oldSp newSp)))"

definition truncateHelper :: "fsops \<Rightarrow> mounts \<Rightarrow> string \<Rightarrow> nat \<Rightarrow> fscall sysres" where
  "truncateHelper ops ms path sz =
     (case resolvePath ops ms True path of
        Inl e \<Rightarrow> Inl e | Inr (p, fsys, off) \<Rightarrow> Inr (FsTruncate fsys (string_part p (length p) off) sz))"

definition mkdirHelper :: "fsops \<Rightarrow> mounts \<Rightarrow> string \<Rightarrow> nat \<Rightarrow> fscall sysres" where
  "mkdirHelper ops ms path mode =
     (case resolvePath ops ms False path of
        Inl e \<Rightarrow> Inl e | Inr (p, fsys, off) \<Rightarrow> Inr (FsMkdir fsys (string_part p (length p) off) (take_bit 9 mode)))"

definition rmdirHelper :: "fsops \<Rightarrow> mounts \<Rightarrow> string \<Rightarrow> fscall sysres" where
  "rmdirHelper ops ms path =
     (case resolvePath ops ms True path of
        Inl e \<Rightarrow> Inl e | Inr (p, fsys, off) \<Rightarrow> Inr (FsRmdir fsys (string_part p (length p) off)))"

text \<open>\<open>fs_open\<close> is the virtual function \<^verbatim>\<open>FilesystemBase::open\<close>: the file it creates, or its error.\<close>

type_synonym fs_open = "fsid \<Rightarrow> string \<Rightarrow> oflag set \<Rightarrow> nat \<Rightarrow> fileptr sysres"

definition openHelper :: "fsops \<Rightarrow> fs_open \<Rightarrow> mounts \<Rightarrow> string \<Rightarrow> oflag set \<Rightarrow> nat \<Rightarrow> fileptr sysres" where
  "openHelper ops fs_open ms path flags mode =
     (case resolvePath ops ms True path of
        Inl e \<Rightarrow> Inl e | Inr (p, fsys, off) \<Rightarrow> fs_open fsys (string_part p (length p) off) flags mode)"

section \<open>FileDescriptorTable\<close>

definition fdt_new :: "fileptr \<Rightarrow> FileDescriptorTable" where
  "fdt_new terminal =
     \<lparr>cwd = ''/'', files = [Some terminal, Some terminal, Some terminal] @ replicate (MAX_OPEN_FILES - 3) None,
      filesCloexec = replicate MAX_OPEN_FILES False\<rparr>"

definition fdt_copy :: "FileDescriptorTable \<Rightarrow> FileDescriptorTable" where
  "fdt_copy rhs =
     \<lparr>cwd = cwd rhs,
      files = map (\<lambda>i. if filesCloexec rhs ! i then None else files rhs ! i) [0..<MAX_OPEN_FILES],
      filesCloexec = replicate MAX_OPEN_FILES False\<rparr>"

fun free_from :: "fileptr option list \<Rightarrow> nat \<Rightarrow> nat option" where
  "free_from [] i = None"
| "free_from (x # xs) i = (if x = None then Some i else free_from xs (i + 1))"

definition getAvailableFd :: "FileDescriptorTable \<Rightarrow> nat sysres" where
  "getAvailableFd ft = (case free_from (files ft) 0 of None \<Rightarrow> Inl EMFILE | Some i \<Rightarrow> Inr i)"

definition getFile :: "int \<Rightarrow> FileDescriptorTable \<Rightarrow> fileptr option" where
  "getFile fd ft = (if fd < 0 \<or> fd \<ge> int MAX_OPEN_FILES then None else files ft ! nat fd)"

definition absolutePath :: "fsops \<Rightarrow> string \<Rightarrow> FileDescriptorTable \<Rightarrow> string" where
  "absolutePath ops path ft =
     (if length path > PATH_MAX ops then []
      else if path \<noteq> [] \<and> hd path = CHR ''/'' then path
      else if length path + length (cwd ft) > PATH_MAX ops then []
      else cwd ft @ path)"

text \<open>The common start of the operations on a name: null and empty names, and names that are too long.\<close>

definition with_path :: "fsops \<Rightarrow> string option \<Rightarrow> FileDescriptorTable \<Rightarrow> (string \<Rightarrow> 'a sysres) \<Rightarrow> 'a sysres" where
  "with_path ops name ft k =
     (case name of
        None \<Rightarrow> Inl EFAULT
      | Some n \<Rightarrow> if n = [] then Inl EFAULT
          else let path = absolutePath ops n ft in if path = [] then Inl ENAMETOOLONG else k path)"

definition fdt_open :: "fsops \<Rightarrow> fs_open \<Rightarrow> mounts \<Rightarrow> string option \<Rightarrow> oflag set \<Rightarrow> nat \<Rightarrow> FileDescriptorTable
    \<Rightarrow> nat sysres \<times> FileDescriptorTable" where
  "fdt_open ops fs_open ms name flags mode ft =
     (case name of
        None \<Rightarrow> (Inl EFAULT, ft)
      | Some n \<Rightarrow> if n = [] then (Inl EFAULT, ft)
          else (case getAvailableFd ft of
              Inl e \<Rightarrow> (Inl e, ft)
            | Inr fd \<Rightarrow>
                let ft1 = ft\<lparr>filesCloexec := (filesCloexec ft)[fd := O_CLOEXEC \<in> flags]\<rparr>;
                    path = absolutePath ops n ft1 in
                if path = [] then (Inl ENAMETOOLONG, ft1)
                else (case openHelper ops fs_open ms path flags mode of
                    Inl e \<Rightarrow> (Inl e, ft1)
                  | Inr file \<Rightarrow> (Inr fd, ft1\<lparr>files := (files ft1)[fd := Some file]\<rparr>))))"

definition fdt_close :: "int \<Rightarrow> FileDescriptorTable \<Rightarrow> unit sysres \<times> FileDescriptorTable" where
  "fdt_close fd ft =
     (if fd < 0 \<or> fd \<ge> int MAX_OPEN_FILES then (Inl EBADF, ft)
      else (if files ft ! nat fd = None then Inl EBADF else Inr (), ft\<lparr>files := (files ft)[nat fd := None]\<rparr>))"

definition fdt_cloexec :: "FileDescriptorTable \<Rightarrow> FileDescriptorTable" where
  "fdt_cloexec ft =
     ft\<lparr>files := map (\<lambda>i. if filesCloexec ft ! i then None else files ft ! i) [0..<MAX_OPEN_FILES]\<rparr>"

definition fdt_closeAll :: "FileDescriptorTable \<Rightarrow> FileDescriptorTable" where
  "fdt_closeAll ft = ft\<lparr>files := replicate MAX_OPEN_FILES None\<rparr>"

datatype fcntl_cmd = F_SETFD | OtherCmd nat

text \<open>\<open>file_fcntl\<close> is the result of the virtual function of the file; \<open>FD_CLOEXEC\<close> is 1.\<close>

definition fdt_fcntl :: "(fileptr \<Rightarrow> fcntl_cmd \<Rightarrow> int \<Rightarrow> int sysres) \<Rightarrow> int \<Rightarrow> fcntl_cmd \<Rightarrow> int \<Rightarrow> FileDescriptorTable
    \<Rightarrow> int sysres \<times> FileDescriptorTable" where
  "fdt_fcntl file_fcntl fd cmd opt ft =
     (case getFile fd ft of
        None \<Rightarrow> (Inl EBADF, ft)
      | Some file \<Rightarrow>
          if cmd = F_SETFD \<and> (opt = 1 \<or> opt = 0)
          then (Inr 0, ft\<lparr>filesCloexec := (filesCloexec ft)[nat fd := (opt = 1)]\<rparr>)
          else (file_fcntl file cmd opt, ft))"

text \<open>\<^verbatim>\<open>read\<close> and \<^verbatim>\<open>write\<close>: the checks before the call of the file, with the length as a 32 bit \<^verbatim>\<open>size_t\<close>.\<close>

definition fdt_transfer :: "int \<Rightarrow> bool \<Rightarrow> 32 word \<Rightarrow> FileDescriptorTable \<Rightarrow> fileptr sysres" where
  "fdt_transfer fd data_null len ft =
     (if data_null then Inl EFAULT
      else if sint len < 0 then Inl EINVAL
      else case getFile fd ft of None \<Rightarrow> Inl EBADF | Some file \<Rightarrow> Inr file)"

definition fdt_dup :: "int \<Rightarrow> FileDescriptorTable \<Rightarrow> nat sysres \<times> FileDescriptorTable" where
  "fdt_dup fd ft =
     (if fd < 0 \<or> fd \<ge> int MAX_OPEN_FILES then (Inl EBADF, ft)
      else case files ft ! nat fd of
        None \<Rightarrow> (Inl EBADF, ft)
      | Some file \<Rightarrow>
          (case getAvailableFd ft of
             Inl e \<Rightarrow> (Inl e, ft)
           | Inr newFd \<Rightarrow> (Inr newFd, ft\<lparr>files := (files ft)[newFd := Some file],
                                        filesCloexec := (filesCloexec ft)[newFd := False]\<rparr>)))"

definition fdt_dup2 :: "int \<Rightarrow> int \<Rightarrow> FileDescriptorTable \<Rightarrow> nat sysres \<times> FileDescriptorTable" where
  "fdt_dup2 oldFd newFd ft =
     (if oldFd < 0 \<or> oldFd \<ge> int MAX_OPEN_FILES then (Inl EBADF, ft)
      else if newFd < 0 \<or> newFd \<ge> int MAX_OPEN_FILES then (Inl EBADF, ft)
      else if oldFd = newFd then (Inr (nat newFd), ft)
      else case files ft ! nat oldFd of
        None \<Rightarrow> (Inl EBADF, ft)
      | Some file \<Rightarrow> (Inr (nat newFd), ft\<lparr>files := (files ft)[nat newFd := Some file],
                                           filesCloexec := (filesCloexec ft)[nat newFd := False]\<rparr>))"

text \<open>The loop of \<^verbatim>\<open>pipe\<close> collects the free descriptors and stops at the second one; the new pipe
  is the argument \<open>p\<close>. The array with the descriptors may be partly written when the call fails.\<close>

fun first_two :: "fileptr option list \<Rightarrow> nat \<Rightarrow> nat list \<Rightarrow> nat list" where
  "first_two [] i acc = acc"
| "first_two (x # xs) i acc =
     (if x = None then (let acc' = acc @ [i] in if length acc' \<ge> 2 then acc' else first_two xs (i + 1) acc')
      else first_two xs (i + 1) acc)"

definition fdt_pipe :: "bool \<Rightarrow> fileptr \<Rightarrow> FileDescriptorTable \<Rightarrow> (nat \<times> nat) sysres \<times> FileDescriptorTable" where
  "fdt_pipe fds_null p ft =
     (if fds_null then (Inl EFAULT, ft)
      else case first_two (files ft) 0 [] of
        [a, b] \<Rightarrow> (Inr (a, b), ft\<lparr>files := (files ft)[a := Some p, b := Some p],
                                 filesCloexec := (filesCloexec ft)[a := False, b := False]\<rparr>)
      | _ \<Rightarrow> (Inl EMFILE, ft))"

definition statImpl :: "fsops \<Rightarrow> mounts \<Rightarrow> string option \<Rightarrow> bool \<Rightarrow> bool \<Rightarrow> FileDescriptorTable \<Rightarrow> stat sysres" where
  "statImpl ops ms name pstat_null f ft =
     (if pstat_null then Inl EFAULT
      else with_path ops name ft (\<lambda>path. map_sum id snd (statHelper ops ms path f)))"

text \<open>The buffer that \<^verbatim>\<open>getcwd\<close> fills: \<^verbatim>\<open>strncpy\<close> copies the characters and pads with nul characters up
  to the length; the last slash is then overwritten.\<close>

definition getcwd :: "fsops \<Rightarrow> mounts \<Rightarrow> bool \<Rightarrow> nat \<Rightarrow> FileDescriptorTable \<Rightarrow> string sysres" where
  "getcwd ops ms buf_null len ft =
     (if buf_null \<or> len < 2 then Inl EINVAL
      else case statImpl ops ms (Some ''.'') False True ft of
        Inl e \<Rightarrow> Inl ENOENT
      | Inr st \<Rightarrow>
          if st_mode st \<noteq> S_IFDIR then Inl ENOENT
          else if length (cwd ft) > len then Inl ERANGE
          else let buf = take len (cwd ft @ replicate len NUL) in
            Inr (if length (cwd ft) > 1 then buf[length (cwd ft) - 1 := NUL] else buf))"

definition chdir :: "fsops \<Rightarrow> mounts \<Rightarrow> string option \<Rightarrow> FileDescriptorTable \<Rightarrow> FileDescriptorTable sysres" where
  "chdir ops ms name ft =
     (case name of
        None \<Rightarrow> Inl EFAULT
      | Some n \<Rightarrow>
          if n = [] then Inl EFAULT
          else
            let len = length n + (if last n \<noteq> CHR ''/'' then 1 else 0)
                      + (if hd n \<noteq> CHR ''/'' then length (cwd ft) else 0) in
            if len > PATH_MAX ops then Inl ENAMETOOLONG
            else (case resolvePath ops ms True (if hd n = CHR ''/'' then n else cwd ft @ n) of
                Inl e \<Rightarrow> Inl e
              | Inr (newCwd, fsys, off) \<Rightarrow>
                  (case lstat ops fsys (string_part newCwd (length newCwd) off) of
                     Inl e \<Rightarrow> Inl e
                   | Inr st \<Rightarrow> if st_mode st \<noteq> S_IFDIR then Inl ENOTDIR
                       else Inr (ft\<lparr>cwd := newCwd @ ''/''\<rparr>))))"

definition fdt_mkdir :: "fsops \<Rightarrow> mounts \<Rightarrow> string option \<Rightarrow> nat \<Rightarrow> FileDescriptorTable \<Rightarrow> fscall sysres" where
  "fdt_mkdir ops ms name mode ft = with_path ops name ft (\<lambda>path. mkdirHelper ops ms path mode)"

definition fdt_rmdir :: "fsops \<Rightarrow> mounts \<Rightarrow> string option \<Rightarrow> FileDescriptorTable \<Rightarrow> fscall sysres" where
  "fdt_rmdir ops ms name ft = with_path ops name ft (\<lambda>path. rmdirHelper ops ms path)"

definition fdt_unlink :: "fsops \<Rightarrow> mounts \<Rightarrow> string option \<Rightarrow> FileDescriptorTable \<Rightarrow> fscall sysres" where
  "fdt_unlink ops ms name ft = with_path ops name ft (\<lambda>path. unlinkHelper ops ms path)"

definition fdt_truncate :: "fsops \<Rightarrow> mounts \<Rightarrow> string option \<Rightarrow> int \<Rightarrow> FileDescriptorTable \<Rightarrow> fscall sysres" where
  "fdt_truncate ops ms name sz ft =
     (if sz < 0 then Inl EINVAL else with_path ops name ft (\<lambda>path. truncateHelper ops ms path (nat sz)))"

definition fdt_rename :: "fsops \<Rightarrow> mounts \<Rightarrow> string option \<Rightarrow> string option \<Rightarrow> FileDescriptorTable \<Rightarrow> fscall sysres" where
  "fdt_rename ops ms oldName newName ft =
     (case (oldName, newName) of
        (Some p, Some q) \<Rightarrow>
          if p = [] \<or> q = [] then Inl EFAULT
          else let oldPath = absolutePath ops p ft; newPath = absolutePath ops q ft in
            if oldPath = [] \<or> newPath = [] then Inl ENAMETOOLONG else renameHelper ops ms oldPath newPath
      | _ \<Rightarrow> Inl EFAULT)"

definition fdt_readlink :: "fsops \<Rightarrow> mounts \<Rightarrow> string option \<Rightarrow> bool \<Rightarrow> nat \<Rightarrow> FileDescriptorTable \<Rightarrow> string sysres" where
  "fdt_readlink ops ms name buf_null sz ft =
     (if buf_null then Inl EFAULT
      else with_path ops name ft (\<lambda>path.
        case resolvePath ops ms False path of
          Inl e \<Rightarrow> Inl e
        | Inr (p, fsys, off) \<Rightarrow> map_sum id (take sz) (readlink ops fsys (string_part p (length p) off))))"

section \<open>Unmounting\<close>

text \<open>The open files of a table that belong to a filesystem to unmount: without \<open>force\<close> the first one makes the
  call fail, otherwise they are closed. \<open>parent\<close> is the filesystem of a file, \<^verbatim>\<open>FileBase::getParent\<close>.\<close>

definition umount_fd :: "(fileptr \<Rightarrow> fsid option) \<Rightarrow> fsid list \<Rightarrow> bool \<Rightarrow> nat \<Rightarrow> FileDescriptorTable \<Rightarrow> FileDescriptorTable sysres" where
  "umount_fd parent fsToUmount force i ft =
     (case getFile (int i) ft of
        None \<Rightarrow> Inr ft
      | Some file \<Rightarrow>
          if \<exists>f \<in> set fsToUmount. parent file = Some f
          then (if force then Inr (snd (fdt_close (int i) ft)) else Inl EBUSY)
          else Inr ft)"

fun umount_fds :: "(fileptr \<Rightarrow> fsid option) \<Rightarrow> fsid list \<Rightarrow> bool \<Rightarrow> nat list \<Rightarrow> FileDescriptorTable \<Rightarrow> FileDescriptorTable sysres" where
  "umount_fds parent fl force [] ft = Inr ft"
| "umount_fds parent fl force (i # is) ft =
     (case umount_fd parent fl force i ft of Inl e \<Rightarrow> Inl e | Inr ft' \<Rightarrow> umount_fds parent fl force is ft')"

fun umount_tables :: "(fileptr \<Rightarrow> fsid option) \<Rightarrow> fsid list \<Rightarrow> bool \<Rightarrow> FileDescriptorTable list \<Rightarrow> FileDescriptorTable list sysres" where
  "umount_tables parent fl force [] = Inr []"
| "umount_tables parent fl force (t # ts) =
     (case umount_fds parent fl force [0..<MAX_OPEN_FILES] t of
        Inl e \<Rightarrow> Inl e
      | Inr t' \<Rightarrow> map_sum id ((#) t') (umount_tables parent fl force ts))"

text \<open>The wait for operations that are still going on: \<open>closed i f\<close> tells whether all files of filesystem \<open>f\<close>
  are closed at the \<open>i\<close>-th of the three tries.\<close>

fun umount_retry :: "(nat \<Rightarrow> fsid \<Rightarrow> bool) \<Rightarrow> fsid list \<Rightarrow> bool \<Rightarrow> nat \<Rightarrow> nat \<Rightarrow> bool" where
  "umount_retry closed fl force i 0 = True"
| "umount_retry closed fl force i (Suc n) =
     (if \<forall>f \<in> set fl. closed i f then True
      else if \<not> force then False
      else if n = 0 then False
      else umount_retry closed fl force (i + 1) n)"

definition umount :: "fsops \<Rightarrow> (fileptr \<Rightarrow> fsid option) \<Rightarrow> (nat \<Rightarrow> fsid \<Rightarrow> bool) \<Rightarrow> string option \<Rightarrow> bool \<Rightarrow> FilesystemManager
    \<Rightarrow> unit sysres \<times> FilesystemManager" where
  "umount ops parent closed path force fm =
     (case path of
        None \<Rightarrow> (Inl ENOENT, fm)
      | Some p \<Rightarrow>
          if p = [] then (Inl ENOENT, fm)
          else if length p > PATH_MAX ops then (Inl ENAMETOOLONG, fm)
          else if map_of (filesystems fm) p = None then (Inl EINVAL, fm)
          else let fsToUmount = map snd (filter (\<lambda>(q, _). prefix p q) (filesystems fm)) in
            (case umount_tables parent fsToUmount force (fileTables fm) of
               Inl e \<Rightarrow> (Inl e, fm)
             | Inr ts \<Rightarrow>
                 let fm1 = fm\<lparr>fileTables := ts\<rparr> in
                 if umount_retry closed fsToUmount force 0 3
                 then (Inr (), fm1\<lparr>filesystems := filter (\<lambda>(q, _). \<not> prefix p q) (filesystems fm)\<rparr>)
                 else (Inl EBUSY, fm1)))"

definition umountAll :: "FilesystemManager \<Rightarrow> FilesystemManager" where
  "umountAll fm = fm\<lparr>filesystems := [], fileTables := map fdt_closeAll (fileTables fm)\<rparr>"

section \<open>Invariant and descriptors\<close>

text \<open>The current directory is a normalised path with a slash behind it.\<close>

definition fdt_wf :: "FileDescriptorTable \<Rightarrow> bool" where
  "fdt_wf ft \<longleftrightarrow> length (files ft) = MAX_OPEN_FILES \<and> length (filesCloexec ft) = MAX_OPEN_FILES
     \<and> (\<exists>cs. list_all norm_name cs \<and> cwd ft = render cs @ ''/'')"

lemma free_from_spec:
  "free_from xs i = (if None \<in> set xs then Some (i + length (takeWhile (\<lambda>x. x \<noteq> None) xs)) else None)"
  by (induction xs arbitrary: i) auto

lemma free_from_Some:
  assumes "free_from xs 0 = Some n"
  shows "n < length xs" "xs ! n = None" "\<forall>i<n. xs ! i \<noteq> None"
proof -
  have n: "n = length (takeWhile (\<lambda>x. x \<noteq> None) xs)" and m: "None \<in> set xs"
    using assms by (auto simp: free_from_spec split: if_splits)
  show l: "n < length xs"
    using m n by (metis (mono_tags, lifting) length_takeWhile_le nat_less_le takeWhile_eq_all_conv takeWhile_eq_take take_all order_refl)
  show "xs ! n = None" using nth_length_takeWhile[of "\<lambda>x. x \<noteq> None" xs] l n by simp
  show "\<forall>i<n. xs ! i \<noteq> None" using n by (metis (mono_tags, lifting) nth_mem set_takeWhileD takeWhile_nth)
qed

lemma free_from_None: "free_from xs 0 = None \<Longrightarrow> i < length xs \<Longrightarrow> xs ! i \<noteq> None"
  by (metis free_from_spec nth_mem option.distinct(1))

lemma free_from_shift: "free_from xs i = map_option ((+) i) (free_from xs 0)"
  by (simp add: free_from_spec)

lemma first_two_one: "first_two xs i [x] = (case free_from xs i of None \<Rightarrow> [x] | Some b \<Rightarrow> [x, b])"
  by (induction xs arbitrary: i) auto

lemma first_two_none: "first_two xs i [] =
    (case free_from xs 0 of
       None \<Rightarrow> []
     | Some a \<Rightarrow> (case free_from (drop (Suc a) xs) 0 of None \<Rightarrow> [i + a] | Some b \<Rightarrow> [i + a, i + a + 1 + b]))"
proof (induction xs arbitrary: i)
  case (Cons x xs)
  then show ?case
    by (auto simp: first_two_one free_from_shift[of xs "Suc i"] free_from_shift[of xs "Suc 0"] split: option.split)
qed simp

lemma first_two_pair:
  assumes "first_two xs 0 [] = [a, b]"
  shows "a < b" "b < length xs" "xs ! a = None" "xs ! b = None" "\<forall>j<b. j \<noteq> a \<longrightarrow> xs ! j \<noteq> None"
proof -
  obtain c where f: "free_from xs 0 = Some a" "free_from (drop (Suc a) xs) 0 = Some c" and b: "b = a + 1 + c"
    using assms by (auto simp: first_two_none split: option.splits)
  note fa = free_from_Some[OF f(1)] and fc = free_from_Some[OF f(2)]
  show "a < b" "b < length xs" "xs ! a = None" "xs ! b = None" using fa fc b by auto
  show "\<forall>j<b. j \<noteq> a \<longrightarrow> xs ! j \<noteq> None"
  proof (intro allI impI)
    fix j assume j: "j < b" "j \<noteq> a"
    show "xs ! j \<noteq> None"
    proof (cases "j < a")
      case True then show ?thesis using fa(3) by blast
    next
      case False
      then have "j - Suc a < c" "Suc a + (j - Suc a) = j" using j b by auto
      then show ?thesis using fc(3)[rule_format, of "j - Suc a"] fc(1) fa(1) by simp
    qed
  qed
qed

lemma fdt_new_wf: "fdt_wf (fdt_new t)"
  by (auto simp: fdt_new_def fdt_wf_def MAX_OPEN_FILES_def intro: exI[of _ "[]"])

lemma chdir_wf:
  assumes "fdt_wf ft" "chdir ops ms name ft = Inr ft'"
  shows "fdt_wf ft'"
proof -
  obtain p f off path where r: "resolvePath ops ms True path = Inr (p, f, off)" and ft': "ft' = ft\<lparr>cwd := p @ ''/''\<rparr>"
    using assms(2) by (auto simp: chdir_def Let_def split: option.splits if_splits sum.splits)
  from resolvePath_resolved(1)[OF r] assms(1) ft' show ?thesis by (auto simp: fdt_wf_def resolved_def)
qed

lemma fdt_open_wf: "fdt_wf ft \<Longrightarrow> fdt_wf (snd (fdt_open ops fs_open ms name flags mode ft))"
  by (auto simp: fdt_open_def fdt_wf_def Let_def split: option.split sum.split)

lemma fdt_simple_wf:
  assumes "fdt_wf ft"
  shows "fdt_wf (fdt_copy ft)" "fdt_wf (snd (fdt_close fd ft))" "fdt_wf (fdt_cloexec ft)" "fdt_wf (fdt_closeAll ft)"
    "fdt_wf (snd (fdt_fcntl ff fd cmd opt ft))" "fdt_wf (snd (fdt_dup fd ft))" "fdt_wf (snd (fdt_dup2 fd fd2 ft))"
    "fdt_wf (snd (fdt_pipe fds_null p ft))"
  using assms
  by (auto simp: fdt_copy_def fdt_close_def fdt_cloexec_def fdt_closeAll_def fdt_fcntl_def fdt_dup_def fdt_dup2_def fdt_pipe_def
      fdt_wf_def split: option.split sum.split list.split)

section \<open>Unmounting\<close>

text \<open>An entry that holds a file of one of the filesystems.\<close>

definition belongs :: "(fileptr \<Rightarrow> fsid option) \<Rightarrow> fsid list \<Rightarrow> fileptr option \<Rightarrow> bool" where
  "belongs parent fl x = (case x of None \<Rightarrow> False | Some v \<Rightarrow> (\<exists>f \<in> set fl. parent v = Some f))"

lemma umount_fd_inv:
  assumes "umount_fd parent fl force i ft = Inr ft'" "i < MAX_OPEN_FILES" "length (files ft) = MAX_OPEN_FILES"
  shows "length (files ft') = MAX_OPEN_FILES" "\<not> belongs parent fl (files ft' ! i)"
    "\<not> force \<Longrightarrow> ft' = ft" "j \<noteq> i \<Longrightarrow> files ft' ! j = files ft ! j" "cwd ft' = cwd ft" "filesCloexec ft' = filesCloexec ft"
  using assms
  by (auto simp: umount_fd_def getFile_def fdt_close_def belongs_def split: option.splits if_splits)

lemma umount_fds_inv:
  assumes "umount_fds parent fl force is ft = Inr ft'" "\<forall>i \<in> set is. i < MAX_OPEN_FILES" "length (files ft) = MAX_OPEN_FILES"
  shows "length (files ft') = MAX_OPEN_FILES \<and> (\<forall>i \<in> set is. \<not> belongs parent fl (files ft' ! i))
     \<and> (\<not> force \<longrightarrow> ft' = ft) \<and> (\<forall>i. \<not> belongs parent fl (files ft ! i) \<longrightarrow> files ft' ! i = files ft ! i)
     \<and> cwd ft' = cwd ft \<and> filesCloexec ft' = filesCloexec ft"
  using assms
proof (induction "is" arbitrary: ft)
  case (Cons i "is")
  obtain ft1 where s: "umount_fd parent fl force i ft = Inr ft1" and r: "umount_fds parent fl force is ft1 = Inr ft'"
    using Cons.prems(1) by (auto split: sum.splits)
  have i: "i < MAX_OPEN_FILES" using Cons.prems(2) by simp
  note s1 = umount_fd_inv[OF s i Cons.prems(3)]
  have ih: "length (files ft') = MAX_OPEN_FILES" "\<forall>i \<in> set is. \<not> belongs parent fl (files ft' ! i)" "\<not> force \<longrightarrow> ft' = ft1"
      "\<And>j. \<not> belongs parent fl (files ft1 ! j) \<Longrightarrow> files ft' ! j = files ft1 ! j" "cwd ft' = cwd ft1" "filesCloexec ft' = filesCloexec ft1"
    using Cons.IH[OF r _ s1(1)] Cons.prems(2) by auto
  have keep: "files ft1 ! j = files ft ! j" if "\<not> belongs parent fl (files ft ! j)" for j
  proof (cases "j = i")
    case True
    then show ?thesis using that s i by (auto simp: umount_fd_def getFile_def belongs_def split: option.splits if_splits)
  next
    case False then show ?thesis by (rule s1(4))
  qed
  show ?case using ih s1 keep by (auto simp: ih(4)[OF s1(2)])
qed simp

lemma umount_tables_inv:
  assumes "umount_tables parent fl force ts = Inr ts'" "list_all fdt_wf ts"
  shows "list_all fdt_wf ts' \<and> list_all (\<lambda>t. \<forall>i < MAX_OPEN_FILES. \<not> belongs parent fl (files t ! i)) ts'
     \<and> (\<not> force \<longrightarrow> ts' = ts)
     \<and> list_all2 (\<lambda>t t'. \<forall>i. \<not> belongs parent fl (files t ! i) \<longrightarrow> files t' ! i = files t ! i) ts ts'"
  using assms
proof (induction ts arbitrary: ts')
  case (Cons t ts)
  obtain t' us where t: "umount_fds parent fl force [0..<MAX_OPEN_FILES] t = Inr t'"
    and u: "umount_tables parent fl force ts = Inr us" and ts': "ts' = t' # us"
    using Cons.prems(1) by (auto simp: map_sum_def split: sum.splits)
  have w: "fdt_wf t" using Cons.prems(2) by simp
  from umount_fds_inv[OF t] w have i: "length (files t') = MAX_OPEN_FILES"
      "\<forall>i < MAX_OPEN_FILES. \<not> belongs parent fl (files t' ! i)" "\<not> force \<longrightarrow> t' = t"
      "\<forall>i. \<not> belongs parent fl (files t ! i) \<longrightarrow> files t' ! i = files t ! i" "cwd t' = cwd t" "filesCloexec t' = filesCloexec t"
    by (auto simp: fdt_wf_def)
  then have "fdt_wf t'" using w by (auto simp: fdt_wf_def)
  then show ?case using Cons.IH[OF u] Cons.prems(2) i ts' by simp
qed simp

section \<open>Correctness\<close>





lemma stat_cwd:
  assumes nosym: "\<And>f. \<not> supportsSymlinks ops f" and nf: "nested_free ms" and cs: "list_all norm_name cs"
    and r: "resolved ms (render cs) f off cs k" and rt: "map_of ms ''/'' = Some rt"
    and len: "length (render cs) + 1 < PATH_MAX ops" and cw: "cwd ft = render cs @ ''/''"
  shows "statImpl ops ms (Some ''.'') False True ft = lstat ops f (string_part (render cs) (length (render cs)) off)"
proof -
  let ?p = "List.tl (render cs @ ''/.'')"
  have p: "cwd ft @ ''.'' = CHR ''/'' # ?p" using cw by (cases cs) auto
  have l: "length ?p < PATH_MAX ops" using len by (cases cs) auto
  have "split_slash ?p = cs @ [''.'']" using split_render[OF norm_plain[OF cs], of "''.''"] by simp
  moreover have "normalize_path [] (cs @ [''.'']) = Some cs" using normalize_norm[OF cs, of "[]" "[''.'']"] by simp
  moreover have "k = deepest ms cs" "mount_at ms (take (deepest ms cs) cs) = Some f" "off = off_of cs (deepest ms cs)"
    using r nf by (auto simp: resolved_def)
  ultimately have "resolvePath ops ms True (CHR ''/'' # ?p) = Inr (render cs, f, off)"
    using resolvePath_spec[OF nosym nf rt l] by (simp add: spec_resolve_def spec_result_def)
  moreover have "absolutePath ops ''.'' ft = CHR ''/'' # ?p"
    using len cw p by (simp add: absolutePath_def)
  ultimately show ?thesis
    by (simp add: statImpl_def with_path_def statHelper_def Let_def map_sum_def split: sum.split)
qed






definition demo_fm :: FilesystemManager where
  "demo_fm = \<lparr>filesystems = [(''/'', 0), (''/sd'', 1), (''/sdcard'', 2)], parentFsMountpointInode = (\<lambda>_. 0),
     fileTables = [(fdt_new 10)\<lparr>files := [Some 10, Some 10, Some 10, Some 11, None, None, None, None]\<rparr>]\<rparr>"

lemma demo_umount:
  "umount demo_ops (\<lambda>v. if v = 11 then Some 2 else None) (\<lambda>i f. True) (Some ''/sd'') False demo_fm = (Inl EBUSY, demo_fm)
   \<and> filesystems (snd (umount demo_ops (\<lambda>v. None) (\<lambda>i f. True) (Some ''/sd'') False demo_fm)) = [(''/'', 0)]
   \<and> fst (umount demo_ops (\<lambda>v. None) (\<lambda>i f. True) (Some ''/sd'') False demo_fm) = Inr ()"
  by (simp add: umount_def demo_fm_def demo_ops_def umount_fd_def getFile_def MAX_OPEN_FILES_def eval_nat_numeral upt_rec)


text \<open>The tests on path prefixes compare characters, not components: unmounting /sd also unmounts /sdcard, or fails because a
  file is open there; and a file cannot get a new name that starts with its old name. The root directory resolves to
  the empty path, so that mounting a second filesystem on it is not refused.\<close>

theorem prefix_tests_compare_characters:
  "filesystems (snd (umount demo_ops (\<lambda>v. None) (\<lambda>i f. True) (Some ''/sd'') False demo_fm)) = [(''/'', 0)]
   \<and> fst (umount demo_ops (\<lambda>v. if v = 11 then Some 2 else None) (\<lambda>i f. True) (Some ''/sd'') False demo_fm) = Inl EBUSY
   \<and> renameHelper (demo_ops\<lparr>supportsSymlinks := (\<lambda>_. False)\<rparr>) demo_mounts ''/home'' ''/home2'' = Inl EINVAL
   \<and> map_sum id filesystems (kmount demo_ops (Some ''/'') (Some 9) demo_fm)
       = Inr [(''/'', 0), (''/sd'', 1), (''/sdcard'', 2), ('''', 9)]"
proof -
  have "renameHelper (demo_ops\<lparr>supportsSymlinks := (\<lambda>_. False)\<rparr>) demo_mounts ''/home'' ''/home2'' = Inl EINVAL" by code_simp
  moreover have "map_sum id filesystems (kmount demo_ops (Some ''/'') (Some 9) demo_fm)
       = Inr [(''/'', 0), (''/sd'', 1), (''/sdcard'', 2), ('''', 9)]" by code_simp
  ultimately show ?thesis using demo_umount by simp
qed

end
