(* ===== verification/Pipe_File.thy ===== *)
theory Pipe_File
  imports Miosix_Prelude Ring_Queues Path_Resolution
begin

text \<open>
  Pipes, \<^verbatim>\<open>filesystem/pipe/pipe.h\<close> and \<^verbatim>\<open>filesystem/pipe/pipe.cpp\<close>: a ring of bytes under a mutex.

  A call of \<^verbatim>\<open>write\<close> or \<^verbatim>\<open>read\<close> is the part between taking the mutex and returning or waiting on the
  condition variable; a blocked call goes on with the data it has left, at the next broadcast or after the
  polling time. Whether the other end is closed is an argument of each part. The lengths fit in an
  \<^verbatim>\<open>int\<close>, since the file descriptor table refuses longer ones (\<open>fdt_transfer\<close> in theory File_Table).
\<close>

section \<open>State and operations\<close>

record Pipe =
  pput :: nat
  pget :: nat
  psize :: nat
  capacity :: nat
  pbuffer :: string

definition defaultSize :: nat where
  "defaultSize = 256"

text \<open>The buffer comes from \<^verbatim>\<open>new char[defaultSize]\<close>, with arbitrary characters.\<close>

definition Pipe_new :: "string \<Rightarrow> Pipe" where
  "Pipe_new mem = \<lparr>pput = 0, pget = 0, psize = 0, capacity = length mem, pbuffer = mem\<rparr>"

definition unconnected :: "nat \<Rightarrow> bool" where
  "unconnected use_count = (use_count \<le> 3)"

fun copy_in :: "string \<Rightarrow> Pipe \<Rightarrow> Pipe" where
  "copy_in [] p = p"
| "copy_in (c # d) p =
     copy_in d (p\<lparr>pbuffer := (pbuffer p)[pput p := c],
                  pput := (if pput p + 1 \<ge> capacity p then 0 else pput p + 1)\<rparr>)"

fun copy_out :: "nat \<Rightarrow> Pipe \<Rightarrow> string \<times> Pipe" where
  "copy_out 0 p = ([], p)"
| "copy_out (Suc n) p =
     (let c = pbuffer p ! pget p;
          (d, p') = copy_out n (p\<lparr>pget := (if pget p + 1 \<ge> capacity p then 0 else pget p + 1)\<rparr>)
      in (c # d, p'))"

datatype write_outcome = Written nat | WriteFailed errno | WriteBlocked string nat

function pipe_write :: "bool \<Rightarrow> string \<Rightarrow> nat \<Rightarrow> Pipe \<Rightarrow> write_outcome \<times> Pipe" where
  "pipe_write closed d written p =
     (if d = [] then (Written written, p)
      else if closed then (WriteFailed EPIPE, p)
      else let writable = min (length d) (capacity p - psize p) in
        if writable = 0 then (WriteBlocked d written, p)
        else let p1 = copy_in (take writable d) p in
          pipe_write closed (drop writable d) (written + writable) (p1\<lparr>psize := psize p1 + writable\<rparr>))"
  by pat_completeness auto
termination
  by (relation "measure (\<lambda>(closed, d, written, p). length d)") auto

declare pipe_write.simps [simp del]

datatype read_outcome = ReadBytes string | ReadBlocked

definition pipe_read :: "bool \<Rightarrow> nat \<Rightarrow> Pipe \<Rightarrow> read_outcome \<times> Pipe" where
  "pipe_read closed len p =
     (if len = 0 then (ReadBytes [], p)
      else let readable = min len (psize p) in
        if closed \<and> readable = 0 then (ReadBytes [], p)
        else if readable = 0 then (ReadBlocked, p)
        else let (d, p1) = copy_out readable p in (ReadBytes d, p1\<lparr>psize := psize p1 - readable\<rparr>))"

definition pipe_lseek :: "int \<Rightarrow> int \<Rightarrow> int sysres" where
  "pipe_lseek pos whence = Inl ESPIPE"

definition pipe_ftruncate :: "int \<Rightarrow> unit sysres" where
  "pipe_ftruncate sz = Inl EINVAL"

definition pipe_fstat :: "stat sysres" where
  "pipe_fstat = Inl EFAULT"

datatype pipe_cmd = F_GETFD | F_GETFL | OtherPipeCmd nat

text \<open>\<^verbatim>\<open>O_RDWR\<close> is 2.\<close>

definition pipe_fcntl :: "pipe_cmd \<Rightarrow> int \<Rightarrow> int sysres" where
  "pipe_fcntl cmd opt = (case cmd of F_GETFD \<Rightarrow> Inr 2 | F_GETFL \<Rightarrow> Inr 2 | OtherPipeCmd n \<Rightarrow> Inl EBADF)"

section \<open>Invariant and contents\<close>

definition pipe_inv :: "Pipe \<Rightarrow> bool" where
  "pipe_inv p \<longleftrightarrow> length (pbuffer p) = capacity p \<and> 0 < capacity p \<and> psize p \<le> capacity p \<and> pget p < capacity p
     \<and> pput p = (pget p + psize p) mod capacity p"

definition pipe_contents :: "Pipe \<Rightarrow> string" where
  "pipe_contents p = ring_contents (pbuffer p) (pget p) (psize p)"

lemma advance_eq: "i < n \<Longrightarrow> (if n \<le> i + 1 then 0 else i + 1) = ring_advance n i"
  by (auto simp: ring_advance_def)

lemma psize_swap:
  "q\<lparr>psize := n, pbuffer := b, pput := i\<rparr> = q\<lparr>pbuffer := b, pput := i\<rparr>\<lparr>psize := n\<rparr>"
  "q\<lparr>psize := n, pget := i\<rparr> = q\<lparr>pget := i\<rparr>\<lparr>psize := n\<rparr>"
  by (cases q; simp)+

lemma copy_in_psize: "psize (copy_in d q) = psize q" "copy_in d (q\<lparr>psize := n\<rparr>) = (copy_in d q)\<lparr>psize := n\<rparr>"
  by (induction d arbitrary: q) (simp_all add: psize_swap)

lemma copy_in_inv:
  assumes "pipe_inv p" "psize p + length d \<le> capacity p"
  shows "pipe_inv ((copy_in d p)\<lparr>psize := psize p + length d\<rparr>)
    \<and> pipe_contents ((copy_in d p)\<lparr>psize := psize p + length d\<rparr>) = pipe_contents p @ d
    \<and> capacity (copy_in d p) = capacity p"
  using assms
proof (induction d arbitrary: p)
  case Nil then show ?case by (simp add: pipe_inv_def pipe_contents_def)
next
  case (Cons c d)
  let ?q = "p\<lparr>pbuffer := (pbuffer p)[pput p := c], pput := ring_advance (capacity p) (pput p)\<rparr>"
  let ?r = "?q\<lparr>psize := psize p + 1\<rparr>"
  have p: "pput p < capacity p" using Cons.prems(1) by (simp add: pipe_inv_def)
  have e: "copy_in (c # d) p = copy_in d ?q" using advance_eq[OF p] by simp
  have ri: "pipe_inv ?r"
    using Cons.prems p by (auto simp: pipe_inv_def ring_advance_mod mod_Suc_eq)
  have rc: "pipe_contents ?r = pipe_contents p @ [c]"
    using Cons.prems ring_contents_put[of "psize p" "pbuffer p" "pget p" c]
    by (simp add: pipe_contents_def pipe_inv_def)
  have "(copy_in (c # d) p)\<lparr>psize := psize p + length (c # d)\<rparr> = (copy_in d ?r)\<lparr>psize := psize ?r + length d\<rparr>"
    unfolding e copy_in_psize(2) by simp
  moreover have "capacity (copy_in d ?r) = capacity (copy_in d ?q)" unfolding copy_in_psize(2) by simp
  ultimately show ?case using Cons.IH[OF ri] Cons.prems rc e by simp
qed

lemma copy_out_inv:
  assumes "pipe_inv p" "n \<le> psize p" "copy_out n p = (d, p')"
  shows "pipe_inv (p'\<lparr>psize := psize p - n\<rparr>) \<and> d @ pipe_contents (p'\<lparr>psize := psize p - n\<rparr>) = pipe_contents p
    \<and> length d = n \<and> capacity p' = capacity p \<and> psize p' = psize p"
  using assms
proof (induction n arbitrary: p d p')
  case 0 then show ?case by (simp add: pipe_inv_def pipe_contents_def)
next
  case (Suc n)
  let ?q = "p\<lparr>pget := ring_advance (capacity p) (pget p)\<rparr>"
  let ?r = "?q\<lparr>psize := psize p - 1\<rparr>"
  have g: "pget p < capacity p" using Suc.prems(1) by (simp add: pipe_inv_def)
  obtain e q' where c: "copy_out n ?q = (e, q')" and d: "d = pbuffer p ! pget p # e" "p' = q'"
    using Suc.prems(3) advance_eq[OF g] by (auto simp: Let_def split: prod.splits)
  have com: "copy_out n (q\<lparr>psize := m\<rparr>) = map_prod id (psize_update (\<lambda>_. m)) (copy_out n q)" for q m
    by (induction n arbitrary: q) (simp_all add: Let_def case_prod_beta psize_swap)
  have r: "copy_out n ?r = (e, q'\<lparr>psize := psize p - 1\<rparr>)" unfolding com c by simp
  have sz: "psize (snd (copy_out n q)) = psize q" for q by (induction n arbitrary: q) (simp_all add: Let_def case_prod_beta)
  have ri: "pipe_inv ?r"
  proof -
    obtain m where "psize p = Suc m" using Suc.prems(2) by (cases "psize p") auto
    then show ?thesis using Suc.prems(1) g by (auto simp: pipe_inv_def ring_advance_mod mod_add_left_eq)
  qed
  have rc: "pipe_contents p = pbuffer p ! pget p # pipe_contents ?r"
    using Suc.prems ring_contents_get[of "psize p" "pget p" "pbuffer p"] by (simp add: pipe_contents_def pipe_inv_def)
  show ?case using Suc.IH[OF ri _ r] Suc.prems(2) rc d c sz[of ?q] by simp
qed

lemma pipe_write_inv:
  assumes "pipe_inv p" "pipe_write closed d written p = (r, p')"
  shows "pipe_inv p' \<and> capacity p' = capacity p
    \<and> (case r of
         Written n \<Rightarrow> n = written + length d \<and> pipe_contents p' = pipe_contents p @ d
       | WriteFailed e \<Rightarrow> e = EPIPE \<and> closed \<and> d \<noteq> [] \<and> p' = p
       | WriteBlocked rest n \<Rightarrow> \<exists>a. a @ rest = d \<and> rest \<noteq> [] \<and> n = written + length a \<and> \<not> closed
            \<and> pipe_contents p' = pipe_contents p @ a \<and> psize p' = capacity p)"
  using assms
proof (induction closed d written p rule: pipe_write.induct)
  case (1 closed d written p)
  let ?w = "min (length d) (capacity p - psize p)"
  let ?p1 = "copy_in (take ?w d) p"
  let ?p2 = "?p1\<lparr>psize := psize ?p1 + ?w\<rparr>"
  consider (empty) "d = []" | (closed) "d \<noteq> []" "closed" | (full) "d \<noteq> []" "\<not> closed" "?w = 0" | (room) "d \<noteq> []" "\<not> closed" "?w \<noteq> 0"
    by blast
  then show ?case
  proof cases
    case empty then show ?thesis using "1.prems" by (subst (asm) pipe_write.simps) auto
  next
    case closed then show ?thesis using "1.prems" by (subst (asm) pipe_write.simps) auto
  next
    case full
    then have "r = WriteBlocked d written" "p' = p" using "1.prems"(2) by (subst (asm) pipe_write.simps, simp add: Let_def)+
    moreover have "psize p = capacity p" using full "1.prems"(1) by (auto simp: pipe_inv_def min_def split: if_splits)
    ultimately show ?thesis using full "1.prems"(1) by simp
  next
    case room
    have c: "pipe_inv ?p2" "pipe_contents ?p2 = pipe_contents p @ take ?w d" "capacity ?p2 = capacity p"
    proof -
      have l: "length (take ?w d) = ?w" "psize p + length (take ?w d) \<le> capacity p"
        using "1.prems"(1) by (auto simp: pipe_inv_def)
      show "pipe_inv ?p2" "pipe_contents ?p2 = pipe_contents p @ take ?w d" "capacity ?p2 = capacity p"
        using copy_in_inv[OF "1.prems"(1) l(2)] unfolding l(1) copy_in_psize(1) by simp_all
    qed
    have w: "pipe_write closed (drop ?w d) (written + ?w) ?p2 = (r, p')"
      using "1.prems"(2) room by (subst (asm) pipe_write.simps) (simp add: Let_def)
    note ih = "1.IH"[OF room(1,2) refl room(3) refl c(1) w]
    show ?thesis
    proof (cases r)
      case (WriteBlocked rest n)
      then obtain a where "a @ rest = drop ?w d" "rest \<noteq> []" "n = written + ?w + length a" "\<not> closed"
        "pipe_contents p' = pipe_contents ?p2 @ a" "psize p' = capacity p" using ih c(3) by auto
      then show ?thesis using ih c WriteBlocked
        by (auto intro!: exI[of _ "take ?w d @ a"] simp: append_take_drop_id)
    next
      case (Written n)
      have "pipe_contents p' = pipe_contents p @ take ?w d @ drop ?w d" using ih c Written by simp
      then show ?thesis using ih c Written by (simp only: append_take_drop_id) auto
    qed (use ih room in auto)
  qed
qed

lemma pipe_read_inv:
  assumes "pipe_inv p" "pipe_read closed n p = (r, p')"
  shows "pipe_inv p' \<and> capacity p' = capacity p
    \<and> (case r of
         ReadBytes d \<Rightarrow> d @ pipe_contents p' = pipe_contents p \<and> length d = min n (psize p)
       | ReadBlocked \<Rightarrow> p' = p \<and> pipe_contents p = [] \<and> \<not> closed \<and> n \<noteq> 0)"
proof (cases "n = 0 \<or> psize p = 0")
  case True
  then show ?thesis using assms by (auto simp: pipe_read_def Let_def pipe_contents_def ring_contents_def split: if_splits)
next
  case False
  obtain d p1 where c: "copy_out (min n (psize p)) p = (d, p1)" by fastforce
  have m: "min n (psize p) \<noteq> 0" using False by (simp add: min_def)
  have "r = ReadBytes d" "p' = p1\<lparr>psize := psize p1 - min n (psize p)\<rparr>"
    using assms(2)[unfolded pipe_read_def Let_def c prod.case] False m by (auto split: if_splits)
  then show ?thesis using copy_out_inv[OF assms(1) _ c] by simp
qed

section \<open>Correctness\<close>

text \<open>Calls, or the remaining parts of blocked calls, in any order by any threads: the bytes accepted, the bytes
  delivered, and the pipe afterwards.\<close>

datatype pipe_event = WriteCall bool string | ReadCall bool nat

definition accepted :: "write_outcome \<Rightarrow> nat" where
  "accepted r = (case r of Written n \<Rightarrow> n | WriteFailed e \<Rightarrow> 0 | WriteBlocked rest n \<Rightarrow> n)"

definition delivered :: "read_outcome \<Rightarrow> string" where
  "delivered r = (case r of ReadBytes d \<Rightarrow> d | ReadBlocked \<Rightarrow> [])"

fun pipe_events :: "pipe_event list \<Rightarrow> Pipe \<Rightarrow> string \<times> string \<times> Pipe" where
  "pipe_events [] p = ([], [], p)"
| "pipe_events (WriteCall closed d # es) p =
     (let (r, p1) = pipe_write closed d 0 p; (i, out, p') = pipe_events es p1 in (take (accepted r) d @ i, out, p'))"
| "pipe_events (ReadCall closed n # es) p =
     (let (r, p1) = pipe_read closed n p; (i, out, p') = pipe_events es p1 in (i, delivered r @ out, p'))"

lemma write_accepted:
  assumes "pipe_inv p" "pipe_write closed d 0 p = (r, p')"
  shows "pipe_contents p' = pipe_contents p @ take (accepted r) d"
  using pipe_write_inv[OF assms] by (cases r) (auto simp: accepted_def)

lemma read_delivered:
  assumes "pipe_inv p" "pipe_read closed n p = (r, p')"
  shows "delivered r @ pipe_contents p' = pipe_contents p"
  using pipe_read_inv[OF assms] by (cases r) (auto simp: delivered_def)

lemma pipe_events_fifo:
  assumes "pipe_inv p" "pipe_events es p = (i, out, p')"
  shows "pipe_inv p' \<and> capacity p' = capacity p \<and> pipe_contents p @ i = out @ pipe_contents p'"
  using assms
proof (induction es p arbitrary: i out rule: pipe_events.induct)
  case (2 closed d es p)
  obtain r p1 where w: "pipe_write closed d 0 p = (r, p1)" by fastforce
  obtain j where e: "pipe_events es p1 = (j, out, p')" and i: "i = take (accepted r) d @ j"
    using "2.prems"(2) by (auto simp: w Let_def split: prod.splits)
  have c: "pipe_inv p1 \<and> capacity p1 = capacity p" using pipe_write_inv[OF "2.prems"(1) w] by blast
  from "2.IH"[OF w[symmetric] refl] c e have "pipe_inv p' \<and> capacity p' = capacity p1 \<and> pipe_contents p1 @ j = out @ pipe_contents p'"
    by simp
  then show ?case using c i write_accepted[OF "2.prems"(1) w] by simp
next
  case (3 closed n es p)
  obtain r p1 where w: "pipe_read closed n p = (r, p1)" by fastforce
  obtain o2 where e: "pipe_events es p1 = (i, o2, p')" and out: "out = delivered r @ o2"
    using "3.prems"(2) by (auto simp: w Let_def split: prod.splits)
  have c: "pipe_inv p1 \<and> capacity p1 = capacity p" using pipe_read_inv[OF "3.prems"(1) w] by blast
  from "3.IH"[OF w[symmetric] refl] c e have "pipe_inv p' \<and> capacity p' = capacity p1 \<and> pipe_contents p1 @ i = o2 @ pipe_contents p'"
    by simp
  then show ?case using c out read_delivered[OF "3.prems"(1) w, symmetric] by simp
qed simp

text \<open>C16. A pipe is a stream: whatever calls read and write it in whatever order, the bytes delivered
  followed by those inside are the bytes inside at first followed by those accepted. A write that blocks leaves the pipe
  full, so that a read returns bytes at once; a read that blocks leaves it empty, so that a write
  stores bytes at once: a reader and a writer never wait for each other. When the other end is closed a
  write fails, and a read delivers what is left and then reports the end without blocking.\<close>

theorem pipe_stream:
  assumes "pipe_inv p"
  shows "(case pipe_events es p of (i, out, p') \<Rightarrow>
            pipe_inv p' \<and> capacity p' = capacity p \<and> pipe_contents p @ i = out @ pipe_contents p')
    \<and> (\<forall>d k rest n p1. pipe_write closed d k p = (WriteBlocked rest n, p1) \<longrightarrow>
          rest \<noteq> [] \<and> (\<forall>c2 m. 0 < m \<longrightarrow> (\<exists>b p2. pipe_read c2 m p1 = (ReadBytes b, p2) \<and> b \<noteq> [])))
    \<and> (\<forall>m p1. pipe_read closed m p = (ReadBlocked, p1) \<longrightarrow>
          p1 = p \<and> (\<forall>d. d \<noteq> [] \<longrightarrow> accepted (fst (pipe_write False d 0 p1)) \<noteq> 0))
    \<and> (\<forall>d k. d \<noteq> [] \<longrightarrow> pipe_write True d k p = (WriteFailed EPIPE, p))
    \<and> (\<forall>m. 0 < m \<longrightarrow> (\<exists>b p1. pipe_read True m p = (ReadBytes b, p1) \<and> (b = [] \<longleftrightarrow> pipe_contents p = [])))"
proof -
  have full: "rest \<noteq> [] \<and> (\<forall>c2 m. 0 < m \<longrightarrow> (\<exists>b p2. pipe_read c2 m p1 = (ReadBytes b, p2) \<and> b \<noteq> []))"
    if w: "pipe_write closed d k p = (WriteBlocked rest n, p1)" for d k rest n p1
  proof -
    have i: "pipe_inv p1" "rest \<noteq> []" "psize p1 = capacity p1" using pipe_write_inv[OF assms w] by auto
    have "\<exists>b p2. pipe_read c2 m p1 = (ReadBytes b, p2) \<and> b \<noteq> []" if "0 < m" for c2 m
    proof -
      obtain r p2 where r: "pipe_read c2 m p1 = (r, p2)" by fastforce
      show ?thesis using pipe_read_inv[OF i(1) r] r i that
        by (cases r) (auto simp: pipe_contents_def pipe_inv_def ring_contents_def)
    qed
    then show ?thesis using i(2) by blast
  qed
  have empty: "p1 = p \<and> (\<forall>d. d \<noteq> [] \<longrightarrow> accepted (fst (pipe_write False d 0 p1)) \<noteq> 0)"
    if r: "pipe_read closed m p = (ReadBlocked, p1)" for m p1
  proof -
    have i: "p1 = p" "pipe_contents p = []" using pipe_read_inv[OF assms r] by auto
    have "accepted r \<noteq> 0" if "d \<noteq> []" "pipe_write False d 0 p = (r, p2)" for d r p2
      using pipe_write_inv[OF assms that(2)] that(1) i(2) assms
      by (cases r) (auto simp: accepted_def pipe_contents_def pipe_inv_def ring_contents_def)
    then show ?thesis using i(1) by (metis prod.collapse)
  qed
  have closed: "\<exists>b p1. pipe_read True m p = (ReadBytes b, p1) \<and> (b = [] \<longleftrightarrow> pipe_contents p = [])" if "0 < m" for m
  proof -
    obtain r p1 where r: "pipe_read True m p = (r, p1)" by fastforce
    then show ?thesis using pipe_read_inv[OF assms r] that
      by (cases r) (auto simp: pipe_contents_def ring_contents_def min_def split: if_splits)
  qed
  have "\<forall>d k. d \<noteq> [] \<longrightarrow> pipe_write True d k p = (WriteFailed EPIPE, p)" by (subst pipe_write.simps) simp
  moreover obtain i out p' where e: "pipe_events es p = (i, out, p')" using prod_cases3 by blast
  ultimately show ?thesis using full empty closed pipe_events_fifo[OF assms e] by simp
qed

theorem pipe_stream_witness:
  "pipe_events [WriteCall False ''abc'', ReadCall False 2, WriteCall False ''cd'', ReadCall True 9] (Pipe_new ''xy'')
     = (''abcd'', ''abcd'', \<lparr>pput = 0, pget = 0, psize = 0, capacity = 2, pbuffer = ''cd''\<rparr>)"
proof -
  have "pipe_inv (Pipe_new ''xy'')" by (simp add: pipe_inv_def Pipe_new_def)
  note s = pipe_stream[OF this, of "[WriteCall False ''abc'', ReadCall False 2, WriteCall False ''cd'', ReadCall True 9]",
      THEN conjunct1]
  have "pipe_events [WriteCall False ''abc'', ReadCall False 2, WriteCall False ''cd'', ReadCall True 9] (Pipe_new ''xy'')
     = (''abcd'', ''abcd'', \<lparr>pput = 0, pget = 0, psize = 0, capacity = 2, pbuffer = ''cd''\<rparr>)" by code_simp
  with s show ?thesis by simp
qed

end
