(* ===== verification/Partition_Tables.thy ===== *)
theory Partition_Tables
  imports Miosix_Prelude Crc_Util
begin

text \<open>
  Partition tables, \<^verbatim>\<open>filesystem/partition\<close>: the reader and the formatter of MBR tables, the reader of GPT tables with its
  checksums, the virtual device of a partition, and \<^verbatim>\<open>DevicePartitionManager\<close>.

  The MBR block is the value of the packed struct \<^verbatim>\<open>MBRHeader\<close> without the boot code, which the formatter clears
  and nothing reads. The GPT header is the list of its 512 bytes, read at the offsets of the packed
  struct in little endian order. A device is a function from a length and a byte position to the
  bytes read, which may be fewer, or \<^term>\<open>None\<close> on an error. \<^verbatim>\<open>unsigned long long\<close> and \<^verbatim>\<open>off_t\<close> are 64 bit words, \<^verbatim>\<open>uint32_t\<close> and
  \<^verbatim>\<open>size_t\<close> 32 bit words.
\<close>

section \<open>MBR\<close>

datatype PartitionType = FAT32 | EXFAT | LITTLEFS | NONE | UNKNOWN

record MBRPartitionRecord =
  bootIndicatorAndStartingCHS :: "8 word list"
  osTypeAndEndingCHS :: "8 word list"
  startingLBA :: "32 word"
  sizeInLBA :: "32 word"

definition createEmpty :: MBRPartitionRecord where
  "createEmpty = \<lparr>bootIndicatorAndStartingCHS = [0, 0, 0, 0], osTypeAndEndingCHS = [0, 0, 0, 0], startingLBA = 0, sizeInLBA = 0\<rparr>"

definition getOsType :: "MBRPartitionRecord \<Rightarrow> 8 word" where
  "getOsType r = osTypeAndEndingCHS r ! 0"

definition rec_isEmpty :: "MBRPartitionRecord \<Rightarrow> bool" where
  "rec_isEmpty r = (osTypeAndEndingCHS r ! 0 = 0)"

record MBRHeader =
  uniqueMBRSignature :: "32 word"
  partitionRecords :: "MBRPartitionRecord list"
  mbrSignature :: "16 word"

definition MBR_SIGNATURE :: "16 word" where
  "MBR_SIGNATURE = 0xAA55"

definition NUM_OF_PARTITIONS :: nat where
  "NUM_OF_PARTITIONS = 4"

record MBRReader =
  mbr_header :: MBRHeader
  currEntryIdx :: nat

definition isValidMBR :: "MBRReader \<Rightarrow> bool" where
  "isValidMBR r = (mbrSignature (mbr_header r) = MBR_SIGNATURE)"

definition isProtectiveMBR :: "MBRReader \<Rightarrow> bool" where
  "isProtectiveMBR r = (osTypeAndEndingCHS (partitionRecords (mbr_header r) ! 0) ! 0 = 0xee)"

definition mbr_getNextPartitionEntry :: "MBRReader \<Rightarrow> MBRPartitionRecord \<times> MBRReader" where
  "mbr_getNextPartitionEntry r =
     (if currEntryIdx r \<ge> NUM_OF_PARTITIONS then (createEmpty, r)
      else let r' = r\<lparr>currEntryIdx := currEntryIdx r + 1\<rparr> in
        (partitionRecords (mbr_header r') ! (currEntryIdx r' - 1), r'))"

definition mbr_reset :: "MBRReader \<Rightarrow> MBRReader" where
  "mbr_reset r = r\<lparr>currEntryIdx := 0\<rparr>"

definition readMBR :: "MBRHeader option \<Rightarrow> MBRReader option" where
  "readMBR block0 = map_option (\<lambda>h. \<lparr>mbr_header = h, currEntryIdx = 0\<rparr>) block0"

datatype MBRFormatResult = Ok | TooManyPartitions | PartitionPositionMustIncrease | PartitionTooBig
  | BoundariesNotAlignedToLogicBlock | InvalidPartitionType

record MBRFormatter =
  deviceSize :: "64 word"
  header :: MBRHeader
  partitionIndex :: nat

definition MBRFormatter_new :: "64 word \<Rightarrow> 32 word \<Rightarrow> MBRFormatter" where
  "MBRFormatter_new volume uniqueSignature =
     \<lparr>deviceSize = volume,
      header = \<lparr>uniqueMBRSignature = uniqueSignature, partitionRecords = replicate 4 createEmpty, mbrSignature = MBR_SIGNATURE\<rparr>,
      partitionIndex = 0\<rparr>"

text \<open>The \<^verbatim>\<open>switch\<close> of \<^verbatim>\<open>addPartition\<close>; \<open>built\<close> tells which filesystems the build configuration includes.\<close>

fun os_code :: "(PartitionType \<Rightarrow> bool) \<Rightarrow> PartitionType \<Rightarrow> 8 word option" where
  "os_code built EXFAT = (if built FAT32 \<and> built EXFAT then Some 0x07 else None)"
| "os_code built FAT32 = (if built FAT32 then Some 0x0c else None)"
| "os_code built LITTLEFS = (if built LITTLEFS then Some 0x7f else None)"
| "os_code built NONE = None"
| "os_code built UNKNOWN = None"

definition addPartition_at :: "(PartitionType \<Rightarrow> bool) \<Rightarrow> PartitionType \<Rightarrow> 64 word \<Rightarrow> 64 word \<Rightarrow> MBRFormatter
    \<Rightarrow> MBRFormatResult \<times> MBRFormatter" where
  "addPartition_at built type sz position fm =
     (let i = partitionIndex fm; recs = partitionRecords (header fm) in
      if i \<ge> 4 then (TooManyPartitions, fm)
      else if sz = 0 \<or> position < 512 \<or> sz mod 512 \<noteq> 0 \<or> position mod 512 \<noteq> 0
        then (BoundariesNotAlignedToLogicBlock, fm)
      else if position + sz > deviceSize fm then (PartitionTooBig, fm)
      else if i > 0 \<and> position div 512 < ucast (startingLBA (recs ! (i - 1)) + sizeInLBA (recs ! (i - 1)))
        then (PartitionPositionMustIncrease, fm)
      else
        let r1 = (recs ! i)\<lparr>bootIndicatorAndStartingCHS := [0, 0xff, 0xff, 0xff]\<rparr> in
        case os_code built type of
          None \<Rightarrow> (InvalidPartitionType, fm\<lparr>header := (header fm)\<lparr>partitionRecords := recs[i := r1]\<rparr>\<rparr>)
        | Some c \<Rightarrow>
            let r2 = r1\<lparr>osTypeAndEndingCHS := [c, 0xff, 0xff, 0xff], sizeInLBA := ucast (sz div 512),
                        startingLBA := ucast (position div 512)\<rparr> in
            (Ok, fm\<lparr>header := (header fm)\<lparr>partitionRecords := recs[i := r2]\<rparr>, partitionIndex := i + 1\<rparr>))"

definition addPartition :: "(PartitionType \<Rightarrow> bool) \<Rightarrow> PartitionType \<Rightarrow> 64 word \<Rightarrow> MBRFormatter
    \<Rightarrow> MBRFormatResult \<times> MBRFormatter" where
  "addPartition built type sz fm =
     (if partitionIndex fm = 0 then addPartition_at built type sz 512 fm
      else let r = partitionRecords (header fm) ! (partitionIndex fm - 1) in
        addPartition_at built type sz (ucast (startingLBA r + sizeInLBA r) * 512) fm)"

section \<open>The device of a partition\<close>

record Partition =
  startSectorByte :: "64 word"
  sectorsCountBytes :: "64 word"

definition Partition_new :: "64 word \<Rightarrow> 64 word \<Rightarrow> Partition" where
  "Partition_new startSector sectorsCount = \<lparr>startSectorByte = startSector * 512, sectorsCountBytes = sectorsCount * 512\<rparr>"

text \<open>\<^verbatim>\<open>readBlock\<close> and \<^verbatim>\<open>writeBlock\<close>: the position on the device behind the partition, or \<^term>\<open>None\<close> for \<^verbatim>\<open>EFAULT\<close>.\<close>

definition partition_access :: "Partition \<Rightarrow> 32 word \<Rightarrow> 64 word \<Rightarrow> 64 word option" where
  "partition_access p sz where =
     (if sint where < 0 \<or> where > sectorsCountBytes p \<or> ucast sz > sectorsCountBytes p
         \<or> where + ucast sz > sectorsCountBytes p
      then None else Some (startSectorByte p + where))"

section \<open>GPT\<close>

datatype ReaderResult = GptOk | ErrorReadingMBR | ErrorInvalidMBR | ErrorMBRIsNotProtective
  | ErrorReadingPartitionTableEntry | ErrorReadingPrimaryHeader | ErrorInvalidPrimaryHeader
  | ErrorInvalidPrimaryHeaderCRC | ErrorInvalidPrimaryTableCRC | ErrorReadingBackupHeader
  | ErrorInvalidBackupHeader | ErrorInvalidBackupHeaderCRC | ErrorInvalidBackupTableCRC
  | ErrorExceededMaxPartitions | ErrorReadingPrimaryPartitions | ErrorReadingBackupPartitions

type_synonym bytes = "8 word list"

type_synonym device = "nat \<Rightarrow> 64 word \<Rightarrow> bytes option"

text \<open>A little endian field of \<open>n\<close> bytes at an offset.\<close>

definition field :: "nat \<Rightarrow> nat \<Rightarrow> bytes \<Rightarrow> 64 word" where
  "field off n h = foldr (\<lambda>b acc. ucast b + push_bit 8 acc) (take n (drop off h)) 0"

definition headerSize :: "bytes \<Rightarrow> 32 word" where "headerSize h = ucast (field 12 4 h)"

definition headerCRC32 :: "bytes \<Rightarrow> 32 word" where "headerCRC32 h = ucast (field 16 4 h)"

definition myLBA :: "bytes \<Rightarrow> 64 word" where "myLBA h = field 24 8 h"

definition alternateLBA :: "bytes \<Rightarrow> 64 word" where "alternateLBA h = field 32 8 h"

definition partitionEntryTableLBA :: "bytes \<Rightarrow> 64 word" where "partitionEntryTableLBA h = field 72 8 h"

definition numberOfPartitionEntries :: "bytes \<Rightarrow> 32 word" where "numberOfPartitionEntries h = ucast (field 80 4 h)"

definition partitionEntrySize :: "bytes \<Rightarrow> 32 word" where "partitionEntrySize h = ucast (field 84 4 h)"

definition partitionEntryTableCRC32 :: "bytes \<Rightarrow> 32 word" where "partitionEntryTableCRC32 h = ucast (field 88 4 h)"

text \<open>The signature \<^verbatim>\<open>EFI PART\<close>, and the header with its checksum set to zero. The checksum runs over as many bytes as the
  header says; the model reports an access behind the 512 bytes.\<close>

definition GPT_SIGNATURE :: bytes where
  "GPT_SIGNATURE = [0x45, 0x46, 0x49, 0x20, 0x50, 0x41, 0x52, 0x54]"

definition header_crc :: "bytes \<Rightarrow> 32 word result" where
  "header_crc h =
     (let n = unat (headerSize h); h0 = take 16 h @ [0, 0, 0, 0] @ drop 20 h in
      if n > length h then Inl OutOfBounds
      else Inr (finalizeCRC32 (addBytes (take n h0) CRC32Calculator_new)))"

text \<open>The loop of \<^verbatim>\<open>validatePrimaryPartitionTableCRC\<close> and \<^verbatim>\<open>validateBackupPartitionTableCRC\<close>. The result of
  \<^verbatim>\<open>readBlock\<close> is ignored: after an error the buffer keeps its old contents.\<close>

definition read_into :: "bytes \<Rightarrow> bytes \<Rightarrow> bytes" where
  "read_into buff b = b @ drop (length b) buff"

function table_crc :: "device \<Rightarrow> 64 word \<Rightarrow> nat \<Rightarrow> nat \<Rightarrow> bytes \<Rightarrow> CRC32Calculator \<Rightarrow> CRC32Calculator" where
  "table_crc dev lba nBlocks remaining buff calc =
     (let buff' = (case dev 512 ((lba + of_nat nBlocks) * 512) of None \<Rightarrow> buff | Some b \<Rightarrow> read_into buff b) in
      if remaining > 512
      then table_crc dev lba (nBlocks + 1) (remaining - 512) buff' (addBytes (take 512 buff') calc)
      else addBytes (take remaining buff') calc)"
  by pat_completeness auto
termination
  by (relation "measure (\<lambda>(dev, lba, n, remaining, buff, calc). remaining)") auto

declare table_crc.simps [simp del]

definition validatePartitionTableCRC :: "device \<Rightarrow> bytes \<Rightarrow> bytes \<Rightarrow> bool" where
  "validatePartitionTableCRC dev buff h =
     (finalizeCRC32 (table_crc dev (partitionEntryTableLBA h) 0
        (unat (numberOfPartitionEntries h * partitionEntrySize h)) buff CRC32Calculator_new) = partitionEntryTableCRC32 h)"

record GPTReader =
  gpt_device :: device
  primaryHeader :: bytes
  backupHeader :: bytes

text \<open>\<open>mem i\<close> is the contents of the \<open>i\<close>-th buffer before it is written.\<close>

definition checkGPT :: "(nat \<Rightarrow> bytes) \<Rightarrow> GPTReader \<Rightarrow> ReaderResult result" where
  "checkGPT mem g =
     (let p = primaryHeader g; b = backupHeader g in
      if take 8 p \<noteq> GPT_SIGNATURE then Inr ErrorInvalidPrimaryHeader
      else if take 8 b \<noteq> GPT_SIGNATURE then Inr ErrorInvalidBackupHeader
      else if myLBA p \<noteq> 1 \<or> alternateLBA p \<noteq> myLBA b then Inr ErrorInvalidPrimaryHeader
      else if myLBA b \<noteq> alternateLBA p \<or> alternateLBA b \<noteq> 1 then Inr ErrorInvalidBackupHeader
      else rbind (header_crc p) (\<lambda>crc.
        if crc \<noteq> headerCRC32 p then Inr ErrorInvalidPrimaryHeaderCRC
        else rbind (header_crc b) (\<lambda>crc2.
          if crc2 \<noteq> headerCRC32 b then Inr ErrorInvalidBackupHeader
          else if \<not> validatePartitionTableCRC (gpt_device g) (mem 0) p then Inr ErrorInvalidPrimaryTableCRC
          else if \<not> validatePartitionTableCRC (gpt_device g) (mem 1) b then Inr ErrorInvalidBackupTableCRC
          else Inr GptOk)))"

text \<open>\<open>block0\<close> is what reading the first block as an MBR gives.\<close>

definition readGPT :: "MBRHeader option \<Rightarrow> device \<Rightarrow> bool \<Rightarrow> ReaderResult + GPTReader" where
  "readGPT block0 dev skipCheckMBR =
     (let mbr = (if skipCheckMBR then None
                 else case readMBR block0 of
                   None \<Rightarrow> Some ErrorReadingMBR
                 | Some r \<Rightarrow> if \<not> isValidMBR r then Some ErrorInvalidMBR
                            else if \<not> isProtectiveMBR r then Some ErrorMBRIsNotProtective else None) in
      case mbr of
        Some e \<Rightarrow> Inl e
      | None \<Rightarrow>
          (case dev 512 512 of
             None \<Rightarrow> Inl ErrorReadingPrimaryHeader
           | Some p \<Rightarrow>
               let hp = read_into (replicate 512 0) p in
               (case dev 512 (alternateLBA hp * 512) of
                  None \<Rightarrow> Inl ErrorReadingBackupHeader
                | Some b \<Rightarrow> Inr \<lparr>gpt_device = dev, primaryHeader = hp, backupHeader = read_into (replicate 512 0) b\<rparr>)))"

record GPTTableReader =
  tbl_device :: device
  partitionTableLBA :: "64 word"
  tbl_entrySize :: "32 word"
  tbl_entries :: "32 word"
  currentPartitionIndexWithinBlock :: nat
  currentBlockIndex :: "64 word"
  currentPartitionIndex :: "32 word"
  tbl_buffer :: bytes

definition GPTTableReader_new :: "device \<Rightarrow> 64 word \<Rightarrow> 32 word \<Rightarrow> 32 word \<Rightarrow> bytes \<Rightarrow> GPTTableReader" where
  "GPTTableReader_new dev lba entrySize entries mem =
     \<lparr>tbl_device = dev, partitionTableLBA = lba, tbl_entrySize = entrySize, tbl_entries = entries,
      currentPartitionIndexWithinBlock = 0, currentBlockIndex = 0, currentPartitionIndex = 0, tbl_buffer = mem\<rparr>"

definition getPrimaryPartitionTableReader :: "bytes \<Rightarrow> GPTReader \<Rightarrow> GPTTableReader" where
  "getPrimaryPartitionTableReader mem g =
     GPTTableReader_new (gpt_device g) (partitionEntryTableLBA (primaryHeader g))
       (partitionEntrySize (primaryHeader g)) (numberOfPartitionEntries (primaryHeader g)) mem"

definition getBackupPartitionTableReader :: "bytes \<Rightarrow> GPTReader \<Rightarrow> GPTTableReader" where
  "getBackupPartitionTableReader mem g =
     GPTTableReader_new (gpt_device g) (partitionEntryTableLBA (backupHeader g))
       (partitionEntrySize (backupHeader g)) (numberOfPartitionEntries (backupHeader g)) mem"

definition gpt_reset :: "GPTTableReader \<Rightarrow> GPTTableReader" where
  "gpt_reset t = t\<lparr>currentPartitionIndexWithinBlock := 0, currentBlockIndex := 0, currentPartitionIndex := 0\<rparr>"

text \<open>The buffer is an array of four entries of 128 bytes.\<close>

definition loadPartitonEntry :: "GPTTableReader \<Rightarrow> (ReaderResult + bytes) \<times> GPTTableReader" where
  "loadPartitonEntry t =
     (if currentPartitionIndex t \<ge> tbl_entries t then (Inl ErrorExceededMaxPartitions, t)
      else
        let rd = (if currentPartitionIndexWithinBlock t = 0
                  then map_option (\<lambda>b. t\<lparr>tbl_buffer := read_into (tbl_buffer t) b\<rparr>)
                         (tbl_device t 512 ((partitionTableLBA t + currentBlockIndex t) * 512))
                  else Some t) in
        case rd of
          None \<Rightarrow> (Inl ErrorReadingPartitionTableEntry, t)
        | Some t1 \<Rightarrow>
            let entry = take 128 (drop (128 * currentPartitionIndexWithinBlock t1) (tbl_buffer t1));
                next = (\<lambda>perBlock.
                   let k = currentPartitionIndexWithinBlock t1 + 1 in
                   if k = perBlock
                   then t1\<lparr>currentBlockIndex := currentBlockIndex t1 + 1, currentPartitionIndexWithinBlock := 0\<rparr>
                   else t1\<lparr>currentPartitionIndexWithinBlock := k\<rparr>);
                t2 = (if tbl_entrySize t1 = 128 then next 4
                      else if tbl_entrySize t1 = 256 then next 2
                      else t1\<lparr>currentBlockIndex := currentBlockIndex t1 + ucast (tbl_entrySize t1 div 512)\<rparr>)
            in (Inr entry, t2\<lparr>currentPartitionIndex := currentPartitionIndex t2 + 1\<rparr>))"

definition gpt_getNextPartitionEntry :: "GPTTableReader \<Rightarrow> (ReaderResult + bytes) \<times> GPTTableReader" where
  "gpt_getNextPartitionEntry t =
     (if currentPartitionIndex t \<ge> tbl_entries t then (Inl ErrorExceededMaxPartitions, t)
      else case loadPartitonEntry t of
        (Inl e, t1) \<Rightarrow> (Inl e, t1)
      | (Inr entry, t1) \<Rightarrow> (Inr entry, t1\<lparr>currentPartitionIndex := currentPartitionIndex t1 + 1\<rparr>))"

definition entry_isEmpty :: "bytes \<Rightarrow> bool" where
  "entry_isEmpty e = (take 16 e = replicate 16 0)"

section \<open>DevicePartitionManager\<close>

datatype PartitionTableType = MBR | GPT | INVALID | DISK_ERR

record DevicePartitionManager =
  mbrReader :: "MBRReader option"
  gptReader :: "GPTTableReader option"
  table_type :: PartitionTableType

definition getPartitionTypeFromOSType :: "8 word \<Rightarrow> PartitionType" where
  "getPartitionTypeFromOSType t =
     (if t = 0x01 \<or> t = 0x06 \<or> t = 0x04 \<or> t = 0x0c \<or> t = 0x0b then FAT32
      else if t = 0x07 then EXFAT
      else if t = 0x00 then NONE
      else UNKNOWN)"

text \<open>\<^verbatim>\<open>loadPartitionTable\<close>, with GPT support; the device is missing, or given by its first block and its reads. \<open>mem i\<close> is
  the contents of the \<open>i\<close>-th buffer before it is written.\<close>

definition loadPartitionTable :: "(nat \<Rightarrow> bytes) \<Rightarrow> (MBRHeader option \<times> device) option \<Rightarrow> DevicePartitionManager
    \<Rightarrow> (PartitionTableType \<times> DevicePartitionManager) result" where
  "loadPartitionTable mem dev m =
     (case dev of
        None \<Rightarrow> Inr (DISK_ERR, m)
      | Some (block0, d) \<Rightarrow>
          (case readMBR block0 of
             None \<Rightarrow> Inr (INVALID, m\<lparr>table_type := INVALID\<rparr>)
           | Some r \<Rightarrow>
               let m1 = m\<lparr>mbrReader := Some r\<rparr> in
               if \<not> isProtectiveMBR r then Inr (MBR, m1\<lparr>table_type := MBR\<rparr>)
               else (case readGPT block0 d True of
                   Inl e \<Rightarrow> Inr (INVALID, m1\<lparr>table_type := INVALID\<rparr>)
                 | Inr g \<Rightarrow>
                     rbind (checkGPT mem g) (\<lambda>res.
                       if res \<noteq> GptOk then Inr (INVALID, m1\<lparr>table_type := INVALID\<rparr>)
                       else Inr (GPT, m1\<lparr>gptReader := Some (getPrimaryPartitionTableReader (mem 2) g), table_type := GPT\<rparr>)))))"

definition getNextEntry :: "DevicePartitionManager \<Rightarrow> (Partition option \<times> PartitionType) \<times> DevicePartitionManager" where
  "getNextEntry m =
     (case table_type m of
        MBR \<Rightarrow>
          (case mbrReader m of
             None \<Rightarrow> ((None, FAT32), m)
           | Some r \<Rightarrow>
               let (e, r') = mbr_getNextPartitionEntry r; m' = m\<lparr>mbrReader := Some r'\<rparr> in
               if rec_isEmpty e then ((None, NONE), m')
               else ((Some (Partition_new (ucast (startingLBA e)) (ucast (sizeInLBA e))),
                      getPartitionTypeFromOSType (getOsType e)), m'))
      | GPT \<Rightarrow>
          (case gptReader m of
             None \<Rightarrow> ((None, UNKNOWN), m)
           | Some t \<Rightarrow>
               (case gpt_getNextPartitionEntry t of
                  (Inl e, t') \<Rightarrow> ((None, UNKNOWN), m\<lparr>gptReader := Some t'\<rparr>)
                | (Inr e, t') \<Rightarrow>
                    let m' = m\<lparr>gptReader := Some t'\<rparr> in
                    if entry_isEmpty e then ((None, NONE), m')
                    else ((Some (Partition_new (field 32 8 e) (field 40 8 e - field 32 8 e)), UNKNOWN), m')))
      | _ \<Rightarrow> ((None, UNKNOWN), m))"

text \<open>\<^verbatim>\<open>reset\<close> calls \<^verbatim>\<open>reset\<close> of the MBR reader, but of the \<^verbatim>\<open>unique_ptr\<close> to the GPT reader, which is deleted.\<close>

definition manager_reset :: "DevicePartitionManager \<Rightarrow> DevicePartitionManager" where
  "manager_reset m =
     (if table_type m = MBR then m\<lparr>mbrReader := map_option mbr_reset (mbrReader m)\<rparr>
      else if table_type m = GPT then m\<lparr>gptReader := None\<rparr>
      else m)"

definition DevicePartitionManager_new :: DevicePartitionManager where
  "DevicePartitionManager_new = \<lparr>mbrReader = None, gptReader = None, table_type = INVALID\<rparr>"

section \<open>The partitions of an MBR table\<close>

definition p_start :: "MBRFormatter \<Rightarrow> nat \<Rightarrow> nat" where
  "p_start fm i = unat (startingLBA (partitionRecords (header fm) ! i))"

definition p_size :: "MBRFormatter \<Rightarrow> nat \<Rightarrow> nat" where
  "p_size fm i = unat (sizeInLBA (partitionRecords (header fm) ! i))"

text \<open>The partitions lie behind the first block, within the device, in increasing order; the used
  records have a type and the others have none. Devices have at most two terabytes, as block numbers have 32 bits.\<close>

definition mbr_inv :: "MBRFormatter \<Rightarrow> bool" where
  "mbr_inv fm \<longleftrightarrow> length (partitionRecords (header fm)) = 4 \<and> partitionIndex fm \<le> 4 \<and> unat (deviceSize fm) < 2 ^ 41
     \<and> (\<forall>i < partitionIndex fm. 1 \<le> p_start fm i \<and> 0 < p_size fm i \<and> (p_start fm i + p_size fm i) * 512 \<le> unat (deviceSize fm)
          \<and> getOsType (partitionRecords (header fm) ! i) \<in> {0x07, 0x0c, 0x7f})
     \<and> (\<forall>i < partitionIndex fm. 0 < i \<longrightarrow> p_start fm (i - 1) + p_size fm (i - 1) \<le> p_start fm i)
     \<and> (\<forall>i < 4. partitionIndex fm \<le> i \<longrightarrow> rec_isEmpty (partitionRecords (header fm) ! i))"

lemma MBRFormatter_new_inv: "unat volume < 2 ^ 41 \<Longrightarrow> mbr_inv (MBRFormatter_new volume u)"
  by (simp add: mbr_inv_def MBRFormatter_new_def rec_isEmpty_def createEmpty_def)

lemma unat_512: "unat (512 :: 64 word) = 512"
  by simp

lemma ucast_small: "unat w < 2 ^ 32 \<Longrightarrow> unat (ucast (w :: 64 word) :: 32 word) = unat w"
  by (simp add: unsigned_ucast_eq take_bit_nat_eq_self)

lemma ucast_up: "unat (ucast (w :: 32 word) :: 64 word) = unat w"
proof -
  have "unat w < 2 ^ LENGTH(32)" by (rule unsigned_less)
  then have "unat w < 2 ^ 64" by simp
  then show ?thesis by (simp add: unsigned_ucast_eq take_bit_nat_eq_self)
qed

lemma end_sum:
  assumes "mbr_inv fm" "i < partitionIndex fm"
  shows "unat (startingLBA (partitionRecords (header fm) ! i) + sizeInLBA (partitionRecords (header fm) ! i)) = p_start fm i + p_size fm i"
proof -
  have "(p_start fm i + p_size fm i) * 512 < 2 ^ 41" using assms by (force simp: mbr_inv_def)
  then have "p_start fm i + p_size fm i < 2 ^ 32" by simp
  then show ?thesis by (simp add: p_start_def p_size_def unat_word_ariths)
qed

lemma add_ok:
  assumes inv: "mbr_inv fm" and nw: "unat sz + unat position < 2 ^ 64"
    and a: "addPartition_at built type sz position fm = (Ok, fm')"
  shows "mbr_inv fm'" "partitionIndex fm' = partitionIndex fm + 1" "deviceSize fm' = deviceSize fm"
    "p_start fm' (partitionIndex fm) = unat position div 512" "p_size fm' (partitionIndex fm) = unat sz div 512"
    "\<forall>j < partitionIndex fm. partitionRecords (header fm') ! j = partitionRecords (header fm) ! j"
proof -
  let ?i = "partitionIndex fm" let ?recs = "partitionRecords (header fm)"
  obtain c where i: "?i < 4" and sz: "sz \<noteq> 0" "sz mod 512 = 0" and pos: "\<not> position < 512" "position mod 512 = 0"
    and big: "\<not> position + sz > deviceSize fm"
    and inc: "\<not> (?i > 0 \<and> position div 512 < ucast (startingLBA (?recs ! (?i - 1)) + sizeInLBA (?recs ! (?i - 1))))"
    and c: "os_code built type = Some c"
    and fm': "fm' = fm\<lparr>header := (header fm)\<lparr>partitionRecords := ?recs[?i :=
        (?recs ! ?i)\<lparr>bootIndicatorAndStartingCHS := [0, 0xff, 0xff, 0xff], osTypeAndEndingCHS := [c, 0xff, 0xff, 0xff],
          sizeInLBA := ucast (sz div 512), startingLBA := ucast (position div 512)\<rparr>]\<rparr>, partitionIndex := ?i + 1\<rparr>"
    using a by (auto simp: addPartition_at_def Let_def split: if_splits option.splits)
  have len: "length ?recs = 4" using inv by (simp add: mbr_inv_def)
  have dev: "unat position + unat sz \<le> unat (deviceSize fm)" "unat (deviceSize fm) < 2 ^ 41"
  proof -
    have "unat (position + sz) = unat position + unat sz" using nw by (simp add: unat_word_ariths)
    then show "unat position + unat sz \<le> unat (deviceSize fm)" using big by (simp add: word_less_nat_alt)
    show "unat (deviceSize fm) < 2 ^ 41" using inv by (simp add: mbr_inv_def)
  qed
  have szn: "unat sz mod 512 = 0" "unat sz \<noteq> 0" using sz by (metis unat_512 unat_mod_distrib unat_0, simp add: unat_eq_0)
  have pn: "unat position mod 512 = 0" "512 \<le> unat position"
    using pos by (metis unat_512 unat_mod_distrib unat_0, simp add: word_less_nat_alt)
  have d: "unat (sz div 512) = unat sz div 512" "unat (position div 512) = unat position div 512"
    by (simp_all add: unat_div_distrib)
  have q: "unat (ucast (sz div 512) :: 32 word) = unat sz div 512" "unat (ucast (position div 512) :: 32 word) = unat position div 512"
    using dev by (subst ucast_small; simp add: d; linarith)+
  show "partitionIndex fm' = ?i + 1" "deviceSize fm' = deviceSize fm" by (simp_all add: fm')
  show st: "p_start fm' ?i = unat position div 512" and size: "p_size fm' ?i = unat sz div 512"
    using i len q by (simp_all add: fm' p_start_def p_size_def)
  show keep: "\<forall>j < ?i. partitionRecords (header fm') ! j = ?recs ! j" by (simp add: fm')
  have c0: "c \<in> {0x07, 0x0c, 0x7f}" using c by (cases type) (auto split: if_splits)
  have ord: "p_start fm (?i - 1) + p_size fm (?i - 1) \<le> unat position div 512" if "0 < ?i"
    using inc that end_sum[OF inv, of "?i - 1"] by (simp add: word_less_nat_alt ucast_up d)
  have fit: "(unat position div 512 + unat sz div 512) * 512 \<le> unat (deviceSize fm)" "1 \<le> unat position div 512" "0 < unat sz div 512"
    using dev(1) szn pn by auto
  have same: "p_start fm' j = p_start fm j \<and> p_size fm' j = p_size fm j" if "j < ?i" for j
    using that keep by (simp add: p_start_def p_size_def)
  show "mbr_inv fm'"
    unfolding mbr_inv_def
  proof (intro conjI allI impI)
    show "length (partitionRecords (header fm')) = 4" "partitionIndex fm' \<le> 4" "unat (deviceSize fm') < 2 ^ 41"
      using i len dev(2) by (simp_all add: fm')
  next
    fix j assume j: "j < partitionIndex fm'"
    have "(1 \<le> p_start fm' j \<and> 0 < p_size fm' j \<and> (p_start fm' j + p_size fm' j) * 512 \<le> unat (deviceSize fm'))
        \<and> getOsType (partitionRecords (header fm') ! j) \<in> {0x07, 0x0c, 0x7f}"
    proof (cases "j = ?i")
      case True then show ?thesis using st size fit c0 i len by (simp add: fm' getOsType_def)
    next
      case False
      then have "j < ?i" using j by (simp add: fm')
      then show ?thesis using inv same[of j] keep by (simp add: mbr_inv_def fm')
    qed
    then show "1 \<le> p_start fm' j" "0 < p_size fm' j" "(p_start fm' j + p_size fm' j) * 512 \<le> unat (deviceSize fm')"
      "getOsType (partitionRecords (header fm') ! j) \<in> {0x07, 0x0c, 0x7f}" by simp_all
    assume "0 < j"
    then show "p_start fm' (j - 1) + p_size fm' (j - 1) \<le> p_start fm' j"
      using j ord st same[of "j - 1"] same[of j] inv by (cases "j = ?i") (auto simp: fm' mbr_inv_def)
  next
    fix j :: nat assume "j < 4" "partitionIndex fm' \<le> j"
    then show "rec_isEmpty (partitionRecords (header fm') ! j)" using inv by (simp add: fm' mbr_inv_def)
  qed
qed

lemma add_err:
  assumes inv: "mbr_inv fm" and a: "addPartition_at built type sz position fm = (r, fm')" and r: "r \<noteq> Ok"
  shows "mbr_inv fm'" "partitionIndex fm' = partitionIndex fm" "deviceSize fm' = deviceSize fm"
    "\<forall>j < partitionIndex fm. partitionRecords (header fm') ! j = partitionRecords (header fm) ! j"
proof -
  let ?i = "partitionIndex fm" let ?recs = "partitionRecords (header fm)"
  consider "fm' = fm" | "?i < 4" "fm' = fm\<lparr>header := (header fm)\<lparr>partitionRecords := ?recs[?i :=
        (?recs ! ?i)\<lparr>bootIndicatorAndStartingCHS := [0, 0xff, 0xff, 0xff]\<rparr>]\<rparr>\<rparr>"
    using a r by (auto simp: addPartition_at_def Let_def split: if_splits option.splits)
  then have "mbr_inv fm' \<and> partitionIndex fm' = ?i \<and> deviceSize fm' = deviceSize fm \<and> (\<forall>j < ?i. partitionRecords (header fm') ! j = ?recs ! j)"
  proof cases
    case 1 then show ?thesis using inv by simp
  next
    case 2
    have l: "?i < length ?recs" using 2(1) inv by (simp add: mbr_inv_def)
    have "rec_isEmpty (?recs[?i := (?recs ! ?i)\<lparr>bootIndicatorAndStartingCHS := b\<rparr>] ! j) = rec_isEmpty (?recs ! j)" for j b
      using l by (cases "j = ?i") (auto simp: rec_isEmpty_def)
    moreover have "getOsType (?recs[?i := (?recs ! ?i)\<lparr>bootIndicatorAndStartingCHS := b\<rparr>] ! j) = getOsType (?recs ! j)" for j b
      using l by (cases "j = ?i") (auto simp: getOsType_def)
    moreover have "startingLBA (?recs[?i := (?recs ! ?i)\<lparr>bootIndicatorAndStartingCHS := b\<rparr>] ! j) = startingLBA (?recs ! j)"
      "sizeInLBA (?recs[?i := (?recs ! ?i)\<lparr>bootIndicatorAndStartingCHS := b\<rparr>] ! j) = sizeInLBA (?recs ! j)" for j b
      using l by (cases "j = ?i"; simp)+
    ultimately show ?thesis using inv 2 by (simp add: mbr_inv_def p_start_def p_size_def)
  qed
  then show "mbr_inv fm'" "partitionIndex fm' = partitionIndex fm" "deviceSize fm' = deviceSize fm"
    "\<forall>j < partitionIndex fm. partitionRecords (header fm') ! j = ?recs ! j" by blast+
qed

text \<open>Any sequence of requests, with or without a position.\<close>

fun mbr_format :: "(PartitionType \<Rightarrow> bool) \<Rightarrow> (PartitionType \<times> 64 word \<times> 64 word option) list \<Rightarrow> MBRFormatter \<Rightarrow> MBRFormatter" where
  "mbr_format built [] fm = fm"
| "mbr_format built ((t, sz, None) # rs) fm = mbr_format built rs (snd (addPartition built t sz fm))"
| "mbr_format built ((t, sz, Some pos) # rs) fm = mbr_format built rs (snd (addPartition_at built t sz pos fm))"

definition no_overflow :: "PartitionType \<times> 64 word \<times> 64 word option \<Rightarrow> bool" where
  "no_overflow r = (case r of (t, sz, pos) \<Rightarrow> unat sz < 2 ^ 63 \<and> (case pos of None \<Rightarrow> True | Some p \<Rightarrow> unat p < 2 ^ 63))"

lemma add_inv:
  assumes "mbr_inv fm" "unat sz + unat pos < 2 ^ 64"
  shows "mbr_inv (snd (addPartition_at built t sz pos fm)) \<and> deviceSize (snd (addPartition_at built t sz pos fm)) = deviceSize fm"
proof -
  obtain r fm' where a: "addPartition_at built t sz pos fm = (r, fm')" by fastforce
  show ?thesis
  proof (cases "r = Ok")
    case True then show ?thesis using a add_ok(1,3)[OF assms, of built t fm'] by simp
  next
    case False then show ?thesis using a add_err(1,3)[OF assms(1) a False] by simp
  qed
qed

lemma auto_position:
  assumes "mbr_inv fm" "0 < partitionIndex fm"
  defines "r \<equiv> partitionRecords (header fm) ! (partitionIndex fm - 1)"
  shows "unat (ucast (startingLBA r + sizeInLBA r) * 512 :: 64 word) = (p_start fm (partitionIndex fm - 1) + p_size fm (partitionIndex fm - 1)) * 512"
    "(p_start fm (partitionIndex fm - 1) + p_size fm (partitionIndex fm - 1)) * 512 < 2 ^ 41"
proof -
  let ?e = "p_start fm (partitionIndex fm - 1) + p_size fm (partitionIndex fm - 1)"
  have l: "partitionIndex fm - 1 < partitionIndex fm" using assms(2) by simp
  then have "?e * 512 \<le> unat (deviceSize fm)" "unat (deviceSize fm) < 2 ^ 41"
    using assms(1) unfolding mbr_inv_def by blast+
  then show b: "?e * 512 < 2 ^ 41" by (rule le_less_trans)
  have "unat (ucast (startingLBA r + sizeInLBA r) :: 64 word) = ?e" using end_sum[OF assms(1) l] by (simp add: ucast_up r_def)
  then show "unat (ucast (startingLBA r + sizeInLBA r) * 512 :: 64 word) = ?e * 512" using b by (simp add: unat_word_ariths)
qed

lemma format_inv:
  "mbr_inv fm \<Longrightarrow> list_all no_overflow rs \<Longrightarrow> mbr_inv (mbr_format built rs fm) \<and> deviceSize (mbr_format built rs fm) = deviceSize fm"
proof (induction built rs fm rule: mbr_format.induct)
  case (2 built t sz rs fm)
  have s: "unat sz < 2 ^ 63" using "2.prems"(2) by (simp add: no_overflow_def)
  have "mbr_inv (snd (addPartition built t sz fm)) \<and> deviceSize (snd (addPartition built t sz fm)) = deviceSize fm"
  proof (cases "partitionIndex fm = 0")
    case True
    then show ?thesis using add_inv[OF "2.prems"(1), of sz 512 built t] s by (simp add: addPartition_def)
  next
    case False
    let ?p = "ucast (startingLBA (partitionRecords (header fm) ! (partitionIndex fm - 1))
        + sizeInLBA (partitionRecords (header fm) ! (partitionIndex fm - 1))) * 512 :: 64 word"
    have "unat ?p < 2 ^ 41" using auto_position[OF "2.prems"(1)] False by simp
    then have "unat sz + unat ?p < 2 ^ 64" using s by simp
    from add_inv[OF "2.prems"(1) this] show ?thesis using False by (simp add: addPartition_def Let_def)
  qed
  then show ?case using "2.IH" "2.prems"(2) by simp
next
  case (3 built t sz pos rs fm)
  have "unat sz + unat pos < 2 ^ 64" using "3.prems"(2) by (simp add: no_overflow_def)
  from add_inv[OF "3.prems"(1) this, of built t] show ?case using "3.IH" "3.prems"(2) by simp
qed simp

lemma partitions_ordered:
  assumes "mbr_inv fm" "i < j" "j < partitionIndex fm"
  shows "p_start fm i + p_size fm i \<le> p_start fm j"
  using assms(2,3)
proof (induction j)
  case (Suc j)
  have s: "p_start fm j + p_size fm j \<le> p_start fm (Suc j)"
    using assms(1) Suc.prems(2) unfolding mbr_inv_def by (metis diff_Suc_1 zero_less_Suc)
  show ?case
  proof (cases "i = j")
    case False
    then have "p_start fm i + p_size fm i \<le> p_start fm j" using Suc by simp
    then show ?thesis using s by simp
  qed (use s in simp)
qed simp

definition partition_of :: "MBRFormatter \<Rightarrow> nat \<Rightarrow> Partition" where
  "partition_of fm i = Partition_new (ucast (startingLBA (partitionRecords (header fm) ! i)))
     (ucast (sizeInLBA (partitionRecords (header fm) ! i)))"

lemma partition_of_bytes:
  assumes "mbr_inv fm" "i < partitionIndex fm"
  shows "unat (startSectorByte (partition_of fm i)) = p_start fm i * 512" "unat (sectorsCountBytes (partition_of fm i)) = p_size fm i * 512"
    "(p_start fm i + p_size fm i) * 512 \<le> unat (deviceSize fm)" "unat (deviceSize fm) < 2 ^ 41" "1 \<le> p_start fm i"
proof -
  show d: "(p_start fm i + p_size fm i) * 512 \<le> unat (deviceSize fm)" "unat (deviceSize fm) < 2 ^ 41" "1 \<le> p_start fm i"
    using assms unfolding mbr_inv_def by blast+
  then have "p_start fm i * 512 < 2 ^ 64" "p_size fm i * 512 < 2 ^ 64" by (simp_all add: add_mult_distrib)
  then show "unat (startSectorByte (partition_of fm i)) = p_start fm i * 512" "unat (sectorsCountBytes (partition_of fm i)) = p_size fm i * 512"
    by (simp_all add: partition_of_def Partition_new_def unat_word_ariths ucast_up p_start_def p_size_def)
qed

lemma access_within:
  assumes "mbr_inv fm" "i < partitionIndex fm" "partition_access (partition_of fm i) n w = Some off"
  shows "p_start fm i * 512 \<le> unat off" "unat off + unat n \<le> (p_start fm i + p_size fm i) * 512"
proof -
  note b = partition_of_bytes[OF assms(1,2)]
  have w: "\<not> sectorsCountBytes (partition_of fm i) < w" "\<not> sectorsCountBytes (partition_of fm i) < w + ucast n"
    and off: "off = startSectorByte (partition_of fm i) + w"
    using assms(3) by (auto simp: partition_access_def split: if_splits)
  have n: "unat n < 2 ^ LENGTH(32)" by (rule unsigned_less)
  have wl: "unat w \<le> p_size fm i * 512" using w(1) b(2) by (simp add: word_less_nat_alt)
  have small: "(p_start fm i + p_size fm i) * 512 < 2 ^ 41" using b(3,4) by (rule le_less_trans)
  have "unat (w + ucast n) = unat w + unat n" using wl small n by (simp add: unat_word_ariths ucast_up)
  then have wn: "unat w + unat n \<le> p_size fm i * 512" using w(2) b(2) by (simp add: word_less_nat_alt)
  have "unat off = p_start fm i * 512 + unat w" using off b(1) wl small by (simp add: unat_word_ariths)
  then show "p_start fm i * 512 \<le> unat off" "unat off + unat n \<le> (p_start fm i + p_size fm i) * 512" using wn by simp_all
qed

text \<open>The results of successive calls of \<open>getNextEntry\<close>.\<close>

fun next_entries :: "nat \<Rightarrow> DevicePartitionManager \<Rightarrow> (Partition option \<times> PartitionType) list" where
  "next_entries 0 m = []"
| "next_entries (Suc n) m = (let (e, m') = getNextEntry m in e # next_entries n m')"

definition entry_of :: "MBRFormatter \<Rightarrow> nat \<Rightarrow> Partition option \<times> PartitionType" where
  "entry_of fm k = (if k < partitionIndex fm
     then (Some (partition_of fm k), getPartitionTypeFromOSType (getOsType (partitionRecords (header fm) ! k)))
     else (None, NONE))"

lemma next_entries_mbr:
  assumes "mbr_inv fm" "table_type m = MBR" "mbrReader m = Some \<lparr>mbr_header = header fm, currEntryIdx = min k 4\<rparr>"
  shows "next_entries n m = map (entry_of fm) [k..<k + n]"
  using assms(2,3)
proof (induction n arbitrary: k m)
  case (Suc n)
  have i: "partitionIndex fm \<le> 4" using assms(1) by (simp add: mbr_inv_def)
  let ?m = "m\<lparr>mbrReader := Some \<lparr>mbr_header = header fm, currEntryIdx = min (Suc k) 4\<rparr>\<rparr>"
  have "getNextEntry m = (entry_of fm k, ?m)"
  proof (cases "k < 4")
    case True
    have "k < partitionIndex fm \<Longrightarrow> getOsType (partitionRecords (header fm) ! k) \<noteq> 0"
      using assms(1) by (force simp: mbr_inv_def)
    moreover have "\<not> k < partitionIndex fm \<Longrightarrow> rec_isEmpty (partitionRecords (header fm) ! k)"
      using assms(1) True by (simp add: mbr_inv_def)
    ultimately show ?thesis using Suc.prems True
      by (auto simp: getNextEntry_def mbr_getNextPartitionEntry_def NUM_OF_PARTITIONS_def entry_of_def partition_of_def
          rec_isEmpty_def getOsType_def Let_def)
  next
    case False
    then show ?thesis using Suc.prems i
      by (simp add: getNextEntry_def mbr_getNextPartitionEntry_def NUM_OF_PARTITIONS_def entry_of_def rec_isEmpty_def createEmpty_def Let_def)
  qed
  then show ?case using Suc.IH[of ?m "Suc k"] Suc.prems(1) by (simp add: upt_conv_Cons del: upt_Suc)
qed simp

lemma load_mbr:
  assumes "mbr_inv fm"
  shows "loadPartitionTable mem (Some (Some (header fm), dev)) m =
    Inr (MBR, m\<lparr>mbrReader := Some \<lparr>mbr_header = header fm, currEntryIdx = 0\<rparr>, table_type := MBR\<rparr>)"
proof -
  have "getOsType (partitionRecords (header fm) ! 0) \<noteq> 0xee"
  proof (cases "0 < partitionIndex fm")
    case True
    then have "getOsType (partitionRecords (header fm) ! 0) \<in> {0x07, 0x0c, 0x7f}" using assms by (simp add: mbr_inv_def)
    then show ?thesis by auto
  next
    case False
    then have "rec_isEmpty (partitionRecords (header fm) ! 0)" using assms by (simp add: mbr_inv_def)
    then show ?thesis by (simp add: rec_isEmpty_def getOsType_def)
  qed
  then show ?thesis by (simp add: loadPartitionTable_def readMBR_def isProtectiveMBR_def getOsType_def)
qed

section \<open>The checksums and the entries of a GPT table\<close>

text \<open>A device whose reads of a block succeed and are complete, and the bytes of the partition table that a header describes.\<close>

definition full_blocks :: "device \<Rightarrow> bool" where
  "full_blocks dev \<longleftrightarrow> (\<forall>w. \<exists>b. dev 512 w = Some b \<and> length b = 512)"

definition blk :: "device \<Rightarrow> 64 word \<Rightarrow> nat \<Rightarrow> bytes" where
  "blk dev lba i = the (dev 512 ((lba + of_nat i) * 512))"

definition gpt_table :: "device \<Rightarrow> bytes \<Rightarrow> bytes" where
  "gpt_table dev h = (let n = unat (numberOfPartitionEntries h * partitionEntrySize h) in
     take n (concat (map (blk dev (partitionEntryTableLBA h)) [0..<Suc (n div 512)])))"

lemma full_blk:
  assumes "full_blocks dev"
  shows "dev 512 ((lba + of_nat i) * 512) = Some (blk dev lba i)" "length (blk dev lba i) = 512"
proof -
  obtain b where "dev 512 ((lba + of_nat i) * 512) = Some b" "length b = 512" using assms unfolding full_blocks_def by blast
  then show "dev 512 ((lba + of_nat i) * 512) = Some (blk dev lba i)" "length (blk dev lba i) = 512" by (simp_all add: blk_def)
qed

lemma read_into_full: "length buff \<le> length b \<Longrightarrow> read_into buff b = b"
  by (simp add: read_into_def)

lemma table_crc_blocks:
  assumes f: "full_blocks dev"
  shows "length buff = 512 \<Longrightarrow> table_crc dev lba n remaining buff calc =
    addBytes (take remaining (concat (map (blk dev lba) [n..<n + Suc (remaining div 512)]))) calc"
proof (induction remaining arbitrary: n buff calc rule: less_induct)
  case (less remaining)
  note b = full_blk[OF f, of lba n]
  have rd: "read_into buff (blk dev lba n) = blk dev lba n" using less.prems b(2) by (simp add: read_into_full)
  have bs: "concat (map (blk dev lba) [n..<n + Suc k]) = blk dev lba n @ concat (map (blk dev lba) [Suc n..<n + Suc k])" for k
    by (simp add: upt_conv_Cons del: upt_Suc)
  show ?case
  proof (cases "remaining > 512")
    case True
    then have q: "Suc n + Suc ((remaining - 512) div 512) = n + Suc (remaining div 512)" by (simp add: le_div_geq)
    have "table_crc dev lba n remaining buff calc =
        table_crc dev lba (n + 1) (remaining - 512) (blk dev lba n) (addBytes (blk dev lba n) calc)"
      using True b rd by (subst table_crc.simps) (simp add: Let_def)
    also have "\<dots> = addBytes (take (remaining - 512) (concat (map (blk dev lba) [Suc n..<n + Suc (remaining div 512)])))
        (addBytes (blk dev lba n) calc)"
      using less.IH[of "remaining - 512" "blk dev lba n" "Suc n" "addBytes (blk dev lba n) calc"] True b(2) by (simp only: q) simp
    also have "\<dots> = addBytes (take remaining (concat (map (blk dev lba) [n..<n + Suc (remaining div 512)]))) calc"
      using True b(2) by (simp add: addBytes_append bs del: upt_Suc add_Suc_right)
    finally show ?thesis .
  next
    case False
    then have "table_crc dev lba n remaining buff calc = addBytes (take remaining (blk dev lba n)) calc"
      using b rd by (subst table_crc.simps) (simp add: Let_def)
    then show ?thesis using False b(2) by (simp add: bs del: upt_Suc add_Suc_right)
  qed
qed

lemma validate_table:
  assumes "full_blocks dev" "length buff = 512"
  shows "validatePartitionTableCRC dev buff h \<longleftrightarrow>
    finalizeCRC32 (addBytes (gpt_table dev h) CRC32Calculator_new) = partitionEntryTableCRC32 h"
  using table_crc_blocks[OF assms, of "partitionEntryTableLBA h" 0] by (simp add: validatePartitionTableCRC_def gpt_table_def Let_def)

lemma load_gpt:
  assumes "loadPartitionTable mem (Some (block0, dev)) m = Inr (GPT, m')" "full_blocks dev"
  defines "p \<equiv> the (dev 512 512)"
  shows "take 8 p = GPT_SIGNATURE" "myLBA p = 1" "header_crc p = Inr (headerCRC32 p)" "validatePartitionTableCRC dev (mem 0) p"
    "gptReader m' = Some (GPTTableReader_new dev (partitionEntryTableLBA p) (partitionEntrySize p) (numberOfPartitionEntries p) (mem 2))"
    "table_type m' = GPT"
proof -
  obtain b where r: "readGPT block0 dev True = Inr \<lparr>gpt_device = dev, primaryHeader = p, backupHeader = b\<rparr>"
  proof -
    obtain b where "dev 512 (alternateLBA p * 512) = Some b" using assms(2) unfolding full_blocks_def by blast
    moreover obtain q where "dev 512 512 = Some q" "length q = 512" using assms(2) unfolding full_blocks_def by blast
    ultimately show thesis using that by (simp add: readGPT_def p_def read_into_full)
  qed
  let ?g = "\<lparr>gpt_device = dev, primaryHeader = p, backupHeader = b\<rparr>"
  have c: "checkGPT mem ?g = Inr GptOk"
    and m: "gptReader m' = Some (getPrimaryPartitionTableReader (mem 2) ?g)" and t: "table_type m' = GPT"
    using assms(1) r by (auto simp: loadPartitionTable_def Let_def rbind_def split: option.splits if_splits sum.splits)
  show "gptReader m' = Some (GPTTableReader_new dev (partitionEntryTableLBA p) (partitionEntrySize p) (numberOfPartitionEntries p) (mem 2))"
    "table_type m' = GPT" using m t by (simp_all add: getPrimaryPartitionTableReader_def)
  show "take 8 p = GPT_SIGNATURE" "myLBA p = 1" "header_crc p = Inr (headerCRC32 p)" "validatePartitionTableCRC dev (mem 0) p"
    using c by (auto simp: checkGPT_def Let_def rbind_def split: if_splits sum.splits)
qed

text \<open>The results of successive calls of \<open>gpt_getNextPartitionEntry\<close>, and entry \<open>k\<close> of a table with entries of 128 bytes.\<close>

fun gpt_entries :: "nat \<Rightarrow> GPTTableReader \<Rightarrow> (ReaderResult + bytes) list" where
  "gpt_entries 0 t = []"
| "gpt_entries (Suc n) t = (let (e, t') = gpt_getNextPartitionEntry t in e # gpt_entries n t')"

definition gpt_entry :: "device \<Rightarrow> 64 word \<Rightarrow> nat \<Rightarrow> bytes" where
  "gpt_entry dev lba k = take 128 (drop (128 * (k mod 4)) (blk dev lba (k div 4)))"

definition reader_at :: "device \<Rightarrow> 64 word \<Rightarrow> 32 word \<Rightarrow> nat \<Rightarrow> GPTTableReader \<Rightarrow> bool" where
  "reader_at dev lba N k t \<longleftrightarrow> tbl_device t = dev \<and> partitionTableLBA t = lba \<and> tbl_entrySize t = 128 \<and> tbl_entries t = N
     \<and> currentPartitionIndexWithinBlock t = k mod 4 \<and> currentBlockIndex t = of_nat (k div 4)
     \<and> unat (currentPartitionIndex t) = 2 * k
     \<and> length (tbl_buffer t) = 512 \<and> (k mod 4 \<noteq> 0 \<longrightarrow> tbl_buffer t = blk dev lba (k div 4))"

lemma reader_step:
  assumes f: "full_blocks dev" and r: "reader_at dev lba N k t" and k: "2 * k < unat N" and N: "unat N < 2 ^ 32 - 1"
  obtains t' where "gpt_getNextPartitionEntry t = (Inr (gpt_entry dev lba k), t')" "reader_at dev lba N (Suc k) t'"
proof -
  note b = full_blk[OF f, of lba "k div 4"]
  have i: "\<not> tbl_entries t \<le> currentPartitionIndex t" using r k by (simp add: reader_at_def word_le_nat_alt)
  have j: "unat (currentPartitionIndex t + 1 + 1) = 2 * Suc k"
    using r k N by (simp add: reader_at_def unat_word_ariths)
  have s: "Suc k mod 4 = (if k mod 4 + 1 = 4 then 0 else k mod 4 + 1)" "Suc k div 4 = (if k mod 4 + 1 = 4 then k div 4 + 1 else k div 4)"
    by (auto simp: mod_Suc div_Suc)
  let ?t1 = "t\<lparr>tbl_buffer := blk dev lba (k div 4)\<rparr>"
  let ?t2 = "if k mod 4 + 1 = 4 then ?t1\<lparr>currentBlockIndex := currentBlockIndex t + 1, currentPartitionIndexWithinBlock := 0\<rparr>
     else ?t1\<lparr>currentPartitionIndexWithinBlock := k mod 4 + 1\<rparr>"
  let ?t3 = "?t2\<lparr>currentPartitionIndex := currentPartitionIndex t + 1 + 1\<rparr>"
  have same: "t\<lparr>tbl_buffer := blk dev lba (k div 4)\<rparr> = t" if "k mod 4 \<noteq> 0" using r that by (simp add: reader_at_def)
  have rd: "(if currentPartitionIndexWithinBlock t = 0
      then map_option (\<lambda>b. t\<lparr>tbl_buffer := read_into (tbl_buffer t) b\<rparr>) (tbl_device t 512 ((partitionTableLBA t + currentBlockIndex t) * 512))
      else Some t) = Some ?t1"
    using r b same by (auto simp: reader_at_def read_into_full)
  have "loadPartitonEntry t = (Inr (gpt_entry dev lba k), ?t2\<lparr>currentPartitionIndex := currentPartitionIndex t + 1\<rparr>)"
    using r i unfolding loadPartitonEntry_def rd by (simp add: Let_def reader_at_def gpt_entry_def)
  then have "gpt_getNextPartitionEntry t = (Inr (gpt_entry dev lba k), ?t3)"
    using i by (simp add: gpt_getNextPartitionEntry_def)
  moreover have "reader_at dev lba N (Suc k) ?t3"
    using r b(2) j s by (simp add: reader_at_def)
  ultimately show thesis by (rule that)
qed

lemma reader_end:
  assumes "reader_at dev lba N k t" "\<not> 2 * k < unat N"
  shows "gpt_entries n t = replicate n (Inl ErrorExceededMaxPartitions)"
proof (induction n)
  case (Suc n)
  have "tbl_entries t \<le> currentPartitionIndex t" using assms by (simp add: reader_at_def word_le_nat_alt)
  then show ?case using Suc by (simp add: gpt_getNextPartitionEntry_def)
qed simp

lemma reader_entries:
  assumes "full_blocks dev" "unat N < 2 ^ 32 - 1"
  shows "reader_at dev lba N k t \<Longrightarrow> gpt_entries n t =
    map (\<lambda>k. if 2 * k < unat N then Inr (gpt_entry dev lba k) else Inl ErrorExceededMaxPartitions) [k..<k + n]"
proof (induction n arbitrary: k t)
  case (Suc n)
  show ?case
  proof (cases "2 * k < unat N")
    case True
    obtain t' where t': "gpt_getNextPartitionEntry t = (Inr (gpt_entry dev lba k), t')" "reader_at dev lba N (Suc k) t'"
      by (rule reader_step[OF assms(1) Suc.prems True assms(2)])
    show ?thesis using t'(1) Suc.IH[OF t'(2)] True by (simp add: upt_conv_Cons del: upt_Suc)
  next
    case False
    have "gpt_entries (Suc n) t = map (\<lambda>_. Inl ErrorExceededMaxPartitions) [k..<k + Suc n]"
      using reader_end[OF Suc.prems False] by (simp add: map_replicate_const del: upt_Suc gpt_entries.simps)
    also have "\<dots> = map (\<lambda>k. if 2 * k < unat N then Inr (gpt_entry dev lba k) else Inl ErrorExceededMaxPartitions) [k..<k + Suc n]"
      using False by (intro map_cong refl) auto
    finally show ?thesis .
  qed
qed simp

text \<open>A sample device of six blocks with one partition of eight sectors; \<open>x\<close> is the first byte of its primary table.\<close>

definition primary_bytes :: bytes where
  "primary_bytes = [69, 70, 73, 32, 80, 65, 82, 84, 0, 0, 1, 0, 92, 0, 0, 0, 35, 90, 53, 82, 0, 0, 0, 0, 1, 0, 0, 0, 0,
     0, 0, 0, 5, 0, 0, 0, 0, 0, 0, 0, 0, 0, 0, 0, 0, 0, 0, 0, 0, 0, 0, 0, 0, 0, 0, 0, 0, 0, 0, 0, 0, 0, 0,
     0, 0, 0, 0, 0, 0, 0, 0, 0, 2, 0, 0, 0, 0, 0, 0, 0, 1, 0, 0, 0, 128, 0, 0, 0, 39, 93, 153, 106]"

definition backup_bytes :: bytes where
  "backup_bytes = [69, 70, 73, 32, 80, 65, 82, 84, 0, 0, 1, 0, 92, 0, 0, 0, 129, 151, 61, 4, 0, 0, 0, 0, 5, 0, 0, 0, 0,
     0, 0, 0, 1, 0, 0, 0, 0, 0, 0, 0, 0, 0, 0, 0, 0, 0, 0, 0, 0, 0, 0, 0, 0, 0, 0, 0, 0, 0, 0, 0, 0, 0, 0,
     0, 0, 0, 0, 0, 0, 0, 0, 0, 4, 0, 0, 0, 0, 0, 0, 0, 1, 0, 0, 0, 128, 0, 0, 0, 39, 93, 153, 106]"

definition table_bytes :: bytes where
  "table_bytes = [1, 1, 1, 1, 1, 1, 1, 1, 1, 1, 1, 1, 1, 1, 1, 0, 0, 0, 0, 0, 0, 0, 0, 0, 0, 0, 0, 0, 0, 0, 0, 8,
     0, 0, 0, 0, 0, 0, 0, 15, 0, 0, 0, 0, 0, 0, 0, 0, 0, 0, 0, 0, 0, 0, 0, 0, 0, 0, 0, 0, 0, 0, 0, 0,
     0, 0, 0, 0, 0, 0, 0, 0, 0, 0, 0, 0, 0, 0, 0, 0, 0, 0, 0, 0, 0, 0, 0, 0, 0, 0, 0, 0, 0, 0, 0, 0,
     0, 0, 0, 0, 0, 0, 0, 0, 0, 0, 0, 0, 0, 0, 0, 0, 0, 0, 0, 0, 0, 0, 0, 0, 0, 0, 0, 0, 0, 0, 0]"

definition gpt_sample :: "8 word \<Rightarrow> device" where
  "gpt_sample x n w =
    (if n \<noteq> 512 then None else Some (
     if w = 512 then primary_bytes @ replicate 420 0
     else if w = 2560 then backup_bytes @ replicate 420 0
     else if w = 1024 then (x # table_bytes) @ replicate 384 0
     else if w = 2048 then (1 # table_bytes) @ replicate 384 0
     else replicate 512 0))"

definition protective :: MBRHeader where
  "protective = \<lparr>uniqueMBRSignature = 0, partitionRecords = createEmpty\<lparr>osTypeAndEndingCHS := [0xee, 0, 0, 0]\<rparr> # replicate 3 createEmpty,
     mbrSignature = MBR_SIGNATURE\<rparr>"

lemma sample_lengths: "length primary_bytes = 92" "length backup_bytes = 92" "length table_bytes = 127"
  by (simp_all add: primary_bytes_def backup_bytes_def table_bytes_def)

lemma gpt_sample_full: "full_blocks (gpt_sample x)"
  by (simp add: full_blocks_def gpt_sample_def sample_lengths)

lemma field_prefix: "off + n \<le> length h \<Longrightarrow> field off n (h @ r) = field off n h"
  by (simp add: field_def)

lemma sample_fields:
  "headerSize (primary_bytes @ r) = 92" "headerCRC32 (primary_bytes @ r) = 0x52355a23" "myLBA (primary_bytes @ r) = 1"
  "alternateLBA (primary_bytes @ r) = 5" "partitionEntryTableLBA (primary_bytes @ r) = 2" "numberOfPartitionEntries (primary_bytes @ r) = 1"
  "partitionEntrySize (primary_bytes @ r) = 128" "partitionEntryTableCRC32 (primary_bytes @ r) = 0x6a995d27"
  "headerSize (backup_bytes @ r) = 92" "headerCRC32 (backup_bytes @ r) = 0x043d9781" "myLBA (backup_bytes @ r) = 5"
  "alternateLBA (backup_bytes @ r) = 1" "partitionEntryTableLBA (backup_bytes @ r) = 4" "numberOfPartitionEntries (backup_bytes @ r) = 1"
  "partitionEntrySize (backup_bytes @ r) = 128" "partitionEntryTableCRC32 (backup_bytes @ r) = 0x6a995d27"
  by (simp_all add: headerSize_def headerCRC32_def myLBA_def alternateLBA_def partitionEntryTableLBA_def numberOfPartitionEntries_def
      partitionEntrySize_def partitionEntryTableCRC32_def field_prefix sample_lengths)
    (simp_all add: field_def primary_bytes_def backup_bytes_def)

lemma crc32_byte_steps:
  "crc32_byte c b = crc32_bit (crc32_bit (crc32_bit (crc32_bit (crc32_bit (crc32_bit (crc32_bit (crc32_bit (c XOR ucast b))))))))"
  by (simp add: crc32_byte_def eval_nat_numeral)

lemmas crc_eval = finalizeCRC32_def addBytes_def CRC32Calculator_new_def crc32_byte_steps crc32_bit_def

lemma sample_header_crc:
  "header_crc (primary_bytes @ replicate 420 0) = Inr 0x52355a23" "header_crc (backup_bytes @ replicate 420 0) = Inr 0x043d9781"
proof -
  have "finalizeCRC32 (addBytes (take 16 primary_bytes @ [0, 0, 0, 0] @ drop 20 primary_bytes) CRC32Calculator_new) = 0x52355a23"
    "finalizeCRC32 (addBytes (take 16 backup_bytes @ [0, 0, 0, 0] @ drop 20 backup_bytes) CRC32Calculator_new) = 0x043d9781"
    by (simp_all add: primary_bytes_def backup_bytes_def crc_eval)
  then show "header_crc (primary_bytes @ replicate 420 0) = Inr 0x52355a23" "header_crc (backup_bytes @ replicate 420 0) = Inr 0x043d9781"
    by (simp_all add: header_crc_def sample_fields sample_lengths Let_def)
qed

lemma sample_table_crc: "finalizeCRC32 (addBytes (1 # table_bytes) CRC32Calculator_new) = 0x6a995d27"
  by (simp add: table_bytes_def crc_eval)

lemma sample_table:
  "gpt_table (gpt_sample x) (primary_bytes @ r) = x # table_bytes" "gpt_table (gpt_sample x) (backup_bytes @ r) = 1 # table_bytes"
  by (simp_all add: gpt_table_def sample_fields blk_def gpt_sample_def sample_lengths)

lemma sample_load:
  "\<exists>m'. loadPartitionTable (\<lambda>_. replicate 512 0) (Some (Some protective, gpt_sample 1)) DevicePartitionManager_new = Inr (GPT, m')"
proof -
  let ?p = "primary_bytes @ replicate 420 0" let ?b = "backup_bytes @ replicate 420 0"
  let ?g = "\<lparr>gpt_device = gpt_sample 1, primaryHeader = ?p, backupHeader = ?b\<rparr>"
  have r: "readGPT (Some protective) (gpt_sample 1) True = Inr ?g"
    by (simp add: readGPT_def gpt_sample_def read_into_full sample_lengths sample_fields)
  have "validatePartitionTableCRC (gpt_sample 1) (replicate 512 0) ?p" "validatePartitionTableCRC (gpt_sample 1) (replicate 512 0) ?b"
    using sample_table_crc by (simp_all add: validate_table[OF gpt_sample_full] sample_table sample_fields)
  moreover have "take 8 ?p = GPT_SIGNATURE" "take 8 ?b = GPT_SIGNATURE"
    by (simp_all add: primary_bytes_def backup_bytes_def GPT_SIGNATURE_def)
  ultimately have "checkGPT (\<lambda>_. replicate 512 0) ?g = Inr GptOk"
    by (simp add: checkGPT_def Let_def sample_fields sample_header_crc)
  then show ?thesis using r by (simp add: loadPartitionTable_def readMBR_def isProtectiveMBR_def protective_def Let_def)
qed

section \<open>Correctness\<close>





text \<open>With entries of 128 bytes, call \<open>k\<close> of the table reader returns entry \<open>k\<close> of the table, but the calls end after half
  of the entries: \<^verbatim>\<open>getNextPartitionEntry\<close> and \<^verbatim>\<open>loadPartitonEntry\<close> both advance the index that is compared with their number.\<close>

theorem gpt_reader_stops_half_way:
  assumes "full_blocks dev" "length mem = 512" "unat N < 2 ^ 32 - 1"
  shows "gpt_entries n (GPTTableReader_new dev lba 128 N mem) =
    map (\<lambda>k. if 2 * k < unat N then Inr (gpt_entry dev lba k) else Inl ErrorExceededMaxPartitions) [0..<n]"
  using reader_entries[OF assms(1,3), of lba 0 "GPTTableReader_new dev lba 128 N mem" n] assms(2)
  by (simp add: reader_at_def GPTTableReader_new_def)

end
