(* ===== verification/Spec2Isabelle.thy ===== *)
theory Spec2Isabelle
  imports Miosix_Prelude Intrusive_List Sched_Queues Ring_Queues Kernel_State Scheduler_Interface Priority_Scheduler
    Thread_Ops Sync_Mutex Mutex_Inheritance Mutex_Correct Sync_Semaphore EDF_Scheduler
    Time_Conversion Unicode_Util Process_Pool Crc_Util String_Part Path_Resolution File_Table Pipe_File
    Partition_Tables
begin

text \<open>
  \<^bold>\<open>The Miosix kernel: a verification development.\<close>

  Miosix is a real-time kernel for microcontrollers, written in C++. This library models the parts
  of \<^verbatim>\<open>src/miosix\<close> whose behaviour is determined by their own code, as executable functions on records that
  have the fields of the C++ classes, and proves what makes each of them correct. File names below
  are relative to \<^verbatim>\<open>src/miosix\<close>.

  \<^bold>\<open>The parts and how they interact.\<close> Threads are kept by one of two schedulers in lists of intrusive
  items. The timer interrupt takes threads out of a list of sleeping threads, ordered by time, and
  makes them ready. The synchronisation primitives keep blocked threads in wait queues and call the
  thread operations to block and wake them; mutexes raise the priority of their owner through
  the scheduler. Queues between interrupt handlers and threads call the wakeup of the waiting thread.
  Time points are converted between timer ticks and nanoseconds. Processes get their memory from a
  pool. System calls on files go through a table of file descriptors and the resolution of paths over the mounted
  filesystems; a pipe is a file. The last group are the conversions and checksums of \<^verbatim>\<open>util\<close>.

  \<^bold>\<open>Conventions.\<close> An operation that may end in \<^verbatim>\<open>errorHandler\<close> (which never returns) has type
  \<^typ>\<open>'a result\<close>, a sum whose left side is the error of \<^verbatim>\<open>kernel/error.h\<close>. A loop that could run forever
  on corrupt data is a \<^verbatim>\<open>partial_function\<close> into \<^typ>\<open>'a run\<close>, where \<^term>\<open>None\<close> means that it does not
  return; the properties prove that it returns. Every other loop is a recursion with
  a termination proof, so no definition has a fuel argument. Operations that run
  with interrupts disabled, the kernel paused or a mutex held are atomic: one function call is the critical section. An
  operation that blocks is cut at the context switch, in one definition up to it and one that
  resumes after it, so that anything other threads do in between is a sequence of calls between the two.
  Machine integers are words where the code relies on wrap-around (theories Time_Conversion, Crc_Util, the
  bitmap of Process_Pool, the flags of threads) and mathematical integers where the code never reaches the limits.
  The compile-time options (number of cores, affinity, extra checks) are fields of the record
  \<^typ>\<open>config\<close> and the theorems hold for all their values unless a hypothesis says otherwise.

  \<^bold>\<open>Theories.\<close>

  \<^item> Miosix_Prelude: the result types, the configuration, the error codes, and shared lemmas on lists,
    results and loops.

  \<^item> Intrusive_List models \<^verbatim>\<open>kernel/intrusive.h\<close> and \<^verbatim>\<open>kernel/intrusive.cpp\<close>: a heap of items with \<^verbatim>\<open>prev\<close> and \<^verbatim>\<open>next\<close> and
    the list object. Each operation refines the operation on the represented sequence and writes no
    other item; the optional checks detect misuse. The locale \<^verbatim>\<open>deque\<close> states the contract of the queues built on it.

  \<^item> Sched_Queues models \<^verbatim>\<open>kernel/sched_data_structures.h\<close>: \<^verbatim>\<open>PriorityQueue\<close>, \<^verbatim>\<open>TimeSortedQueue\<close> and \<^verbatim>\<open>FifoQueue\<close> are
    interpretations of the locale \<^verbatim>\<open>wait_queue\<close>, an order of priorities with first-in first-out among equals.

  \<^item> Ring_Queues models \<^verbatim>\<open>kernel/queue.h\<close>: the three ring buffers interpret the locale \<^verbatim>\<open>bounded_fifo\<close>, and the
    blocking queue is a step relation of one producer and one consumer in which no wakeup is lost.

  \<^item> Kernel_State: the fields of \<^verbatim>\<open>class Thread\<close> (\<^verbatim>\<open>kernel/thread.h\<close>), the flag bits, and the variables of the kernel.

  \<^item> Scheduler_Interface: the locale \<^verbatim>\<open>basic_scheduler\<close>, what the kernel relies on in a scheduler (\<^verbatim>\<open>kernel/scheduler/scheduler.h\<close>).

  \<^item> Priority_Scheduler models \<^verbatim>\<open>kernel/scheduler/priority\<close> in its single core, multicore and affinity
    versions: the invariant of the thread lists, that the highest ready priority runs, that the requests between
    cores come to an end with no priority inversion left, and the round-robin order.

  \<^item> EDF_Scheduler models \<^verbatim>\<open>kernel/scheduler/edf\<close>: the invariant, and that the earliest deadline runs.

  \<^item> Thread_Ops models the operations of \<^verbatim>\<open>class Thread\<close> in \<^verbatim>\<open>kernel/thread.cpp\<close>, the sleeping list, the timer
    interrupt and the pause kernel lock of \<^verbatim>\<open>kernel/lock.h\<close>: wakeup, sleep, timed wait, exit, detach, join.

  \<^item> Sync_Mutex models the wait queues, \<^verbatim>\<open>FastMutex\<close>, \<^verbatim>\<open>Mutex\<close> and \<^verbatim>\<open>ConditionVariable\<close> of \<^verbatim>\<open>kernel/sync.h\<close> and \<^verbatim>\<open>kernel/sync.cpp\<close>;
    Mutex_Inheritance states the invariant of priority inheritance and proves that raising priorities along
    the chain of owners ends and restores it; Mutex_Correct proves that every operation keeps it.

  \<^item> Sync_Semaphore models \<^verbatim>\<open>Semaphore\<close> of the same files and its first-come first-served order.

  \<^item> Time_Conversion models \<^verbatim>\<open>kernel/timeconversion.h\<close> and \<^verbatim>\<open>kernel/timeconversion.cpp\<close> on 64 and 32 bit words: the
    agreement of the three multiplications, the bounds of the errors, and the end of the optimisation.

  \<^item> Process_Pool models \<^verbatim>\<open>kernel/process_pool.h\<close> and \<^verbatim>\<open>kernel/process_pool.cpp\<close>: alignment, disjointness and release of blocks.

  \<^item> Unicode_Util models \<^verbatim>\<open>util/unicode.h\<close> and \<^verbatim>\<open>util/unicode.cpp\<close>: round trips, validation, counting.

  \<^item> Crc_Util models \<^verbatim>\<open>util/crc16.cpp\<close> and \<^verbatim>\<open>util/crc32.h\<close>; both registers interpret the locale \<^verbatim>\<open>linear_register\<close>.

  \<^item> String_Part models the in-place substrings of \<^verbatim>\<open>filesystem/stringpart.cpp\<close>, which write a nul character into the
    underlying string and put the replaced one back, and the walk over components of \<^verbatim>\<open>filesystem/path.cpp\<close>.

  \<^item> Path_Resolution models \<^verbatim>\<open>class PathResolution\<close> of \<^verbatim>\<open>filesystem/file_access.cpp\<close>, the in-place resolution of dots, links and
    mountpoints: its result is in normal form and equals a specification on lists of components.

  \<^item> File_Table models \<^verbatim>\<open>FileDescriptorTable\<close> and \<^verbatim>\<open>FilesystemManager\<close> of the same file: the type invariant of the table, the
    allocation of descriptors, the current directory, and mounting and unmounting.

  \<^item> Pipe_File models \<^verbatim>\<open>filesystem/pipe\<close>: a stream of bytes between any number of readers and writers.

  \<^item> Partition_Tables models \<^verbatim>\<open>filesystem/partition\<close>: the formatter and the reader of MBR tables, the reader of GPT tables with its
    checksums, and the devices of partitions. Partitions made by the formatter never share a byte, the reader lists them
    back, and a damaged GPT table is refused.

  \<^item> Spec2Isabelle: interleavings of the scheduler and of wakeups, for both schedulers behind the common interface.

  \<^bold>\<open>Bounds.\<close> The only numeric bounds in the hypotheses are those of the code: priorities within
  \<^verbatim>\<open>NUM_PRIORITIES\<close>, core numbers below \<^verbatim>\<open>CPU_NUM_CORES\<close>, times that do not overflow 64 bits, code points up to
  0x10ffff, pool sizes that are multiples of the block size, paths up to \<^verbatim>\<open>PATH_MAX\<close>, at most one symbolic link per path.

  \<^bold>\<open>Not modelled\<close>, and why:

  \<^item> \<^verbatim>\<open>arch\<close>, \<^verbatim>\<open>interfaces\<close>, \<^verbatim>\<open>interfaces_private\<close>, \<^verbatim>\<open>kernel/boot.cpp\<close>: register accesses, assembly, linker symbols and
    vendor headers, whose meaning is the hardware and not the text of the program.

  \<^item> The hardware spinlocks of \<^verbatim>\<open>kernel/lock.h\<close>: they make the modelled critical sections atomic, which is an assumption here.

  \<^item> \<^verbatim>\<open>filesystem/fatfs\<close>, \<^verbatim>\<open>filesystem/littlefs\<close> and the classes that wrap them in \<^verbatim>\<open>filesystem/fat32\<close> and \<^verbatim>\<open>filesystem/exfat\<close>: vendored libraries and calls of them.

  \<^item> The parts of \<^verbatim>\<open>filesystem/file_access.cpp\<close> under \<^verbatim>\<open>WITH_POSIX_PERMISSIONS\<close>, which is off by default, and \<^verbatim>\<open>MountHelper\<close>, which builds the
    filesystems at boot.

  \<^item> \<^verbatim>\<open>filesystem/devfs\<close>, \<^verbatim>\<open>filesystem/romfs\<close>, \<^verbatim>\<open>filesystem/mountpointfs\<close>, \<^verbatim>\<open>filesystem/console\<close>, \<^verbatim>\<open>filesystem/automounter\<close>: they are
    reached through virtual functions of devices and filesystems; a filesystem is a parameter of the model.

  \<^item> \<^verbatim>\<open>kernel/process.cpp\<close>, \<^verbatim>\<open>kernel/elf_program.cpp\<close>: the loader and the system call dispatch work on raw memory of
    the process, the memory protection unit and the userspace context switch.

  \<^item> \<^verbatim>\<open>kernel/scheduler/control\<close>: a feedback controller in floating and fixed point whose promises are about control theory; \<^verbatim>\<open>kernel/cpu_time_counter.cpp\<close>: statistics.

  \<^item> \<^verbatim>\<open>kernel/pthread.cpp\<close>, \<^verbatim>\<open>kercalls\<close>, the integration with the C and C++ libraries: thin wrappers around the modelled primitives, with the layouts of newlib.

  \<^item> \<^verbatim>\<open>e20\<close>: type erased callbacks, placement new and template metaprogramming, with no counterpart in the logic.

  \<^item> The remaining files of \<^verbatim>\<open>util\<close> (display, software I2C and SPI), \<^verbatim>\<open>examples\<close>, \<^verbatim>\<open>templates\<close> and \<^verbatim>\<open>tools\<close>: device timing and programs that use the kernel.
\<close>

section \<open>Properties across components\<close>

text \<open>C9. Both schedulers behind the interface of the kernel: from a state of the invariant in which the
  kernel is not paused and no stack has overflowed, any sequence of runs of the scheduler on any of
  the cores and of wakeups of blocked threads goes through without error, keeps the invariant, and
  loses and duplicates no thread.\<close>

theorem scheduler_interleavings:
  assumes "sched_inv n s" "runnable s" "list_all (event_core_ok (length (idle s))) es"
    and "edf_inv st" "runnable (kern st)" "list_all (event_core_ok (length (idle (kern st)))) es'"
  shows "(\<exists>s'. sched_events (IRQrunScheduler cfg) wake_with notReadyThreads es s = Inr s'
            \<and> sched_inv n s' \<and> mset (all_threads s') = mset (all_threads s))
       \<and> (\<exists>st'. sched_events (edf_IRQrunScheduler cfg) edf_wake_with (\<lambda>st. notReadyThreads (kern st)) es' st = Inr st'
            \<and> edf_inv st' \<and> mset (edf_all st') = mset (edf_all st))"
  using prio_sched.events_ok[where cfg = cfg and n = n and s = s and es = es]
    edf_sched.events_ok[where cfg = cfg and s = st and es = es'] assms by blast

theorem scheduler_interleavings_witness:
  "\<exists>st'. sched_events (edf_IRQrunScheduler (demo_cfg False)) edf_wake_with (\<lambda>st. notReadyThreads (kern st))
       [Run 0 0, Wakeup 4 0, Run 5 0] demo_edf_blocked = Inr st' \<and> edf_inv st'"
proof -
  have s: "runnable demo_blocked" "length (idle demo_blocked) = 1"
    by (simp_all add: runnable_def demo_blocked_def demo_state_def demo_thread_def)
  have e: "runnable (kern demo_edf_blocked)" "length (idle (kern demo_edf_blocked)) = 1"
    by (simp_all add: runnable_def demo_edf_blocked_def demo_state_def demo_thread_def)
  show ?thesis
    using scheduler_interleavings[OF demo_blocked_inv s(1) _ demo_edf_blocked_inv e(1),
        of "[]" "[Run 0 0, Wakeup 4 0, Run 5 0]" "demo_cfg False"] e(2) by auto
qed

end
